(* ===== verification/Prelude.thy ===== *)
theory Prelude
  imports Main "HOL-Library.Word" "HOL-Library.Multiset" "HOL-Library.Char_ord"
    "HOL-Library.List_Lexorder" "HOL-Library.Sublist"
begin

text \<open>
  Shared vocabulary of the development: names for the Go types the components use, the
  generic facts on lists, association lists and strings, and the theorem collections.

  A Go \<^verbatim>\<open>string\<close> or \<^verbatim>\<open>[]byte\<close> is a \<^typ>\<open>string\<close> of bytes; a Go map is an association
  list read by \<^const>\<open>map_of\<close> where its iteration order matters, a partial function where
  only lookups matter; \<^verbatim>\<open>int\<close>, \<^verbatim>\<open>int64\<close> and \<^verbatim>\<open>time.Duration\<close> are \<^typ>\<open>int\<close> unless a
  wrap-around is observable, in which case the value is a word.
\<close>

unbundle bit_operations_syntax

type_synonym bytes = string
type_synonym 'v strmap = "(string \<times> 'v) list"
type_synonym u32 = "32 word"
type_synonym u64 = "64 word"

named_theorems alist_simps \<open>lookups in association lists\<close>
named_theorems inv_intros \<open>preservation of component invariants\<close>

section \<open>Integer division\<close>

text \<open>Go's integer division truncates towards zero.\<close>

definition go_div :: "int \<Rightarrow> int \<Rightarrow> int" where
  "go_div a b = sgn a * sgn b * (\<bar>a\<bar> div \<bar>b\<bar>)"

lemma go_div_nonneg [simp]: "0 \<le> a \<Longrightarrow> 0 < b \<Longrightarrow> go_div a b = a div b"
  by (cases "a = 0") (simp_all add: go_div_def)

section \<open>Association lists\<close>

text \<open>\<open>alist_upd\<close> stores under a key: in place when the key is there, at the end otherwise.\<close>

fun alist_upd :: "('k \<times> 'v) list \<Rightarrow> 'k \<Rightarrow> 'v \<Rightarrow> ('k \<times> 'v) list" where
  "alist_upd [] k v = [(k, v)]"
| "alist_upd ((k', v') # m) k v = (if k' = k then (k, v) # m else (k', v') # alist_upd m k v)"

lemma map_of_alist_upd [simp, alist_simps]: "map_of (alist_upd m k v) = (map_of m)(k \<mapsto> v)"
  by (induction m k v rule: alist_upd.induct) auto

lemma keys_alist_upd [simp]: "fst ` set (alist_upd m k v) = insert k (fst ` set m)"
  by (induction m k v rule: alist_upd.induct) auto

lemma distinct_alist_upd [simp]:
  "distinct (map fst (alist_upd m k v)) = distinct (map fst m)"
proof (induction m k v rule: alist_upd.induct)
  case (2 k' v' m k v)
  have "fst ` set (alist_upd m k v) = insert k (fst ` set m)" by simp
  with 2 show ?case by (auto simp flip: set_map)
qed simp

lemma set_alist_upd: "set (alist_upd m k v) \<subseteq> insert (k, v) (set m)"
  by (induction m k v rule: alist_upd.induct) auto

lemma map_of_None_notin [alist_simps]: "map_of m k = None \<longleftrightarrow> k \<notin> fst ` set m"
  by (rule map_of_eq_None_iff)

section \<open>Strings\<close>

text \<open>
  \<^verbatim>\<open>strings.HasPrefix(s, p)\<close>, \<^verbatim>\<open>strings.TrimRight(s, cutset)\<close> for a one-character cutset and
  \<^verbatim>\<open>strings.Split(s, sep)\<close> for a one-character separator.
\<close>

definition has_prefix :: "string \<Rightarrow> string \<Rightarrow> bool" where
  "has_prefix s p \<longleftrightarrow> length p \<le> length s \<and> take (length p) s = p"

lemma has_prefix_iff: "has_prefix s p \<longleftrightarrow> (\<exists>r. s = p @ r)"
proof
  assume "has_prefix s p"
  then have "s = p @ drop (length p) s"
    unfolding has_prefix_def by (metis append_take_drop_id)
  then show "\<exists>r. s = p @ r" by blast
qed (auto simp: has_prefix_def)

definition trim_right :: "char \<Rightarrow> string \<Rightarrow> string" where
  "trim_right c s = rev (dropWhile (\<lambda>x. x = c) (rev s))"

lemma trim_right_idem [simp]: "trim_right c (trim_right c s) = trim_right c s"
  by (simp add: trim_right_def dropWhile_idem)

lemma trim_right_snoc [simp]: "trim_right c (s @ [c]) = trim_right c s"
  by (simp add: trim_right_def)

fun split_on :: "'a \<Rightarrow> 'a list \<Rightarrow> 'a list list" where
  "split_on c [] = [[]]"
| "split_on c (x # xs) =
     (if x = c then [] # split_on c xs
      else (case split_on c xs of [] \<Rightarrow> [[x]] | y # ys \<Rightarrow> (x # y) # ys))"

lemma split_on_nonempty [simp]: "split_on c xs \<noteq> []"
  by (induction xs) (auto split: list.splits)

lemma split_on_notin: "c \<notin> set xs \<Longrightarrow> split_on c xs = [xs]"
  by (induction xs) auto

lemma split_on_append: "c \<notin> set xs \<Longrightarrow> split_on c (xs @ c # ys) = xs # split_on c ys"
  by (induction xs) auto

text \<open>\<^verbatim>\<open>bytes.Join(parts, sep)\<close> for a one-byte separator.\<close>

fun join_with :: "'a \<Rightarrow> 'a list list \<Rightarrow> 'a list" where
  "join_with c [] = []"
| "join_with c [x] = x"
| "join_with c (x # y # ys) = x @ c # join_with c (y # ys)"

lemma split_join:
  "xss \<noteq> [] \<Longrightarrow> \<forall>xs \<in> set xss. c \<notin> set xs \<Longrightarrow> split_on c (join_with c xss) = xss"
  by (induction c xss rule: join_with.induct) (auto simp: split_on_notin split_on_append)

text \<open>Decimal rendering, as \<^verbatim>\<open>%d\<close> does for a length or a count.\<close>

definition digit_char :: "nat \<Rightarrow> char" where
  "digit_char d = char_of (48 + d)"

fun dec_nat :: "nat \<Rightarrow> string" where
  "dec_nat n = (if n < 10 then [digit_char n] else dec_nat (n div 10) @ [digit_char (n mod 10)])"

declare dec_nat.simps [simp del]

lemma digit_char_range: "d < 10 \<Longrightarrow> of_char (digit_char d) = (48 + d :: nat)"
  by (simp add: digit_char_def)

lemma dec_nat_chars: "\<forall>c \<in> set (dec_nat n). of_char c \<ge> (48::nat) \<and> of_char c \<le> (57::nat)"
proof (induction n rule: dec_nat.induct)
  case (1 n)
  then show ?case
    by (subst dec_nat.simps) (auto simp: digit_char_range)
qed

lemma dec_nat_nonempty [simp]: "dec_nat n \<noteq> []" and dec_nat_nonempty' [simp]: "[] \<noteq> dec_nat n"
  by (subst dec_nat.simps, simp)+

lemma digit_char_inj: "d < 10 \<Longrightarrow> e < 10 \<Longrightarrow> digit_char d = digit_char e \<Longrightarrow> d = e"
  using digit_char_range by (metis add_left_cancel)

lemma dec_nat_inj: "dec_nat m = dec_nat n \<Longrightarrow> m = n"
proof (induction m arbitrary: n rule: dec_nat.induct)
  case (1 m)
  show ?case
  proof (cases "m < 10 \<or> n < 10")
    case True
    with "1.prems" show ?thesis
      by (subst (asm) (1 2) dec_nat.simps) (auto split: if_splits dest: digit_char_inj)
  next
    case False
    with "1.prems" have "dec_nat (m div 10) @ [digit_char (m mod 10)]
        = dec_nat (n div 10) @ [digit_char (n mod 10)]"
      using dec_nat.simps[of m] dec_nat.simps[of n] by simp
    then have "m div 10 = n div 10" and "m mod 10 = n mod 10"
      using False "1.IH" by (auto intro: digit_char_inj)
    then show ?thesis by (metis div_mult_mod_eq)
  qed
qed

text \<open>Lower-case hexadecimal, as \<^verbatim>\<open>%x\<close> and \<^verbatim>\<open>hex.EncodeToString\<close> print bytes.\<close>

definition hex_digit :: "nat \<Rightarrow> char" where
  "hex_digit d = (if d < 10 then char_of (48 + d) else char_of (87 + d))"

definition hex_encode :: "bytes \<Rightarrow> string" where
  "hex_encode bs = concat (map (\<lambda>c. let n = of_char c in [hex_digit (n div 16), hex_digit (n mod 16)]) bs)"

lemma hex_digit_inj: "m < 16 \<Longrightarrow> n < 16 \<Longrightarrow> hex_digit m = hex_digit n \<Longrightarrow> m = n"
proof -
  assume m: "m < 16" and n: "n < 16" and eq: "hex_digit m = hex_digit n"
  have "of_char (hex_digit k) = (if k < 10 then 48 + k else 87 + k)" if "k < 16" for k :: nat
    using that by (simp add: hex_digit_def)
  with m n arg_cong [OF eq, where f = "of_char :: char \<Rightarrow> nat"] show "m = n"
    by (auto split: if_splits)
qed

lemma hex_encode_inj: "hex_encode xs = hex_encode ys \<Longrightarrow> xs = ys"
proof (induction xs arbitrary: ys)
  case Nil
  then show ?case by (cases ys) (auto simp: hex_encode_def Let_def)
next
  case (Cons x xs)
  then obtain y ys' where y: "ys = y # ys'" by (cases ys) (auto simp: hex_encode_def Let_def)
  let ?x = "of_char x :: nat" and ?y = "of_char y :: nat"
  have b: "?x < 256" "?y < 256"
    by simp_all
  from Cons.prems y have
    d: "hex_digit (?x div 16) = hex_digit (?y div 16)" "hex_digit (?x mod 16) = hex_digit (?y mod 16)"
    and rest: "hex_encode xs = hex_encode ys'"
    by (simp_all add: hex_encode_def Let_def)
  have "?x div 16 < 16" "?y div 16 < 16" using b by linarith+
  then have "?x div 16 = ?y div 16" using d(1) by (intro hex_digit_inj)
  moreover have "?x mod 16 = ?y mod 16" using d(2) by (intro hex_digit_inj) auto
  ultimately have "?x = ?y" by (metis div_mult_mod_eq)
  then have "x = y" by simp
  with Cons.IH [OF rest] y show ?case by simp
qed

section \<open>Lists\<close>

lemma sum_list_count_filter: "length xs = length (filter P xs) + length (filter (\<lambda>x. \<not> P x) xs)"
  by (induction xs) auto

end
