(* ===== verification/Config.thy ===== *)
theory Config
  imports Prelude
begin

text \<open>
  \<^verbatim>\<open>config/config.go\<close>: loading the configuration. The file system, the YAML decoder and the
  number of CPUs are parameters. The lemmas show what the rest of the program may assume of a
  configuration that was loaded.
\<close>

record config =
  cf_Address :: string
  cf_RulesDir :: string
  cf_DuckDBPath :: string
  cf_WebhookURL :: string
  cf_Workers :: int
  cf_LogLevel :: string
  cf_Emit :: string
  cf_RoutingField :: string
  cf_ClusterPeers :: "string list"
  cf_ClusterSelf :: string

definition zero_config :: config where
  "zero_config = \<lparr>cf_Address = '''', cf_RulesDir = '''', cf_DuckDBPath = '''', cf_WebhookURL = '''',
     cf_Workers = 0, cf_LogLevel = '''', cf_Emit = '''', cf_RoutingField = '''',
     cf_ClusterPeers = [], cf_ClusterSelf = ''''\<rparr>"

datatype file_read = FileData bytes | NotExist | FileError string

datatype config_error =
    ReadConfig string string
  | ParseConfig string string
  | InvalidLogLevel string
  | InvalidEmit string
  | ClusterSelfRequired

text \<open>The first half: reading and decoding, into a zero configuration.\<close>

definition read_config ::
  "(string \<Rightarrow> file_read) \<Rightarrow> (bytes \<Rightarrow> config \<Rightarrow> string + config) \<Rightarrow> string \<Rightarrow> config_error + config" where
  "read_config read unmarshal path =
     (if path = '''' then Inr zero_config
      else (case read path of
              FileError e \<Rightarrow> Inl (ReadConfig path e)
            | NotExist \<Rightarrow> Inr zero_config
            | FileData bs \<Rightarrow>
                (case unmarshal bs zero_config of
                   Inl e \<Rightarrow> Inl (ParseConfig path e)
                 | Inr cfg \<Rightarrow> Inr cfg)))"

definition or_default :: "string \<Rightarrow> string \<Rightarrow> string" where
  "or_default s d = (if s = '''' then d else s)"

definition apply_defaults :: "int \<Rightarrow> config \<Rightarrow> config" where
  "apply_defaults numCPU c =
     c\<lparr>cf_Address := or_default (cf_Address c) '':8080'',
       cf_RulesDir := or_default (cf_RulesDir c) ''./rules'',
       cf_DuckDBPath := or_default (cf_DuckDBPath c) ''fruitfly.duckdb'',
       cf_LogLevel := or_default (cf_LogLevel c) ''info'',
       cf_Workers := (if cf_Workers c \<le> 0 then numCPU else cf_Workers c),
       cf_Emit := or_default (cf_Emit c) ''all''\<rparr>"

definition log_levels :: "string list" where
  "log_levels = [''debug'', ''info'', ''warn'', ''error'']"

definition emit_policies :: "string list" where
  "emit_policies = [''all'', ''interesting'']"

definition Load ::
  "(string \<Rightarrow> file_read) \<Rightarrow> (bytes \<Rightarrow> config \<Rightarrow> string + config) \<Rightarrow> int \<Rightarrow> string
     \<Rightarrow> config_error + config" where
  "Load read unmarshal numCPU path =
     (case read_config read unmarshal path of
        Inl e \<Rightarrow> Inl e
      | Inr cfg0 \<Rightarrow>
          (let cfg = apply_defaults numCPU cfg0 in
           if cf_LogLevel cfg \<notin> set log_levels then Inl (InvalidLogLevel (cf_LogLevel cfg))
           else if cf_Emit cfg \<notin> set emit_policies then Inl (InvalidEmit (cf_Emit cfg))
           else let cfg' = cfg\<lparr>cf_RoutingField := or_default (cf_RoutingField cfg) ''entity_id''\<rparr> in
             if length (cf_ClusterPeers cfg') > 0 \<and> cf_ClusterSelf cfg' = ''''
             then Inl ClusterSelfRequired
             else Inr cfg'))"

section \<open>What a loaded configuration guarantees\<close>

definition config_ok :: "config \<Rightarrow> bool" where
  "config_ok c \<longleftrightarrow>
     cf_Address c \<noteq> '''' \<and> cf_RulesDir c \<noteq> '''' \<and> cf_DuckDBPath c \<noteq> '''' \<and>
     cf_LogLevel c \<in> set log_levels \<and> cf_Emit c \<in> set emit_policies \<and>
     cf_RoutingField c \<noteq> '''' \<and> cf_Workers c > 0 \<and>
     (cf_ClusterPeers c \<noteq> [] \<longrightarrow> cf_ClusterSelf c \<noteq> '''')"

lemma or_default_nonempty [simp]: "d \<noteq> '''' \<Longrightarrow> or_default s d \<noteq> ''''"
  by (simp add: or_default_def)

lemma or_default_id [simp]: "s \<noteq> '''' \<Longrightarrow> or_default s d = s"
  by (simp add: or_default_def)

lemma Load_ok:
  "numCPU > 0 \<Longrightarrow> Load read unmarshal numCPU path = Inr cfg \<Longrightarrow> config_ok cfg"
  by (auto simp: Load_def config_ok_def apply_defaults_def Let_def split: sum.splits if_splits)

text \<open>What was set in the file is kept; only missing values are replaced.\<close>

lemma Load_keeps:
  assumes "Load read unmarshal numCPU path = Inr cfg" and "read_config read unmarshal path = Inr c0"
  shows "cf_Address c0 \<noteq> '''' \<Longrightarrow> cf_Address cfg = cf_Address c0"
    and "cf_Workers c0 > 0 \<Longrightarrow> cf_Workers cfg = cf_Workers c0"
    and "cf_Emit c0 \<noteq> '''' \<Longrightarrow> cf_Emit cfg = cf_Emit c0"
    and "cf_RoutingField c0 \<noteq> '''' \<Longrightarrow> cf_RoutingField cfg = cf_RoutingField c0"
    and "cf_WebhookURL cfg = cf_WebhookURL c0"
    and "cf_ClusterPeers cfg = cf_ClusterPeers c0" and "cf_ClusterSelf cfg = cf_ClusterSelf c0"
  using assms by (auto simp: Load_def apply_defaults_def Let_def split: if_splits)

text \<open>A configuration that is already complete loads unchanged.\<close>

lemma apply_defaults_complete: "config_ok c \<Longrightarrow> apply_defaults numCPU c = c"
  by (cases c) (auto simp: config_ok_def apply_defaults_def or_default_def log_levels_def emit_policies_def)

lemma Load_complete:
  assumes ok: "config_ok c" and "path \<noteq> ''''" and "read path = FileData bs"
    and "unmarshal bs zero_config = Inr c"
  shows "Load read unmarshal numCPU path = Inr c"
proof -
  have "read_config read unmarshal path = Inr c" using assms by (simp add: read_config_def)
  moreover have "c\<lparr>cf_RoutingField := or_default (cf_RoutingField c) ''entity_id''\<rparr> = c"
    using ok by (simp add: config_ok_def)
  moreover have "cf_LogLevel c \<in> set log_levels" "cf_Emit c \<in> set emit_policies"
    "\<not> (length (cf_ClusterPeers c) > 0 \<and> cf_ClusterSelf c = '''')"
    using ok unfolding config_ok_def by auto
  ultimately show ?thesis by (simp only: Load_def Let_def apply_defaults_complete [OF ok] sum.case not_not if_False not_True_eq_False)
qed

definition default_config :: "int \<Rightarrow> config" where
  "default_config numCPU = \<lparr>cf_Address = '':8080'', cf_RulesDir = ''./rules'',
     cf_DuckDBPath = ''fruitfly.duckdb'', cf_WebhookURL = '''', cf_Workers = numCPU,
     cf_LogLevel = ''info'', cf_Emit = ''all'', cf_RoutingField = ''entity_id'',
     cf_ClusterPeers = [], cf_ClusterSelf = ''''\<rparr>"

lemma Load_missing:
  "path = '''' \<or> read path = NotExist \<Longrightarrow> Load read unmarshal numCPU path = Inr (default_config numCPU)"
  by (auto simp: Load_def read_config_def zero_config_def apply_defaults_def or_default_def
      log_levels_def emit_policies_def default_config_def Let_def)

section \<open>Properties\<close>

text \<open>
  C33: what a loaded configuration guarantees: every setting the program relies on is present
  and valid, in cluster mode the own name is set, settings without a default are those read
  from the file, and a file that holds what was loaded loads to the same configuration.
\<close>

theorem loaded_config_valid:
  assumes "numCPU > 0" and "Load read unmarshal numCPU path = Inr cfg"
  shows "config_ok cfg \<and>
    (\<exists>c0. read_config read unmarshal path = Inr c0 \<and> cf_WebhookURL cfg = cf_WebhookURL c0 \<and>
       cf_ClusterPeers cfg = cf_ClusterPeers c0 \<and> cf_ClusterSelf cfg = cf_ClusterSelf c0 \<and>
       cf_Workers cfg = (if cf_Workers c0 \<le> 0 then numCPU else cf_Workers c0) \<and>
       cf_Emit cfg = or_default (cf_Emit c0) ''all'') \<and>
    Load (\<lambda>_. FileData bs) (\<lambda>_ _. Inr cfg) numCPU' (p # ps) = Inr cfg"
proof -
  have ok: "config_ok cfg" using assms by (rule Load_ok)
  obtain c0 where c0: "read_config read unmarshal path = Inr c0"
    using assms(2) by (auto simp: Load_def split: sum.splits)
  have "cf_WebhookURL cfg = cf_WebhookURL c0 \<and> cf_ClusterPeers cfg = cf_ClusterPeers c0 \<and>
      cf_ClusterSelf cfg = cf_ClusterSelf c0 \<and>
      cf_Workers cfg = (if cf_Workers c0 \<le> 0 then numCPU else cf_Workers c0) \<and>
      cf_Emit cfg = or_default (cf_Emit c0) ''all''"
    using assms(2) c0 by (auto simp: Load_def apply_defaults_def Let_def split: if_splits)
  moreover have "Load (\<lambda>_. FileData bs) (\<lambda>_ _. Inr cfg) numCPU' (p # ps) = Inr cfg"
    by (rule Load_complete [OF ok]) simp_all
  ultimately show ?thesis using ok c0 by blast
qed

theorem loaded_config_valid_witness:
  "Load (\<lambda>_. NotExist) (\<lambda>_ c. Inr c) 8 ''fruitfly.yaml'' = Inr (default_config 8) \<and> config_ok (default_config 8)"
  using loaded_config_valid [of 8 "\<lambda>_. NotExist" "\<lambda>_ c. Inr c" "''fruitfly.yaml''" "default_config 8"]
    Load_missing [of "''fruitfly.yaml''" "\<lambda>_. NotExist" "\<lambda>_ c. Inr c" 8] by simp

end
