(* ===== verification/Values.thy ===== *)
theory Values
  imports Prelude Complex_Main
begin

text \<open>
  The dynamically typed values the program moves between JSON, Go and Starlark:
  \<^verbatim>\<open>float64\<close> with its comparisons and the rounding conversion from 64-bit integers,
  \<^verbatim>\<open>any\<close> as \<^verbatim>\<open>encoding/json\<close> decodes it (plus the integer cases the code handles
  defensively), and the Starlark values the rule engine builds or inspects.
\<close>

section \<open>float64\<close>

text \<open>
  A \<^verbatim>\<open>float64\<close> is a finite value (as a rational), an infinity or NaN. The two zeros are
  one value here: the program only compares floats, and Go compares the zeros as equal.
\<close>

datatype float64 = Fin rat | PInf | NInf | NaN

fun f_eq :: "float64 \<Rightarrow> float64 \<Rightarrow> bool" where
  "f_eq (Fin x) (Fin y) = (x = y)"
| "f_eq PInf PInf = True"
| "f_eq NInf NInf = True"
| "f_eq _ _ = False"

fun f_lt :: "float64 \<Rightarrow> float64 \<Rightarrow> bool" where
  "f_lt (Fin x) (Fin y) = (x < y)"
| "f_lt (Fin x) PInf = True"
| "f_lt NInf (Fin y) = True"
| "f_lt NInf PInf = True"
| "f_lt _ _ = False"

definition f_le :: "float64 \<Rightarrow> float64 \<Rightarrow> bool" where
  "f_le x y \<longleftrightarrow> f_lt x y \<or> f_eq x y"

lemma f_trichotomy:
  "x \<noteq> NaN \<Longrightarrow> y \<noteq> NaN \<Longrightarrow> f_lt x y \<or> f_eq x y \<or> f_lt y x"
  by (cases x; cases y) auto

lemma f_lt_asym: "f_lt x y \<Longrightarrow> \<not> f_lt y x \<and> \<not> f_eq x y"
  by (cases x; cases y) auto

lemma f_eq_sym: "f_eq x y = f_eq y x"
  by (cases x; cases y) auto

lemma f_not_lt_iff: "x \<noteq> NaN \<Longrightarrow> y \<noteq> NaN \<Longrightarrow> (\<not> f_lt x y) = f_le y x"
  unfolding f_le_def by (cases x; cases y) auto

text \<open>
  \<^verbatim>\<open>float64(n)\<close> for an integer rounds to the nearest value with a 53-bit significand,
  ties to even.
\<close>

fun bit_len :: "nat \<Rightarrow> nat" where
  "bit_len n = (if n = 0 then 0 else Suc (bit_len (n div 2)))"

declare bit_len.simps [simp del]

definition round53 :: "nat \<Rightarrow> nat" where
  "round53 n =
     (let e = bit_len n - 53; q = n div 2 ^ e; r = n mod 2 ^ e
      in if 2 * r < 2 ^ e then q * 2 ^ e
         else if 2 * r > 2 ^ e then (q + 1) * 2 ^ e
         else (if e = 0 then n else (q + q mod 2) * 2 ^ e))"

definition float_of_int :: "int \<Rightarrow> float64" where
  "float_of_int i = Fin (of_int (sgn i * int (round53 (nat \<bar>i\<bar>))))"

lemma bit_len_le: "n < 2 ^ k \<Longrightarrow> bit_len n \<le> k"
proof (induction n arbitrary: k rule: bit_len.induct)
  case (1 n)
  show ?case
  proof (cases "n = 0")
    case True
    then show ?thesis by (subst bit_len.simps) simp
  next
    case False
    then obtain k' where k: "k = Suc k'" using "1.prems" by (cases k) auto
    with "1.prems" have "n div 2 < 2 ^ k'" by simp
    with False "1.IH" k show ?thesis by (subst bit_len.simps) simp
  qed
qed

lemma round53_exact: "n < 2 ^ 53 \<Longrightarrow> round53 n = n"
  using bit_len_le[of n 53] by (simp add: round53_def)

text \<open>Integers of magnitude below \<open>2 ^ 53\<close> convert exactly.\<close>

lemma float_of_int_exact: "\<bar>i\<bar> < 2 ^ 53 \<Longrightarrow> float_of_int i = Fin (of_int i)"
proof -
  assume "\<bar>i\<bar> < 2 ^ 53"
  then have "nat \<bar>i\<bar> < 2 ^ 53" by (simp add: nat_less_iff)
  then have "round53 (nat \<bar>i\<bar>) = nat \<bar>i\<bar>" by (rule round53_exact)
  then show ?thesis by (simp add: float_of_int_def sgn_mult_abs)
qed

section \<open>Go's any\<close>

text \<open>
  What a \<^verbatim>\<open>map[string]any\<close> payload can hold. JSON decoding yields \<open>ANil\<close>, \<open>ABool\<close>,
  \<open>AFloat\<close>, \<open>AString\<close>, \<open>AList\<close> and \<open>AMap\<close>; \<open>AInt\<close> and \<open>AInt64\<close> are the two
  integer types the code also accepts. A map has each key once.
\<close>

datatype goval =
    ANil
  | ABool bool
  | AFloat float64
  | AInt int
  | AInt64 int
  | AString string
  | AList "goval list"
  | AMap "(string \<times> goval) list"

type_synonym payload = "(string \<times> goval) list"

text \<open>Every map inside a value has distinct keys.\<close>

fun wf_goval :: "goval \<Rightarrow> bool" where
  "wf_goval (AList vs) = (\<forall>v \<in> set vs. wf_goval v)"
| "wf_goval (AMap m) = (distinct (map fst m) \<and> (\<forall>kv \<in> set m. wf_goval (snd kv)))"
| "wf_goval _ = True"

section \<open>Starlark values\<close>

text \<open>
  The values the engine creates or takes apart. \<open>SEvent a\<close> is a reference to the lazy
  event view at address \<open>a\<close>; \<open>SCallable f\<close> is a compiled function; \<open>SOther t\<close> stands
  for a value of any other type, of which the engine only reads the type.
\<close>

datatype sval =
    SNone
  | SBool bool
  | SInt int
  | SFloat float64
  | SString string
  | SList "sval list"
  | STuple "sval list"
  | SDict "(sval \<times> sval) list"
  | SStruct "(string \<times> sval) list"
  | SEvent nat
  | SCallable nat
  | SOther string

end
