(* ===== verification/Types.thy ===== *)
theory Types
  imports Values
begin

text \<open>
  \<^verbatim>\<open>types/types.go\<close>: the event, the verdicts with their weights, and the results that
  travel through the pipeline. An \<^verbatim>\<open>error\<close> a rule can end with is a value of
  \<open>rule_error\<close>; the \<^verbatim>\<open>ErrMsg\<close> text is represented by the error it renders, \<open>None\<close>
  for the empty string.
\<close>

text \<open>A \<^verbatim>\<open>time.Time\<close> is its count of nanoseconds since the Unix epoch; \<^verbatim>\<open>Unix()\<close> floors.\<close>

type_synonym gotime = int
type_synonym duration = int

definition unix_seconds :: "gotime \<Rightarrow> int" where
  "unix_seconds t = t div 1000000000"

record event =
  ev_EventID :: string
  ev_EventType :: string
  ev_EntityID :: string
  ev_Timestamp :: gotime
  ev_Payload :: payload
  ev_RawJSON :: bytes
  ev_ReceivedAt :: gotime

type_synonym verdict = string

definition VerdictApprove :: verdict where "VerdictApprove = ''approve''"
definition VerdictBlock :: verdict where "VerdictBlock = ''block''"
definition VerdictReview :: verdict where "VerdictReview = ''review''"

lemmas verdict_defs = VerdictApprove_def VerdictBlock_def VerdictReview_def

definition VerdictWeight :: "verdict \<Rightarrow> int" where
  "VerdictWeight v =
     (if v = VerdictBlock then 3
      else if v = VerdictReview then 2
      else if v = VerdictApprove then 1
      else 0)"

text \<open>The three verdicts a rule can return.\<close>

definition known_verdict :: "verdict \<Rightarrow> bool" where
  "known_verdict v \<longleftrightarrow> v = VerdictApprove \<or> v = VerdictBlock \<or> v = VerdictReview"

lemma VerdictWeight_simps [simp]:
  "VerdictWeight VerdictBlock = 3" "VerdictWeight VerdictReview = 2"
  "VerdictWeight VerdictApprove = 1"
  by (simp_all add: VerdictWeight_def verdict_defs)

lemma VerdictWeight_inj:
  "known_verdict v \<Longrightarrow> known_verdict w \<Longrightarrow> VerdictWeight v = VerdictWeight w \<Longrightarrow> v = w"
  by (auto simp: known_verdict_def)

lemma known_verdict_nonempty: "known_verdict v \<Longrightarrow> v \<noteq> ''''"
  by (auto simp: known_verdict_def verdict_defs)

section \<open>Errors\<close>

text \<open>What \<^verbatim>\<open>ctx.Err()\<close> can return.\<close>

datatype ctx_error = DeadlineExceeded | Canceled

datatype verdict_error =
    NotAVerdict sval
  | MissingAttr string
  | AttrNotString string sval
  | InvalidVerdictType string

text \<open>
  How a rule fails: the event deadline had passed before it ran, or passed while it ran;
  its step budget ran out; its evaluation failed; it returned something that is no verdict;
  it panicked.
\<close>

datatype rule_error =
    CtxBefore ctx_error
  | CtxDuring ctx_error string
  | StepBudgetExceeded string
  | EvalFailed string
  | BadVerdict verdict_error
  | Panicked string

section \<open>Results\<close>

record rule_result =
  rr_RuleID :: string
  rr_Priority :: int
  rr_Verdict :: verdict
  rr_Reason :: string
  rr_Err :: "rule_error option"
  rr_ErrMsg :: "rule_error option"
  rr_Elapsed :: duration

record result =
  res_EventID :: string
  res_EventType :: string
  res_FinalVerdict :: verdict
  res_TriggeredRules :: "rule_result list"
  res_FailedRules :: "rule_result list"
  res_Payload :: payload
  res_RawPayload :: bytes
  res_LatencyUS :: int
  res_ProcessedAt :: gotime

end
