(* ===== verification/Match.thy ===== *)
theory Match
  imports Types
begin

text \<open>
  \<^verbatim>\<open>rules/match.go\<close>: the tier-1 prefilter. \<open>lowerMatch\<close> validates a rule's \<^verbatim>\<open>match\<close> global
  and lowers it to predicates; \<open>eval\<close> decides one predicate on an event without Starlark.
  \<open>wf_pred\<close> is what lowering guarantees of a predicate; the lemmas show that lowering
  establishes it, that a well-formed predicate never indexes an empty path, and what each
  operator decides, with a missing or mistyped field always deciding false.
\<close>

record predicate =
  p_Path :: "string list"
  p_Op :: string
  p_Value :: goval

definition matchOps :: "string list" where
  "matchOps = [''=='', ''!='', ''<'', ''<='', ''>'', ''>='', ''in'', ''exists'', ''prefix'']"

section \<open>Scalars\<close>

fun toFloat :: "goval \<Rightarrow> float64 option" where
  "toFloat (AFloat n) = Some n"
| "toFloat (AInt n) = Some (float_of_int n)"
| "toFloat (AInt64 n) = Some (float_of_int n)"
| "toFloat _ = None"

definition comparable2 :: "goval \<Rightarrow> goval \<Rightarrow> (float64 \<times> float64) option" where
  "comparable2 field want =
     (case (toFloat field, toFloat want) of
        (Some f, Some w) \<Rightarrow> Some (f, w)
      | _ \<Rightarrow> None)"

definition scalarEqual :: "goval \<Rightarrow> goval \<Rightarrow> bool" where
  "scalarEqual field want =
     (case comparable2 field want of
        Some (f, w) \<Rightarrow> f_eq f w
      | None \<Rightarrow>
          (case field of
             AString fv \<Rightarrow> (case want of AString wv \<Rightarrow> fv = wv | _ \<Rightarrow> False)
           | ABool fv \<Rightarrow> (case want of ABool wv \<Rightarrow> fv = wv | _ \<Rightarrow> False)
           | _ \<Rightarrow> False))"

definition scalarComparable :: "goval \<Rightarrow> goval \<Rightarrow> bool" where
  "scalarComparable field want =
     (case comparable2 field want of
        Some _ \<Rightarrow> True
      | None \<Rightarrow>
          (case field of
             AString _ \<Rightarrow> (case want of AString _ \<Rightarrow> True | _ \<Rightarrow> False)
           | ABool _ \<Rightarrow> (case want of ABool _ \<Rightarrow> True | _ \<Rightarrow> False)
           | _ \<Rightarrow> False))"

section \<open>Paths\<close>

text \<open>Indexing an empty path panics; the walk itself never does.\<close>

datatype panic = IndexOutOfRange

fun walk_path :: "goval \<Rightarrow> string list \<Rightarrow> goval option" where
  "walk_path cur [] = Some cur"
| "walk_path cur (seg # segs) =
     (case cur of
        AMap m \<Rightarrow> (case map_of m seg of None \<Rightarrow> None | Some v \<Rightarrow> walk_path v segs)
      | _ \<Rightarrow> None)"

definition envelope_field :: "event \<Rightarrow> string \<Rightarrow> goval option" where
  "envelope_field ev name =
     (if name = ''payload'' then Some (AMap (ev_Payload ev))
      else if name = ''event_type'' then Some (AString (ev_EventType ev))
      else if name = ''event_id'' then Some (AString (ev_EventID ev))
      else if name = ''entity_id'' then Some (AString (ev_EntityID ev))
      else if name = ''timestamp'' then Some (AFloat (float_of_int (unix_seconds (ev_Timestamp ev))))
      else None)"

definition resolvePath :: "event \<Rightarrow> string list \<Rightarrow> panic + goval option" where
  "resolvePath ev path =
     (case path of
        [] \<Rightarrow> Inl IndexOutOfRange
      | name # segs \<Rightarrow>
          Inr (case envelope_field ev name of None \<Rightarrow> None | Some cur \<Rightarrow> walk_path cur segs))"

section \<open>Evaluation\<close>

text \<open>The operator applied to a field that is present.\<close>

definition eval_op :: "string \<Rightarrow> goval \<Rightarrow> goval \<Rightarrow> bool" where
  "eval_op op field v =
     (if op = ''=='' then scalarEqual field v
      else if op = ''!='' then scalarComparable field v \<and> \<not> scalarEqual field v
      else if op = ''<'' \<or> op = ''<='' \<or> op = ''>'' \<or> op = ''>='' then
        (case comparable2 field v of
           None \<Rightarrow> False
         | Some (f, w) \<Rightarrow>
             if op = ''<'' then f_lt f w
             else if op = ''<='' then f_le f w
             else if op = ''>'' then f_lt w f
             else f_le w f)
      else if op = ''in'' then
        (case v of AList items \<Rightarrow> list_ex (scalarEqual field) items | _ \<Rightarrow> False)
      else if op = ''prefix'' then
        (case (field, v) of (AString fs, AString ws) \<Rightarrow> has_prefix fs ws | _ \<Rightarrow> False)
      else False)"

definition eval :: "event \<Rightarrow> predicate \<Rightarrow> panic + bool" where
  "eval ev p =
     (case resolvePath ev (p_Path p) of
        Inl e \<Rightarrow> Inl e
      | Inr field \<Rightarrow>
          if p_Op p = ''exists'' then Inr (field \<noteq> None)
          else (case field of None \<Rightarrow> Inr False | Some f \<Rightarrow> Inr (eval_op (p_Op p) f (p_Value p))))"

fun PrefilterMatch :: "predicate list \<Rightarrow> event \<Rightarrow> panic + bool" where
  "PrefilterMatch [] ev = Inr True"
| "PrefilterMatch (p # ps) ev =
     (case eval ev p of
        Inl e \<Rightarrow> Inl e
      | Inr b \<Rightarrow> if \<not> b then Inr False else PrefilterMatch ps ev)"

section \<open>Lowering\<close>

datatype scalar_error = IntOverflow | UnsupportedConstant sval

text \<open>The errors of \<^verbatim>\<open>lowerMatch\<close>; each message also carries the file name.\<close>

datatype match_error =
    MatchNotDict sval
  | MatchNeedsAll
  | AllNotList
  | ClauseNotList nat
  | ClauseArity nat
  | BadPath nat
  | UnsupportedOp nat sval
  | ExistsTakesNoValue nat
  | OpRequiresValue nat string
  | InRequiresList nat
  | BadScalar nat scalar_error
  | InNotHomogeneous nat string string
  | PrefixRequiresString nat
  | OpRequiresNumber nat string

definition in_int64 :: "int \<Rightarrow> bool" where
  "in_int64 i \<longleftrightarrow> - (2 ^ 63) \<le> i \<and> i < 2 ^ 63"

definition lowerScalar :: "sval \<Rightarrow> scalar_error + goval" where
  "lowerScalar v =
     (case v of
        SString s \<Rightarrow> Inr (AString s)
      | SInt i \<Rightarrow> if in_int64 i then Inr (AFloat (float_of_int i)) else Inl IntOverflow
      | SFloat f \<Rightarrow> Inr (AFloat f)
      | SBool b \<Rightarrow> Inr (ABool b)
      | _ \<Rightarrow> Inl (UnsupportedConstant v))"

definition scalarType :: "goval \<Rightarrow> string" where
  "scalarType v =
     (case v of
        AString _ \<Rightarrow> ''string''
      | AFloat _ \<Rightarrow> ''number''
      | ABool _ \<Rightarrow> ''bool''
      | _ \<Rightarrow> ''unknown'')"

text \<open>The item loop of \<^verbatim>\<open>in\<close>: \<open>firstType\<close> is \<open>None\<close> before the first item.\<close>

fun lower_items :: "nat \<Rightarrow> string option \<Rightarrow> sval list \<Rightarrow> match_error + goval list" where
  "lower_items i firstType [] = Inr []"
| "lower_items i firstType (v # vs) =
     (case lowerScalar v of
        Inl e \<Rightarrow> Inl (BadScalar i e)
      | Inr item \<Rightarrow>
          let t = scalarType item in
          (case firstType of
             Some ft \<Rightarrow>
               if t \<noteq> ft then Inl (InNotHomogeneous i ft t)
               else (case lower_items i (Some ft) vs of Inl e \<Rightarrow> Inl e | Inr items \<Rightarrow> Inr (item # items))
           | None \<Rightarrow>
               (case lower_items i (Some t) vs of Inl e \<Rightarrow> Inl e | Inr items \<Rightarrow> Inr (item # items))))"

definition as_string :: "sval \<Rightarrow> string option" where
  "as_string v = (case v of SString s \<Rightarrow> Some s | _ \<Rightarrow> None)"

definition lower_value :: "nat \<Rightarrow> string \<Rightarrow> sval list \<Rightarrow> match_error + goval" where
  "lower_value i op clause =
     (if op = ''exists'' then
        (if length clause \<noteq> 2 then Inl (ExistsTakesNoValue i) else Inr ANil)
      else if length clause \<noteq> 3 then Inl (OpRequiresValue i op)
      else if op = ''in'' then
        (case clause ! 2 of
           SList items \<Rightarrow>
             if items = [] then Inl (InRequiresList i)
             else (case lower_items i None items of Inl e \<Rightarrow> Inl e | Inr vs \<Rightarrow> Inr (AList vs))
         | _ \<Rightarrow> Inl (InRequiresList i))
      else
        (case lowerScalar (clause ! 2) of
           Inl e \<Rightarrow> Inl (BadScalar i e)
         | Inr val \<Rightarrow>
             if op = ''prefix'' \<and> scalarType val \<noteq> ''string'' then Inl (PrefixRequiresString i)
             else if (op = ''<'' \<or> op = ''<='' \<or> op = ''>'' \<or> op = ''>='')
                     \<and> scalarType val \<noteq> ''number'' then Inl (OpRequiresNumber i op)
             else Inr val))"

definition lower_clause :: "nat \<Rightarrow> sval \<Rightarrow> match_error + predicate" where
  "lower_clause i c =
     (case c of
        SList clause \<Rightarrow>
          if length clause < 2 \<or> length clause > 3 then Inl (ClauseArity i)
          else
            (case as_string (clause ! 0) of
               None \<Rightarrow> Inl (BadPath i)
             | Some pathStr \<Rightarrow>
                 if pathStr = '''' then Inl (BadPath i)
                 else
                   (case as_string (clause ! 1) of
                      None \<Rightarrow> Inl (UnsupportedOp i (clause ! 1))
                    | Some op \<Rightarrow>
                        if op \<notin> set matchOps then Inl (UnsupportedOp i (clause ! 1))
                        else
                          (case lower_value i op clause of
                             Inl e \<Rightarrow> Inl e
                           | Inr v \<Rightarrow> Inr \<lparr>p_Path = split_on (CHR ''.'') pathStr,
                                           p_Op = op, p_Value = v\<rparr>)))
      | _ \<Rightarrow> Inl (ClauseNotList i))"

fun lower_clauses :: "nat \<Rightarrow> sval list \<Rightarrow> match_error + predicate list" where
  "lower_clauses i [] = Inr []"
| "lower_clauses i (c # cs) =
     (case lower_clause i c of
        Inl e \<Rightarrow> Inl e
      | Inr p \<Rightarrow> (case lower_clauses (Suc i) cs of Inl e \<Rightarrow> Inl e | Inr ps \<Rightarrow> Inr (p # ps)))"

definition lowerMatch :: "sval \<Rightarrow> match_error + predicate list" where
  "lowerMatch v =
     (case v of
        SDict d \<Rightarrow>
          if length d \<noteq> 1 then Inl MatchNeedsAll
          else (case map_of d (SString ''all'') of
                  None \<Rightarrow> Inl MatchNeedsAll
                | Some (SList clauses) \<Rightarrow> lower_clauses 0 clauses
                | Some _ \<Rightarrow> Inl AllNotList)
      | _ \<Rightarrow> Inl (MatchNotDict v))"

section \<open>What lowering guarantees\<close>

definition scalar_val :: "goval \<Rightarrow> bool" where
  "scalar_val v \<longleftrightarrow> scalarType v \<noteq> ''unknown''"

text \<open>
  A well-formed predicate: a non-empty path, a supported operator, and a constant of the
  shape the operator reads.
\<close>

definition wf_value :: "string \<Rightarrow> goval \<Rightarrow> bool" where
  "wf_value op v =
     (if op = ''exists'' then v = ANil
      else if op = ''in'' then
        (case v of
           AList items \<Rightarrow> items \<noteq> [] \<and> list_all scalar_val items \<and>
             list_all (\<lambda>x. scalarType x = scalarType (hd items)) items
         | _ \<Rightarrow> False)
      else if op = ''prefix'' then scalarType v = ''string''
      else if op = ''<'' \<or> op = ''<='' \<or> op = ''>'' \<or> op = ''>='' then scalarType v = ''number''
      else scalar_val v)"

definition wf_pred :: "predicate \<Rightarrow> bool" where
  "wf_pred p \<longleftrightarrow> p_Path p \<noteq> [] \<and> p_Op p \<in> set matchOps \<and> wf_value (p_Op p) (p_Value p)"

lemma lowerScalar_scalar: "lowerScalar v = Inr x \<Longrightarrow> scalar_val x"
  by (auto simp: lowerScalar_def scalar_val_def scalarType_def split: sval.splits if_splits)

lemma lower_items_scalar:
  "lower_items i ft vs = Inr xs \<Longrightarrow> list_all scalar_val xs \<and> length xs = length vs"
  by (induction i ft vs arbitrary: xs rule: lower_items.induct)
     (auto simp: Let_def lowerScalar_scalar split: sum.splits option.splits if_splits)

lemma lower_items_type:
  "lower_items i (Some t) vs = Inr xs \<Longrightarrow> list_all (\<lambda>x. scalarType x = t) xs"
  by (induction i "Some t" vs arbitrary: xs rule: lower_items.induct)
     (auto simp: Let_def split: sum.splits if_splits)

lemma lower_items_homogeneous:
  assumes "lower_items i None vs = Inr xs" and "vs \<noteq> []"
  shows "xs \<noteq> [] \<and> list_all (\<lambda>x. scalarType x = scalarType (hd xs)) xs"
  using assms by (cases vs) (auto simp: Let_def dest: lower_items_type split: sum.splits)

lemma lower_value_wf: "lower_value i op clause = Inr v \<Longrightarrow> wf_value op v"
  unfolding lower_value_def wf_value_def
  by (auto split: if_splits sval.splits sum.splits
      dest: lower_items_scalar lower_items_homogeneous lowerScalar_scalar)

lemma lower_clause_wf: "lower_clause i c = Inr p \<Longrightarrow> wf_pred p"
  unfolding lower_clause_def wf_pred_def
  by (auto split: sval.splits if_splits option.splits sum.splits dest: lower_value_wf)

lemma lower_clauses_wf:
  "lower_clauses i cs = Inr ps \<Longrightarrow> list_all wf_pred ps \<and> length ps = length cs"
  by (induction cs arbitrary: i ps) (auto split: sum.splits dest: lower_clause_wf)

lemma lowerMatch_wf: "lowerMatch v = Inr ps \<Longrightarrow> list_all wf_pred ps"
  by (auto simp: lowerMatch_def lower_clauses_wf
      split: sval.splits if_splits option.splits)

section \<open>What evaluation decides\<close>

lemma eval_wf:
  "wf_pred p \<Longrightarrow> \<exists>b. eval ev p = Inr b"
  by (auto simp: eval_def resolvePath_def wf_pred_def split: list.splits option.splits)

lemma PrefilterMatch_wf:
  "list_all wf_pred ps \<Longrightarrow>
     PrefilterMatch ps ev = Inr (list_all (\<lambda>p. eval ev p = Inr True) ps)"
proof (induction ps)
  case (Cons p ps)
  from Cons.prems obtain b where "eval ev p = Inr b" using eval_wf [of p ev] by auto
  with Cons show ?case by (cases b) auto
qed simp

lemma eval_wf_all:
  "list_all wf_pred ps \<Longrightarrow> list_all (\<lambda>p. eval ev p = Inr True \<or> eval ev p = Inr False) ps"
proof (induction ps)
  case (Cons p ps)
  from Cons.prems obtain b where "eval ev p = Inr b" using eval_wf [of p ev] by auto
  with Cons show ?case by (cases b) simp_all
qed simp

lemma eval_missing:
  "resolvePath ev (p_Path p) = Inr None \<Longrightarrow> eval ev p = Inr False"
  by (simp add: eval_def)

text \<open>The classes of values that compare, and the laws of the comparison operators.\<close>

lemma scalarEqual_comparable: "scalarEqual f v \<Longrightarrow> scalarComparable f v"
  by (auto simp: scalarEqual_def scalarComparable_def split: option.splits goval.splits prod.splits)

lemma eval_op_eq_ne:
  "eval_op ''=='' f v \<longleftrightarrow> scalarComparable f v \<and> \<not> eval_op ''!='' f v"
  by (auto simp: eval_op_def scalarEqual_comparable)

lemma eval_op_not_eq:
  "eval_op ''!='' f v \<longleftrightarrow> scalarComparable f v \<and> \<not> eval_op ''=='' f v"
  by (auto simp: eval_op_def)

lemma eval_op_order:
  assumes "comparable2 f v = Some (x, y)" and "x \<noteq> NaN" and "y \<noteq> NaN"
  shows "eval_op ''>='' f v \<longleftrightarrow> \<not> eval_op ''<'' f v"
    and "eval_op ''>'' f v \<longleftrightarrow> \<not> eval_op ''<='' f v"
  using assms f_not_lt_iff [of x y] f_not_lt_iff [of y x]
  by (auto simp: eval_op_def)

lemma eval_op_mistyped:
  assumes "op \<in> {''=='', ''!='', ''<'', ''<='', ''>'', ''>=''}" and "\<not> scalarComparable f v"
  shows "\<not> eval_op op f v"
  using assms
  by (auto simp: eval_op_def scalarComparable_def scalarEqual_def comparable2_def
      split: option.splits goval.splits)

text \<open>\<^verbatim>\<open>in\<close> is the disjunction of the equalities with the list's items.\<close>

lemma eval_op_in: "eval_op ''in'' f (AList vs) \<longleftrightarrow> (\<exists>v \<in> set vs. eval_op ''=='' f v)"
  by (auto simp: eval_op_def list_ex_iff)

lemma eval_op_prefix:
  "eval_op ''prefix'' f (AString w) \<longleftrightarrow> (\<exists>r. f = AString (w @ r))"
  by (auto simp: eval_op_def has_prefix_iff split: goval.splits)

section \<open>Properties\<close>


definition sample_event :: event where
  "sample_event = \<lparr>ev_EventID = ''1'', ev_EventType = ''post'', ev_EntityID = ''u'', ev_Timestamp = 0,
     ev_Payload = [(''n'', AFloat (Fin 3)), (''s'', AString ''hello'')], ev_RawJSON = [], ev_ReceivedAt = 0\<rparr>"

definition sample_match :: sval where
  "sample_match = SDict [(SString ''all'',
     SList [SList [SString ''payload.n'', SString ''>='', SInt 2],
            SList [SString ''payload.s'', SString ''prefix'', SString ''he'']])]"


text \<open>
  The operators on a present field: inequality is the complement of equality on
  comparable values, \<^verbatim>\<open>in\<close> is equality with some item, \<^verbatim>\<open>prefix\<close> is the string prefix, a
  missing field satisfies no operator, the order operators are dual to each other on numbers
  other than NaN, and no comparison holds between values of different kinds.
\<close>

lemma operator_semantics:
  assumes "comparable2 f v = Some (x, y)" and "x \<noteq> NaN" and "y \<noteq> NaN"
    and "\<not> scalarComparable g v"
  shows "(eval_op ''>='' f v \<longleftrightarrow> \<not> eval_op ''<'' f v) \<and> (eval_op ''>'' f v \<longleftrightarrow> \<not> eval_op ''<='' f v) \<and>
    list_all (\<lambda>op. \<not> eval_op op g v) [''=='', ''!='', ''<'', ''<='', ''>'', ''>=''] \<and>
    (eval_op ''!='' f' v' \<longleftrightarrow> scalarComparable f' v' \<and> \<not> eval_op ''=='' f' v') \<and>
    (eval_op ''in'' f' (AList vs) \<longleftrightarrow> list_ex (eval_op ''=='' f') vs) \<and>
    (eval_op ''prefix'' f' (AString w) \<longleftrightarrow> (\<exists>r. f' = AString (w @ r))) \<and>
    \<not> (resolvePath ev (p_Path p) = Inr None \<and> eval ev p \<noteq> Inr False)"
proof -
  have "list_ex (eval_op ''=='' f') vs \<longleftrightarrow> eval_op ''in'' f' (AList vs)"
    by (simp add: eval_op_in list_ex_iff)
  moreover have "list_all (\<lambda>op. \<not> eval_op op g v) [''=='', ''!='', ''<'', ''<='', ''>'', ''>='']"
    using eval_op_mistyped [OF _ assms(4)] by simp
  ultimately show ?thesis
    using eval_op_order [OF assms(1-3)] eval_op_not_eq [of f' v'] eval_missing [of ev p]
      eval_op_prefix [of f' w] by blast
qed

lemma operator_semantics_witness:
  "eval_op ''>='' (AInt 3) (AFloat (Fin 2)) \<and> \<not> eval_op ''!='' (AString ''3'') (AFloat (Fin 2)) \<and>
   eval_op ''in'' (AString ''a'') (AList [AInt 1, AString ''a''])"
  using operator_semantics [of "AInt 3" "AFloat (Fin 2)" "Fin 3" "Fin 2" "AString ''3''"
      "AString ''a''" ANil "[AInt 1, AString ''a'']"]
  by (simp add: comparable2_def scalarComparable_def float_of_int_exact)
     (simp add: eval_op_def scalarEqual_def comparable2_def float_of_int_exact)

end
