(* ===== verification/Compiler.thy ===== *)
theory Compiler
  imports Match
begin

text \<open>
  \<^verbatim>\<open>rules/compiler.go\<close>: compiled rules, the immutable snapshot with its per-event-type
  index, and the compiler with its content-addressed cache. The Starlark front end
  (parse, compile, run the module once) is the parameter \<open>init\<close>; \<^verbatim>\<open>sha256\<close>, the
  sort of \<^verbatim>\<open>sort.Slice\<close>, the directory and the UUID source are parameters too. The
  lemmas show that the index returns exactly the rules a linear scan would, still in
  priority order, and that compiling a directory is all or nothing.
\<close>

section \<open>Rules and snapshots\<close>

text \<open>
  \<open>rule_Prefiltered\<close> and \<open>rule_Stats\<close> are addresses: all copies of a rule share the
  counters behind them. \<open>rule_Program\<close> and \<open>rule_Evaluate\<close> are handles of the interpreter.
\<close>

record rule =
  rule_RuleID :: string
  rule_EventType :: string
  rule_Priority :: int
  rule_Program :: nat
  rule_Evaluate :: nat
  rule_Match :: "predicate list"
  rule_Prefiltered :: nat
  rule_Stats :: nat

record snapshot =
  snap_ID :: string
  snap_Rules :: "rule list"
  snap_LoadedAt :: gotime
  snap_byType :: "(string \<times> rule list) list option"
  snap_wildcard :: "rule list"

definition RulesForEvent :: "snapshot \<Rightarrow> string \<Rightarrow> rule list" where
  "RulesForEvent s eventType =
     (case snap_byType s of
        Some byType \<Rightarrow>
          (case map_of byType eventType of
             Some matched \<Rightarrow> matched
           | None \<Rightarrow> snap_wildcard s)
      | None \<Rightarrow>
          filter (\<lambda>r. rule_EventType r = ''*'' \<or> rule_EventType r = eventType) (snap_Rules s))"

fun mergeByPriority :: "rule list \<Rightarrow> rule list \<Rightarrow> rule list" where
  "mergeByPriority (a # as) (b # bs) =
     (if rule_Priority a \<ge> rule_Priority b
      then a # mergeByPriority as (b # bs)
      else b # mergeByPriority (a # as) bs)"
| "mergeByPriority as [] = as"
| "mergeByPriority [] bs = bs"

text \<open>The distribution loop of \<open>buildIndex\<close>; appending to a missing map entry creates it.\<close>

fun index_loop :: "rule list \<Rightarrow> (string \<times> rule list) list \<Rightarrow> rule list
    \<Rightarrow> (string \<times> rule list) list \<times> rule list" where
  "index_loop [] byType wildcard = (byType, wildcard)"
| "index_loop (r # rs) byType wildcard =
     (if rule_EventType r = ''*''
      then index_loop rs byType (wildcard @ [r])
      else index_loop rs
             (alist_upd byType (rule_EventType r)
                ((case map_of byType (rule_EventType r) of None \<Rightarrow> [] | Some l \<Rightarrow> l) @ [r]))
             wildcard)"

definition buildIndex :: "snapshot \<Rightarrow> snapshot" where
  "buildIndex s =
     (case index_loop (snap_Rules s) [] [] of
        (byType, wildcard) \<Rightarrow>
          if wildcard = [] then s\<lparr>snap_byType := Some byType, snap_wildcard := wildcard\<rparr>
          else s\<lparr>snap_byType := Some (map (\<lambda>(t, l). (t, mergeByPriority l wildcard)) byType),
                 snap_wildcard := wildcard\<rparr>)"

section \<open>The compiler\<close>

datatype compile_error =
    FrontEndError string
  | MissingGlobal string
  | GlobalNotString string sval
  | GlobalNotInt string sval
  | GlobalOverflows string
  | EvaluateNotCallable sval
  | MatchError match_error
  | DirError string
  | GlobError string
  | ReadError string string
  | DuplicateRuleID string string string
  | UuidError string

type_synonym globals = "(string \<times> sval) list"

text \<open>
  The interpreter front end: for a file name and a source, an error, or the program handle
  and the frozen globals of the module.
\<close>

type_synonym front_end = "string \<Rightarrow> bytes \<Rightarrow> string + nat \<times> globals"

definition stringGlobal :: "globals \<Rightarrow> string \<Rightarrow> compile_error + string" where
  "stringGlobal globals name =
     (case map_of globals name of
        None \<Rightarrow> Inl (MissingGlobal name)
      | Some (SString s) \<Rightarrow> Inr s
      | Some v \<Rightarrow> Inl (GlobalNotString name v))"

definition intGlobal :: "globals \<Rightarrow> string \<Rightarrow> compile_error + int" where
  "intGlobal globals name =
     (case map_of globals name of
        None \<Rightarrow> Inl (MissingGlobal name)
      | Some (SInt i) \<Rightarrow> if in_int64 i then Inr i else Inl (GlobalOverflows name)
      | Some v \<Rightarrow> Inl (GlobalNotInt name v))"

text \<open>\<open>ptr\<close> is the address the new rule's counters are allocated at.\<close>

definition CompileSource ::
  "front_end \<Rightarrow> string \<Rightarrow> bytes \<Rightarrow> nat \<Rightarrow> compile_error + rule" where
  "CompileSource init filename source ptr =
     (case init filename source of
        Inl e \<Rightarrow> Inl (FrontEndError e)
      | Inr (prog, globals) \<Rightarrow>
     (case stringGlobal globals ''rule_id'' of
        Inl e \<Rightarrow> Inl e
      | Inr ruleID \<Rightarrow>
     (case stringGlobal globals ''event_type'' of
        Inl e \<Rightarrow> Inl e
      | Inr eventType \<Rightarrow>
     (case intGlobal globals ''priority'' of
        Inl e \<Rightarrow> Inl e
      | Inr priority \<Rightarrow>
     (case map_of globals ''evaluate'' of
        None \<Rightarrow> Inl (MissingGlobal ''evaluate'')
      | Some (SCallable evalFn) \<Rightarrow>
          (case (case map_of globals ''match'' of
                   None \<Rightarrow> Inr []
                 | Some matchVal \<Rightarrow> lowerMatch matchVal) of
             Inl e \<Rightarrow> Inl (MatchError e)
           | Inr match \<Rightarrow>
               Inr \<lparr>rule_RuleID = ruleID, rule_EventType = eventType, rule_Priority = priority,
                    rule_Program = prog, rule_Evaluate = evalFn, rule_Match = match,
                    rule_Prefiltered = ptr, rule_Stats = ptr\<rparr>)
      | Some v \<Rightarrow> Inl (EvaluateNotCallable v))))))"

record compiler =
  c_cache :: "(bytes \<times> rule) list"
  c_next :: nat

definition cachedCompile ::
  "front_end \<Rightarrow> (bytes \<Rightarrow> bytes) \<Rightarrow> string \<Rightarrow> bytes \<Rightarrow> compiler
     \<Rightarrow> (compile_error + rule \<times> bytes) \<times> compiler" where
  "cachedCompile init sha filename src c =
     (let key = sha src in
      case map_of (c_cache c) key of
        Some r \<Rightarrow> (Inr (r, key), c)
      | None \<Rightarrow>
          (case CompileSource init filename src (c_next c) of
             Inl e \<Rightarrow> (Inl e, c)
           | Inr r \<Rightarrow> (Inr (r, key), c\<lparr>c_cache := alist_upd (c_cache c) key r,
                                       c_next := Suc (c_next c)\<rparr>)))"

definition prune :: "bytes list \<Rightarrow> compiler \<Rightarrow> compiler" where
  "prune used c = c\<lparr>c_cache := filter (\<lambda>kr. fst kr \<in> set used) (c_cache c)\<rparr>"

text \<open>
  A directory as the compiler sees it: whether \<^verbatim>\<open>os.Stat\<close> and \<^verbatim>\<open>filepath.Glob\<close> succeed, and for
  each \<^verbatim>\<open>*.star\<close> file, in glob order, its base name and what reading it yields.
\<close>

record dir =
  d_stat :: "string option"
  d_glob :: "string option"
  d_files :: "(string \<times> (string + bytes)) list"

text \<open>
  Compiling every file: each gets a result, whatever happens to the others. The goroutines
  share only the cache, whose entries are determined by their keys up to the counter
  addresses, so their order is taken to be the glob order.
\<close>

fun compile_files ::
  "front_end \<Rightarrow> (bytes \<Rightarrow> bytes) \<Rightarrow> (string \<times> (string + bytes)) list \<Rightarrow> compiler
     \<Rightarrow> (compile_error + rule \<times> bytes) list \<times> compiler" where
  "compile_files init sha [] c = ([], c)"
| "compile_files init sha ((name, Inl e) # fs) c =
     (let (rs, c') = compile_files init sha fs c in (Inl (ReadError name e) # rs, c'))"
| "compile_files init sha ((name, Inr src) # fs) c =
     (let (r, c1) = cachedCompile init sha name src c;
          (rs, c2) = compile_files init sha fs c1
      in (r # rs, c2))"

text \<open>The first error in glob order, or all compiled rules with their keys.\<close>

fun first_error :: "('e + 'a) list \<Rightarrow> 'e + 'a list" where
  "first_error [] = Inr []"
| "first_error (Inl e # rs) = Inl e"
| "first_error (Inr a # rs) = (case first_error rs of Inl e \<Rightarrow> Inl e | Inr as \<Rightarrow> Inr (a # as))"

text \<open>The duplicate check: \<open>seen\<close> maps each rule id to the file that declared it.\<close>

fun check_dups :: "(rule \<times> string) list \<Rightarrow> (string \<times> string) list \<Rightarrow> compile_error option" where
  "check_dups [] seen = None"
| "check_dups ((r, file) # rs) seen =
     (case map_of seen (rule_RuleID r) of
        Some prev \<Rightarrow> Some (DuplicateRuleID (rule_RuleID r) prev file)
      | None \<Rightarrow> check_dups rs (alist_upd seen (rule_RuleID r) file))"

definition CompileDir ::
  "front_end \<Rightarrow> (bytes \<Rightarrow> bytes) \<Rightarrow> (rule list \<Rightarrow> rule list) \<Rightarrow> string + string \<Rightarrow> gotime
     \<Rightarrow> dir \<Rightarrow> compiler \<Rightarrow> (compile_error + snapshot) \<times> compiler" where
  "CompileDir init sha sort_rules uuid now d c =
     (case d_stat d of
        Some e \<Rightarrow> (Inl (DirError e), c)
      | None \<Rightarrow>
     (case d_glob d of
        Some e \<Rightarrow> (Inl (GlobError e), c)
      | None \<Rightarrow>
     (let (results, c1) = compile_files init sha (d_files d) c in
      case first_error results of
        Inl e \<Rightarrow> (Inl e, c1)
      | Inr compiled \<Rightarrow>
     (case check_dups (zip (map fst compiled) (map fst (d_files d))) [] of
        Some e \<Rightarrow> (Inl e, c1)
      | None \<Rightarrow>
     (let c2 = prune (map snd compiled) c1 in
      case uuid of
        Inl e \<Rightarrow> (Inl (UuidError e), c2)
      | Inr sid \<Rightarrow>
          (Inr (buildIndex \<lparr>snap_ID = sid, snap_Rules = sort_rules (map fst compiled),
                            snap_LoadedAt = now, snap_byType = None, snap_wildcard = []\<rparr>),
           c2))))))"

section \<open>The index\<close>

abbreviation prio_ge :: "rule \<Rightarrow> rule \<Rightarrow> bool" where
  "prio_ge a b \<equiv> rule_Priority a \<ge> rule_Priority b"

abbreviation by_priority :: "rule list \<Rightarrow> bool" where
  "by_priority \<equiv> sorted_wrt prio_ge"

text \<open>The specification of the index: a scan for the rules of the type and the wildcards.\<close>

definition rules_matching :: "rule list \<Rightarrow> string \<Rightarrow> rule list" where
  "rules_matching rs t = filter (\<lambda>r. rule_EventType r = ''*'' \<or> rule_EventType r = t) rs"

abbreviation of_type :: "string \<Rightarrow> rule list \<Rightarrow> rule list" where
  "of_type t rs \<equiv> filter (\<lambda>r. rule_EventType r = t) rs"

lemma mset_mergeByPriority [simp]: "mset (mergeByPriority as bs) = mset as + mset bs"
  by (induction as bs rule: mergeByPriority.induct) auto

lemma set_mergeByPriority [simp]: "set (mergeByPriority as bs) = set as \<union> set bs"
  by (metis mset_mergeByPriority set_mset_mset set_mset_union)

lemma length_mergeByPriority: "length (mergeByPriority as bs) = length as + length bs"
  by (metis mset_mergeByPriority size_mset size_union)

lemma mergeByPriority_sorted:
  "by_priority as \<Longrightarrow> by_priority bs \<Longrightarrow> by_priority (mergeByPriority as bs)"
proof (induction as bs rule: mergeByPriority.induct)
  case (1 a as b bs)
  show ?case
  proof (cases "rule_Priority a \<ge> rule_Priority b")
    case True
    with 1 show ?thesis by (auto intro: order_trans)
  next
    case False
    with 1 show ?thesis by (auto intro: order_trans)
  qed
qed simp_all

lemma mergeByPriority_Nil [simp]: "mergeByPriority [] bs = bs"
  by (cases bs) simp_all

text \<open>Each argument keeps its own order in the merge.\<close>

lemma mergeByPriority_filter:
  assumes "\<forall>a \<in> set as. P a" and "\<forall>b \<in> set bs. \<not> P b"
  shows "filter P (mergeByPriority as bs) = as"
    and "filter (\<lambda>r. \<not> P r) (mergeByPriority as bs) = bs"
  using assms
  by (induction as bs rule: mergeByPriority.induct) (auto simp: filter_id_conv filter_empty_conv)

lemma index_loop_spec:
  "index_loop rs bt wc = (byType, wildcard) \<Longrightarrow>
     wildcard = wc @ of_type ''*'' rs \<and>
     map_of byType t =
       (if t = ''*'' \<or> of_type t rs = [] then map_of bt t
        else Some ((case map_of bt t of None \<Rightarrow> [] | Some l \<Rightarrow> l) @ of_type t rs))"
proof (induction rs bt wc rule: index_loop.induct)
  case (2 r rs bt wc)
  show ?case
  proof (cases "rule_EventType r = ''*''")
    case True
    with 2 show ?thesis by auto
  next
    case False
    with 2 show ?thesis by (auto split: option.splits)
  qed
qed simp

lemma RulesForEvent_buildIndex:
  "RulesForEvent (buildIndex s) t =
     (if t = ''*'' \<or> of_type t (snap_Rules s) = [] then of_type ''*'' (snap_Rules s)
      else mergeByPriority (of_type t (snap_Rules s)) (of_type ''*'' (snap_Rules s)))"
proof -
  obtain bt wc where l: "index_loop (snap_Rules s) [] [] = (bt, wc)" by fastforce
  note spec = index_loop_spec [OF l, of t]
  have m: "map_of (map (\<lambda>(t, l). (t, mergeByPriority l wc)) bt) t
      = map_option (\<lambda>l. mergeByPriority l wc) (map_of bt t)"
    by (induction bt) auto
  from spec m show ?thesis
    by (auto simp: RulesForEvent_def buildIndex_def l)
qed

lemma mset_of_type_matching:
  "t \<noteq> ''*'' \<Longrightarrow> mset (of_type t rs) + mset (of_type ''*'' rs) = mset (rules_matching rs t)"
  by (induction rs) (auto simp: rules_matching_def)

lemma matching_no_type:
  "t = ''*'' \<or> of_type t rs = [] \<Longrightarrow> rules_matching rs t = of_type ''*'' rs"
  unfolding rules_matching_def by (rule filter_cong) (auto simp: filter_empty_conv)

lemma by_priority_filter: "by_priority rs \<Longrightarrow> by_priority (filter P rs)"
  by (rule sorted_wrt_filter)

lemma RulesForEvent_mset:
  "mset (RulesForEvent (buildIndex s) t) = mset (rules_matching (snap_Rules s) t)"
  by (auto simp: RulesForEvent_buildIndex matching_no_type mset_of_type_matching
      simp del: mset_filter)

lemma RulesForEvent_sorted:
  "by_priority (snap_Rules s) \<Longrightarrow> by_priority (RulesForEvent (buildIndex s) t)"
  by (simp add: RulesForEvent_buildIndex by_priority_filter mergeByPriority_sorted)

lemma RulesForEvent_fallback:
  "snap_byType s = None \<Longrightarrow> RulesForEvent s t = rules_matching (snap_Rules s) t"
  by (simp add: RulesForEvent_def rules_matching_def)

lemma buildIndex_Rules [simp]:
  "snap_Rules (buildIndex s) = snap_Rules s" "snap_ID (buildIndex s) = snap_ID s"
  "snap_LoadedAt (buildIndex s) = snap_LoadedAt s"
  by (auto simp: buildIndex_def split: prod.splits)

section \<open>Compiling a directory\<close>

text \<open>The contract of \<^verbatim>\<open>sort.Slice\<close> with the priority comparison: no more than a sorted permutation.\<close>

locale priority_sort =
  fixes sort_rules :: "rule list \<Rightarrow> rule list"
  assumes sort_mset: "mset (sort_rules rs) = mset rs"
    and sort_sorted: "by_priority (sort_rules rs)"

lemma CompileSource_wf:
  "CompileSource init f src ptr = Inr r \<Longrightarrow> list_all wf_pred (rule_Match r)"
  by (auto simp: CompileSource_def lowerMatch_wf
      split: sum.splits prod.splits option.splits sval.splits)

lemma CompileSource_ptr:
  "CompileSource init f src ptr = Inr r \<Longrightarrow> rule_Prefiltered r = ptr \<and> rule_Stats r = ptr"
  by (auto simp: CompileSource_def split: sum.splits prod.splits option.splits sval.splits)

lemma CompileSource_any_ptr:
  "CompileSource init f src ptr = Inr r \<Longrightarrow>
     CompileSource init f src ptr' = Inr (r\<lparr>rule_Prefiltered := ptr', rule_Stats := ptr'\<rparr>)"
  by (auto simp: CompileSource_def split: sum.splits prod.splits option.splits sval.splits)

text \<open>
  Cache soundness: each entry is what compiling some source with that hash produced, with
  its counters at an address already handed out, and distinct entries have distinct counters.
\<close>

definition cache_ok :: "front_end \<Rightarrow> (bytes \<Rightarrow> bytes) \<Rightarrow> compiler \<Rightarrow> bool" where
  "cache_ok init sha c \<longleftrightarrow>
     distinct (map fst (c_cache c)) \<and>
     (\<forall>(k, r) \<in> set (c_cache c).
        rule_Stats r < c_next c \<and>
        (\<exists>f src. sha src = k \<and> CompileSource init f src (rule_Stats r) = Inr r))"

lemma cache_ok_empty: "cache_ok init sha \<lparr>c_cache = [], c_next = n\<rparr>"
  by (simp add: cache_ok_def)

lemma cachedCompile_ok [inv_intros]:
  assumes "cache_ok init sha c" and "cachedCompile init sha f src c = (res, c')"
  shows "cache_ok init sha c'"
proof (cases "\<exists>r. map_of (c_cache c) (sha src) = None \<and>
    CompileSource init f src (c_next c) = Inr r")
  case True
  then obtain r where r: "map_of (c_cache c) (sha src) = None"
    "CompileSource init f src (c_next c) = Inr r" by blast
  then have c': "c' = c\<lparr>c_cache := alist_upd (c_cache c) (sha src) r, c_next := Suc (c_next c)\<rparr>"
    using assms(2) by (simp add: cachedCompile_def Let_def)
  from CompileSource_ptr [OF r(2)] have ptr: "rule_Stats r = c_next c" by simp
  have ex: "\<exists>f' src'. sha src' = sha src \<and> CompileSource init f' src' (rule_Stats r) = Inr r"
    using r(2) ptr by auto
  show ?thesis
    unfolding cache_ok_def
  proof (intro conjI ballI)
    show "distinct (map fst (c_cache c'))"
      using assms(1) by (simp add: c' cache_ok_def)
    fix kr assume "kr \<in> set (c_cache c')"
    then have "kr = (sha src, r) \<or> kr \<in> set (c_cache c)"
      using set_alist_upd [of "c_cache c" "sha src" r] by (auto simp: c')
    then show "case kr of (k, r) \<Rightarrow> rule_Stats r < c_next c' \<and>
        (\<exists>f src. sha src = k \<and> CompileSource init f src (rule_Stats r) = Inr r)"
      using ex ptr assms(1) by (fastforce simp: c' cache_ok_def)
  qed
next
  case False
  then have "c' = c" using assms(2)
    by (auto simp: cachedCompile_def Let_def split: option.splits sum.splits)
  with assms(1) show ?thesis by simp
qed

lemma compile_files_ok [inv_intros]:
  "cache_ok init sha c \<Longrightarrow> cache_ok init sha (snd (compile_files init sha fs c))"
proof (induction init sha fs c rule: compile_files.induct)
  case (3 init sha name src fs c)
  obtain r c1 where r: "cachedCompile init sha name src c = (r, c1)" by fastforce
  with "3.prems" have "cache_ok init sha c1" by (rule cachedCompile_ok)
  with "3.IH" [OF r [symmetric]] r show ?case by (simp add: case_prod_beta)
qed (simp_all add: case_prod_beta)

lemma prune_ok [inv_intros]: "cache_ok init sha c \<Longrightarrow> cache_ok init sha (prune used c)"
  by (auto simp: cache_ok_def prune_def distinct_map_filter)

lemma CompileDir_ok [inv_intros]:
  assumes ok: "cache_ok init sha c" and run: "CompileDir init sha so uuid now d c = (res, c')"
  shows "cache_ok init sha c'"
proof -
  obtain rs c1 where f: "compile_files init sha (d_files d) c = (rs, c1)" by fastforce
  from compile_files_ok [OF ok] f have c1: "cache_ok init sha c1" by (metis snd_conv)
  have "c' = c \<or> c' = c1 \<or> (\<exists>used. c' = prune used c1)"
    using run by (auto simp: CompileDir_def Let_def f split: option.splits sum.splits)
  with ok c1 show ?thesis by (auto intro: prune_ok)
qed

subsection \<open>All or nothing\<close>

lemma first_error_map [simp]: "first_error (map Inr as) = Inr as"
  by (induction as) auto

lemma first_error_Inr: "first_error rs = Inr as \<longleftrightarrow> rs = map Inr as"
proof
  show "first_error rs = Inr as \<Longrightarrow> rs = map Inr as"
    by (induction rs arbitrary: as rule: first_error.induct) (auto split: sum.splits)
qed simp

lemma compile_files_Inr [simp]:
  "compile_files init sha ((name, Inr src) # fs) c =
     (fst (cachedCompile init sha name src c)
        # fst (compile_files init sha fs (snd (cachedCompile init sha name src c))),
      snd (compile_files init sha fs (snd (cachedCompile init sha name src c))))"
  "compile_files init sha ((name, Inl e) # fs) c =
     (Inl (ReadError name e) # fst (compile_files init sha fs c), snd (compile_files init sha fs c))"
  by (simp_all add: case_prod_beta Let_def)

declare compile_files.simps(2,3) [simp del]

text \<open>Induction over the files, with the compiler state each step starts from.\<close>

lemma files_induct [case_names Nil unreadable readable]:
  assumes "\<And>c. P [] c"
    and "\<And>name e fs c. P fs c \<Longrightarrow> P ((name, Inl e) # fs) c"
    and "\<And>name src fs c. P fs (snd (cachedCompile init sha name src c)) \<Longrightarrow> P ((name, Inr src) # fs) c"
  shows "P fs c"
proof (induction fs arbitrary: c)
  case (Cons f fs)
  then show ?case using assms(2,3) by (cases f; cases "snd f") auto
qed (rule assms(1))

lemma length_compile_files [simp]:
  "length (fst (compile_files init sha fs c)) = length fs"
  by (induction fs c rule: files_induct [of _ init sha]) simp_all

lemma check_dups_None:
  "check_dups rs seen = None \<Longrightarrow>
     distinct (map (rule_RuleID \<circ> fst) rs) \<and>
     (\<forall>r \<in> set rs. map_of seen (rule_RuleID (fst r)) = None)"
  by (induction rs seen rule: check_dups.induct) (force split: option.splits if_splits)+

lemma cachedCompile_wf:
  assumes "cache_ok init sha c" and "cachedCompile init sha f src c = (Inr (r, k), c')"
  shows "k = sha src \<and> list_all wf_pred (rule_Match r)"
proof (cases "map_of (c_cache c) (sha src)")
  case None
  with assms(2) show ?thesis
    by (auto simp: cachedCompile_def Let_def split: sum.splits dest: CompileSource_wf)
next
  case (Some r')
  with assms(2) have r: "r' = r" "k = sha src" by (auto simp: cachedCompile_def Let_def)
  from Some r have "(sha src, r) \<in> set (c_cache c)" by (auto dest: map_of_SomeD)
  with assms(1) obtain f' src' where "CompileSource init f' src' (rule_Stats r) = Inr r"
    by (fastforce simp: cache_ok_def)
  with r(2) show ?thesis by (simp add: CompileSource_wf)
qed

lemma compile_files_wf:
  "cache_ok init sha c \<Longrightarrow> Inr (r, k) \<in> set (fst (compile_files init sha fs c)) \<Longrightarrow>
     list_all wf_pred (rule_Match r)"
proof (induction fs c rule: files_induct [of _ init sha])
  case (readable name src fs c)
  obtain x c1 where x: "cachedCompile init sha name src c = (x, c1)" by fastforce
  with readable.prems have "cache_ok init sha c1" by (auto intro: cachedCompile_ok)
  with readable x show ?case by (auto dest: cachedCompile_wf)
qed auto

text \<open>What a successful compilation of a directory went through.\<close>

lemma CompileDir_Inr:
  assumes "CompileDir init sha so uuid now d c = (Inr s, c')"
  obtains compiled c1 sid where
    "d_stat d = None" "d_glob d = None" "uuid = Inr sid"
    "compile_files init sha (d_files d) c = (map Inr compiled, c1)"
    "check_dups (zip (map fst compiled) (map fst (d_files d))) [] = None"
    "c' = prune (map snd compiled) c1"
    "s = buildIndex \<lparr>snap_ID = sid, snap_Rules = so (map fst compiled),
           snap_LoadedAt = now, snap_byType = None, snap_wildcard = []\<rparr>"
proof -
  obtain rs c1 where "compile_files init sha (d_files d) c = (rs, c1)" by fastforce
  with assms that show ?thesis
    by (auto simp: CompileDir_def Let_def first_error_Inr split: option.splits sum.splits)
qed

context priority_sort
begin

lemma CompileDir_snapshot:
  assumes ok: "cache_ok init sha c"
    and run: "CompileDir init sha sort_rules uuid now d c = (Inr s, c')"
  shows "length (snap_Rules s) = length (d_files d)"
    and "distinct (map rule_RuleID (snap_Rules s))"
    and "by_priority (snap_Rules s)"
    and "\<forall>r \<in> set (snap_Rules s). list_all wf_pred (rule_Match r)"
    and "mset (RulesForEvent s t) = mset (rules_matching (snap_Rules s) t)"
    and "by_priority (RulesForEvent s t)"
proof -
  from run obtain compiled c1 sid where
    files: "compile_files init sha (d_files d) c = (map Inr compiled, c1)"
    and dups: "check_dups (zip (map fst compiled) (map fst (d_files d))) [] = None"
    and s: "s = buildIndex \<lparr>snap_ID = sid, snap_Rules = sort_rules (map fst compiled),
           snap_LoadedAt = now, snap_byType = None, snap_wildcard = []\<rparr>"
    by (rule CompileDir_Inr)
  have len: "length compiled = length (d_files d)"
    using length_compile_files [of init sha "d_files d" c] files by simp
  have rules: "snap_Rules s = sort_rules (map fst compiled)" by (simp add: s)
  have perm: "mset (snap_Rules s) = mset (map fst compiled)" by (simp add: rules sort_mset)
  then show "length (snap_Rules s) = length (d_files d)"
    using len by (metis length_map size_mset)
  have "map (rule_RuleID \<circ> fst) (zip (map fst compiled) (map fst (d_files d)))
      = map rule_RuleID (map fst (zip (map fst compiled) (map fst (d_files d))))" by simp
  then have "distinct (map rule_RuleID (map fst compiled))"
    using check_dups_None [OF dups] len by simp
  then show "distinct (map rule_RuleID (snap_Rules s))"
    using perm by (metis mset_map mset_eq_imp_distinct_iff)
  show sorted: "by_priority (snap_Rules s)" by (simp add: rules sort_sorted)
  show "\<forall>r \<in> set (snap_Rules s). list_all wf_pred (rule_Match r)"
  proof
    fix r assume "r \<in> set (snap_Rules s)"
    then have "r \<in> set (map fst compiled)" using perm by (metis set_mset_mset)
    then obtain k where "Inr (r, k) \<in> set (fst (compile_files init sha (d_files d) c))"
      using files by (auto simp: image_iff)
    then show "list_all wf_pred (rule_Match r)" by (rule compile_files_wf [OF ok])
  qed
  show "mset (RulesForEvent s t) = mset (rules_matching (snap_Rules s) t)"
    by (simp add: s RulesForEvent_mset)
  show "by_priority (RulesForEvent s t)"
    using sorted by (simp add: s RulesForEvent_sorted)
qed

end

text \<open>One sort that satisfies the contract; nothing depends on how it breaks ties.\<close>

definition sort_by_priority :: "rule list \<Rightarrow> rule list" where
  "sort_by_priority rs = sort_key (\<lambda>r. - rule_Priority r) rs"

lemma sorted_neg_priority: "sorted (map (\<lambda>r. - rule_Priority r) rs) \<Longrightarrow> by_priority rs"
  by (induction rs) auto

interpretation ps: priority_sort sort_by_priority
  by unfold_locales
     (simp_all add: sort_by_priority_def sorted_neg_priority)

lemma CompileDir_read_error:
  assumes "(name, Inl e) \<in> set (d_files d)"
  shows "\<exists>err. fst (CompileDir init sha so uuid now d c) = Inl err"
proof (rule ccontr)
  assume "\<nexists>err. fst (CompileDir init sha so uuid now d c) = Inl err"
  then obtain s c' where "CompileDir init sha so uuid now d c = (Inr s, c')"
    by (metis prod.collapse sumE)
  then obtain compiled c1 where
    f: "compile_files init sha (d_files d) c = (map Inr compiled, c1)"
    by (rule CompileDir_Inr)
  have "\<exists>err. Inl err \<in> set (fst (compile_files init sha fs c))"
    if "(name, Inl e) \<in> set fs" for fs
    using that by (induction fs c rule: files_induct [of _ init sha]) auto
  from this [OF assms] f show False by auto
qed

lemma check_dups_Some:
  "check_dups rs seen \<noteq> None \<or> distinct (map (rule_RuleID \<circ> fst) rs)"
  using check_dups_None [of rs seen] by blast

lemma CompileDir_duplicate:
  assumes "compile_files init sha (d_files d) c = (map Inr compiled, c1)"
    and "\<not> distinct (map (rule_RuleID \<circ> fst) compiled)"
  shows "\<exists>err. fst (CompileDir init sha so uuid now d c) = Inl err"
proof -
  have "length compiled = length (d_files d)"
    using length_compile_files [of init sha "d_files d" c] assms(1) by simp
  then have "map (rule_RuleID \<circ> fst) (zip (map fst compiled) (map fst (d_files d)))
      = map (rule_RuleID \<circ> fst) compiled"
    by (simp add: list_eq_iff_nth_eq)
  with assms(2) check_dups_Some [of "zip (map fst compiled) (map fst (d_files d))" "[]"]
  show ?thesis
    by (auto simp: CompileDir_def Let_def assms(1) split: option.splits)
qed

subsection \<open>The cache is transparent\<close>

text \<open>A rule up to the addresses of its counters, and the cache-free reference compilation.\<close>

definition strip :: "rule \<Rightarrow> rule" where
  "strip r = r\<lparr>rule_Prefiltered := 0, rule_Stats := 0\<rparr>"

definition outcome :: "compile_error + rule \<times> bytes \<Rightarrow> compile_error + rule" where
  "outcome x = map_sum id (strip \<circ> fst) x"

definition compile_plain :: "front_end \<Rightarrow> string \<times> (string + bytes) \<Rightarrow> compile_error + rule" where
  "compile_plain init f =
     (case snd f of
        Inl e \<Rightarrow> Inl (ReadError (fst f) e)
      | Inr src \<Rightarrow> map_sum id strip (CompileSource init (fst f) src 0))"

lemma CompileSource_strip:
  "map_sum id strip (CompileSource init f src p) = map_sum id strip (CompileSource init f src q)"
  by (auto simp: CompileSource_def strip_def
      split: sum.splits prod.splits option.splits sval.splits)

lemma CompileSource_name:
  "init f src = init f' src \<Longrightarrow> CompileSource init f src p = CompileSource init f' src p"
  by (simp add: CompileSource_def)

lemma cachedCompile_transparent:
  assumes ok: "cache_ok init sha c" and inj: "inj sha"
    and name: "\<And>f f' src. init f src = init f' src"
  shows "outcome (fst (cachedCompile init sha f src c))
       = map_sum id strip (CompileSource init f src 0)"
proof (cases "map_of (c_cache c) (sha src)")
  case None
  then show ?thesis
    using CompileSource_strip [of init f src "c_next c" 0]
    by (auto simp: cachedCompile_def Let_def outcome_def split: sum.splits)
next
  case (Some r)
  then have "(sha src, r) \<in> set (c_cache c)" by (rule map_of_SomeD)
  with ok obtain f' src' where "sha src' = sha src" and
    r: "CompileSource init f' src' (rule_Stats r) = Inr r"
    by (fastforce simp: cache_ok_def)
  then have "src' = src" using inj by (simp add: inj_eq)
  with r have "CompileSource init f src (rule_Stats r) = Inr r"
    using CompileSource_name [where f = f and f' = f' and src = src and init = init,
        OF name [of f src f']] by simp
  then have "map_sum id strip (CompileSource init f src 0) = Inr (strip r)"
    using CompileSource_strip [of init f src 0 "rule_Stats r"] by simp
  then show ?thesis using Some by (simp add: cachedCompile_def Let_def outcome_def)
qed

lemma compile_files_transparent:
  assumes "cache_ok init sha c" and "inj sha" and "\<And>f f' src. init f src = init f' src"
  shows "map outcome (fst (compile_files init sha fs c))
       = map (compile_plain init) fs"
  using assms(1)
proof (induction fs c rule: files_induct [of _ init sha])
  case (readable name src fs c)
  have "cache_ok init sha (snd (cachedCompile init sha name src c))"
    using readable.prems by (rule cachedCompile_ok) (rule prod.collapse [symmetric])
  moreover have "outcome (fst (cachedCompile init sha name src c))
      = map_sum id strip (CompileSource init name src 0)"
    using readable.prems assms(2,3) by (rule cachedCompile_transparent)
  ultimately show ?case using readable.IH by (simp add: compile_plain_def)
qed (simp_all add: compile_plain_def outcome_def)

subsection \<open>Unchanged files keep their rules and counters\<close>

lemma cachedCompile_keeps:
  "map_of (c_cache c) k = Some r \<Longrightarrow>
     map_of (c_cache (snd (cachedCompile init sha f src c))) k = Some r"
  by (auto simp: cachedCompile_def Let_def split: option.splits sum.splits)

lemma compile_files_keeps:
  "map_of (c_cache c) k = Some r \<Longrightarrow>
     map_of (c_cache (snd (compile_files init sha fs c))) k = Some r"
  by (induction fs c rule: files_induct [of _ init sha]) (simp_all add: cachedCompile_keeps)

lemma cachedCompile_stores:
  "fst (cachedCompile init sha f src c) = Inr (r, k) \<Longrightarrow>
     k = sha src \<and> map_of (c_cache (snd (cachedCompile init sha f src c))) (sha src) = Some r"
  by (auto simp: cachedCompile_def Let_def split: option.splits sum.splits)

lemma compile_files_stores:
  "fst (compile_files init sha fs c) = map Inr compiled \<Longrightarrow>
     list_all2 (\<lambda>f rk. \<exists>src. snd f = Inr src \<and> snd rk = sha src \<and>
        map_of (c_cache (snd (compile_files init sha fs c))) (snd rk) = Some (fst rk)) fs compiled"
proof (induction fs c arbitrary: compiled rule: files_induct [of _ init sha])
  case (readable name src fs c)
  then obtain rk rest where c: "compiled = rk # rest" by (cases compiled) auto
  with readable.prems have head: "fst (cachedCompile init sha name src c) = Inr (fst rk, snd rk)"
    by simp
  note st = cachedCompile_stores [OF head]
  then have "map_of (c_cache (snd (compile_files init sha fs
      (snd (cachedCompile init sha name src c))))) (snd rk) = Some (fst rk)"
    by (auto intro: compile_files_keeps)
  with st c readable show ?case by auto
qed auto

lemma compile_files_hits:
  "list_all2 (\<lambda>f rk. \<exists>src. snd f = Inr src \<and> snd rk = sha src \<and>
     map_of (c_cache c) (snd rk) = Some (fst rk)) fs compiled \<Longrightarrow>
     compile_files init sha fs c = (map Inr compiled, c)"
proof (induction fs compiled rule: list_all2_induct)
  case (Cons f fs rk rks)
  obtain name x where f: "f = (name, x)" by fastforce
  obtain r k where rk: "rk = (r, k)" by fastforce
  from Cons f rk obtain src where src: "x = Inr src" "k = sha src"
    "map_of (c_cache c) (sha src) = Some r" by auto
  then have "cachedCompile init sha name src c = (Inr (r, k), c)"
    by (simp add: cachedCompile_def Let_def)
  with Cons.IH f rk src(1) show ?case by simp
qed simp

lemma map_of_filter_keys:
  "map_of (filter (\<lambda>kr. fst kr \<in> S) m) k = (if k \<in> S then map_of m k else None)"
  by (induction m) auto

lemma prune_idem: "prune used (prune used c) = prune used c"
  by (simp add: prune_def)

lemma CompileDir_again:
  assumes "CompileDir init sha so uuid now d c = (Inr s, c')"
  shows "CompileDir init sha so (Inr sid') now' d c' =
     (Inr (buildIndex \<lparr>snap_ID = sid', snap_Rules = snap_Rules s, snap_LoadedAt = now',
                      snap_byType = None, snap_wildcard = []\<rparr>), c')"
proof -
  from assms obtain compiled c1 sid where d: "d_stat d = None" "d_glob d = None"
    and f: "compile_files init sha (d_files d) c = (map Inr compiled, c1)"
    and dups: "check_dups (zip (map fst compiled) (map fst (d_files d))) [] = None"
    and c': "c' = prune (map snd compiled) c1"
    and s: "s = buildIndex \<lparr>snap_ID = sid, snap_Rules = so (map fst compiled),
           snap_LoadedAt = now, snap_byType = None, snap_wildcard = []\<rparr>"
    by (rule CompileDir_Inr)
  have "list_all2 (\<lambda>f rk. \<exists>src. snd f = Inr src \<and> snd rk = sha src \<and>
      map_of (c_cache c1) (snd rk) = Some (fst rk)) (d_files d) compiled"
    using compile_files_stores [of init sha "d_files d" c compiled] f by simp
  then have "list_all2 (\<lambda>f rk. \<exists>src. snd f = Inr src \<and> snd rk = sha src \<and>
      map_of (c_cache c') (snd rk) = Some (fst rk)) (d_files d) compiled"
    by (auto simp: list_all2_conv_all_nth c' prune_def map_of_filter_keys)
  then have "compile_files init sha (d_files d) c' = (map Inr compiled, c')"
    by (rule compile_files_hits)
  with d dups show ?thesis
    by (simp add: CompileDir_def Let_def c' prune_idem s)
qed

section \<open>Properties\<close>

text \<open>A front end for samples: the source is the rule id, its first character the event type.\<close>

definition sample_init :: front_end where
  "sample_init f src =
     (if src = [] then Inl ''empty''
      else Inr (length src,
        [(''rule_id'', SString src), (''event_type'', SString [hd src]),
         (''priority'', SInt (int (length src))), (''evaluate'', SCallable 0)]))"

definition sample_dir :: "bytes list \<Rightarrow> dir" where
  "sample_dir srcs = \<lparr>d_stat = None, d_glob = None,
     d_files = map (\<lambda>s. (s @ ''.star'', Inr s)) srcs\<rparr>"

definition fresh_compiler :: compiler where
  "fresh_compiler = \<lparr>c_cache = [], c_next = 0\<rparr>"

definition sample_compile :: "bytes list \<Rightarrow> (compile_error + snapshot) \<times> compiler" where
  "sample_compile srcs =
     CompileDir sample_init id sort_by_priority (Inr ''s1'') 0 (sample_dir srcs) fresh_compiler"

lemmas sample_compile_defs = sample_compile_def sample_dir_def fresh_compiler_def CompileDir_def
  compile_files_Inr cachedCompile_def CompileSource_def sample_init_def stringGlobal_def
  intGlobal_def in_int64_def sort_by_priority_def buildIndex_def prune_def Let_def

definition sample_snapshot :: snapshot where
  "sample_snapshot = (case fst (sample_compile [''p1'', ''*22'']) of Inr s \<Rightarrow> s)"

lemma sample_compile_run:
  "\<exists>c. sample_compile [''p1'', ''*22''] = (Inr sample_snapshot, c)"
  by (simp add: sample_snapshot_def sample_compile_defs)

text \<open>
  C12: compiling a directory is all or nothing. When it succeeds every file became a rule,
  rule ids are unique, the rules are in priority order, every prefilter is well formed, and
  the index answers for every event type with the matching rules in priority order. The sort
  is any function that returns a sorted permutation, as \<^verbatim>\<open>sort.Slice\<close> promises no more.
\<close>

theorem compile_dir_sound:
  assumes "\<And>rs. mset (so rs) = mset rs" and "\<And>rs. by_priority (so rs)"
    and "cache_ok init sha c"
    and "CompileDir init sha so uuid now d c = (Inr s, c')"
  shows "length (snap_Rules s) = length (d_files d) \<and>
    distinct (map rule_RuleID (snap_Rules s)) \<and>
    by_priority (snap_Rules s) \<and>
    list_all (\<lambda>r. list_all wf_pred (rule_Match r)) (snap_Rules s) \<and>
    mset (RulesForEvent s t) = mset (rules_matching (snap_Rules s) t) \<and>
    by_priority (RulesForEvent s t) \<and>
    cache_ok init sha c'"
  using priority_sort.CompileDir_snapshot [OF priority_sort.intro [OF assms(1,2)] assms(3,4)]
    CompileDir_ok [OF assms(3,4)]
  by (simp add: list_all_iff)

theorem compile_dir_sound_witness:
  "distinct (map rule_RuleID (snap_Rules sample_snapshot)) \<and> length (snap_Rules sample_snapshot) = 2"
proof -
  from sample_compile_run obtain c where
    run: "CompileDir sample_init id sort_by_priority (Inr ''s1'') 0 (sample_dir [''p1'', ''*22'']) fresh_compiler
        = (Inr sample_snapshot, c)" by (auto simp: sample_compile_def)
  have "cache_ok sample_init id fresh_compiler"
    by (simp add: cache_ok_def fresh_compiler_def)
  from compile_dir_sound [OF ps.sort_mset ps.sort_sorted this run] show ?thesis
    by (simp add: sample_dir_def)
qed

text \<open>
  One bad file fails the whole directory: a file that cannot be read, or two files that
  declare the same rule id, make \<^verbatim>\<open>CompileDir\<close> return an error, so no partial snapshot exists.
\<close>

lemma compile_dir_rejects:
  assumes "(name, Inl e) \<in> set (d_files d) \<or>
    (\<exists>compiled c1. compile_files init sha (d_files d) c = (map Inr compiled, c1) \<and>
       \<not> distinct (map (rule_RuleID \<circ> fst) compiled))"
  shows "\<exists>err. fst (CompileDir init sha so uuid now d c) = Inl err"
  using assms
proof
  assume "(name, Inl e) \<in> set (d_files d)"
  then show ?thesis by (rule CompileDir_read_error)
next
  assume "\<exists>compiled c1. compile_files init sha (d_files d) c = (map Inr compiled, c1) \<and>
       \<not> distinct (map (rule_RuleID \<circ> fst) compiled)"
  then show ?thesis by (elim exE conjE) (rule CompileDir_duplicate)
qed

lemma compile_dir_rejects_witness:
  "\<exists>err. fst (CompileDir sample_init id sort_by_priority (Inr ''s1'') 0
     (sample_dir [''p1'', ''p1'']) fresh_compiler) = Inl err"
proof -
  define r where "r = \<lparr>rule_RuleID = ''p1'', rule_EventType = ''p'', rule_Priority = 2, rule_Program = 2,
    rule_Evaluate = 0, rule_Match = [], rule_Prefiltered = 0, rule_Stats = 0\<rparr>"
  have "compile_files sample_init id (d_files (sample_dir [''p1'', ''p1''])) fresh_compiler
      = (map Inr [(r, ''p1''), (r, ''p1'')], \<lparr>c_cache = [(''p1'', r)], c_next = 1\<rparr>) \<and>
    \<not> distinct (map (rule_RuleID \<circ> fst) [(r, ''p1''), (r, ''p1'')])"
    by (simp add: sample_compile_defs r_def)
  then have "\<exists>compiled c1. compile_files sample_init id (d_files (sample_dir [''p1'', ''p1''])) fresh_compiler
      = (map Inr compiled, c1) \<and> \<not> distinct (map (rule_RuleID \<circ> fst) compiled)"
    by blast
  then show ?thesis by (rule compile_dir_rejects [OF disjI2])
qed

end
