(* ===== verification/Verdict.thy ===== *)
theory Verdict
  imports Types
begin

text \<open>
  Verdicts: the rule-side constructor \<^verbatim>\<open>verdict()\<close> of \<^verbatim>\<open>rules/udfs.go\<close>, its
  interpretation \<open>interpretVerdict\<close> and the priority-then-weight resolution
  \<open>resolveVerdict\<close> of \<^verbatim>\<open>executor/verdict.go\<close>. The lemmas show that the two ends of a
  verdict agree, and that resolution picks the heaviest verdict among the highest-priority
  rules and does not depend on the order in which rules ran.
\<close>

section \<open>Constructing and interpreting a verdict\<close>

text \<open>
  \<open>unpack\<close> is \<^verbatim>\<open>starlark.UnpackArgs\<close>: it yields the \<^verbatim>\<open>type\<close> argument and the optional
  \<^verbatim>\<open>reason\<close>, which keeps its zero value when absent.
\<close>

datatype builtin_error =
    UnpackError string
  | InvalidType string
  | NoEvalContext string
  | CallError string
  | MemoFailed string string
  | EnvError string

definition verdictBuiltin ::
  "('args \<Rightarrow> string + (string \<times> string option)) \<Rightarrow> 'args \<Rightarrow> builtin_error + sval" where
  "verdictBuiltin unpack args =
     (case unpack args of
        Inl e \<Rightarrow> Inl (UnpackError e)
      | Inr (verdictType, reasonArg) \<Rightarrow>
          let reason = (case reasonArg of None \<Rightarrow> '''' | Some s \<Rightarrow> s) in
          if verdictType = ''approve'' \<or> verdictType = ''block'' \<or> verdictType = ''review''
          then Inr (SStruct [(''type'', SString verdictType), (''reason'', SString reason)])
          else Inl (InvalidType verdictType))"

definition interpretVerdict :: "sval \<Rightarrow> verdict_error + (verdict \<times> string)" where
  "interpretVerdict v =
     (case v of
        SStruct attrs \<Rightarrow>
          (case map_of attrs ''type'' of
             None \<Rightarrow> Inl (MissingAttr ''type'')
           | Some (SString typeStr) \<Rightarrow>
               (case map_of attrs ''reason'' of
                  None \<Rightarrow> Inl (MissingAttr ''reason'')
                | Some (SString reasonStr) \<Rightarrow>
                    if typeStr = VerdictApprove \<or> typeStr = VerdictBlock \<or> typeStr = VerdictReview
                    then Inr (typeStr, reasonStr)
                    else Inl (InvalidVerdictType typeStr)
                | Some w \<Rightarrow> Inl (AttrNotString ''reason'' w))
           | Some w \<Rightarrow> Inl (AttrNotString ''type'' w))
      | _ \<Rightarrow> Inl (NotAVerdict v))"

lemma interpretVerdict_known:
  "interpretVerdict v = Inr (w, reason) \<Longrightarrow> known_verdict w"
  by (auto simp: interpretVerdict_def known_verdict_def
      split: sval.splits option.splits if_splits)

lemma interpretVerdict_verdictBuiltin:
  "verdictBuiltin unpack args = Inr s \<Longrightarrow> unpack args = Inr (t, r) \<Longrightarrow>
     interpretVerdict s = Inr (t, case r of None \<Rightarrow> '''' | Some x \<Rightarrow> x)"
  by (auto simp: verdictBuiltin_def interpretVerdict_def verdict_defs Let_def split: if_splits)

lemma verdictBuiltin_total:
  "unpack args = Inr (t, r) \<Longrightarrow>
     verdictBuiltin unpack args =
       (if known_verdict t
        then Inr (SStruct [(''type'', SString t),
                           (''reason'', SString (case r of None \<Rightarrow> '''' | Some x \<Rightarrow> x))])
        else Inl (InvalidType t))"
  by (auto simp: verdictBuiltin_def known_verdict_def verdict_defs Let_def)

section \<open>Resolution\<close>

text \<open>The loop of \<^verbatim>\<open>resolveVerdict\<close> over \<^verbatim>\<open>triggered[1:]\<close>, with the best verdict so far.\<close>

fun resolve_loop :: "rule_result list \<Rightarrow> verdict \<Rightarrow> int \<Rightarrow> verdict \<times> int" where
  "resolve_loop [] best bestPriority = (best, bestPriority)"
| "resolve_loop (rr # rrs) best bestPriority =
     (if rr_Priority rr > bestPriority \<or>
         (rr_Priority rr = bestPriority \<and> VerdictWeight (rr_Verdict rr) > VerdictWeight best)
      then resolve_loop rrs (rr_Verdict rr) (rr_Priority rr)
      else resolve_loop rrs best bestPriority)"

definition resolveVerdict :: "rule_result list \<Rightarrow> verdict" where
  "resolveVerdict triggered =
     (case triggered of
        [] \<Rightarrow> VerdictApprove
      | rr # rrs \<Rightarrow> fst (resolve_loop rrs (rr_Verdict rr) (rr_Priority rr)))"

text \<open>The order the loop maximises: priority first, then weight.\<close>

definition outranks :: "int \<times> verdict \<Rightarrow> int \<times> verdict \<Rightarrow> bool" where
  "outranks a b \<longleftrightarrow> fst a < fst b \<or> (fst a = fst b \<and> VerdictWeight (snd a) \<le> VerdictWeight (snd b))"

lemma outranks_refl [simp]: "outranks a a"
  by (simp add: outranks_def)

lemma outranks_trans: "outranks a b \<Longrightarrow> outranks b c \<Longrightarrow> outranks a c"
  by (auto simp: outranks_def)

abbreviation rank_of :: "rule_result \<Rightarrow> int \<times> verdict" where
  "rank_of rr \<equiv> (rr_Priority rr, rr_Verdict rr)"

lemma resolve_loop_spec:
  "resolve_loop rrs b bp = (v, p) \<Longrightarrow>
     (p, v) \<in> insert (bp, b) (rank_of ` set rrs) \<and>
     (\<forall>x \<in> insert (bp, b) (rank_of ` set rrs). outranks x (p, v))"
proof (induction rrs b bp rule: resolve_loop.induct)
  case (2 rr rrs b bp)
  show ?case
  proof (cases "rr_Priority rr > bp \<or>
      (rr_Priority rr = bp \<and> VerdictWeight (rr_Verdict rr) > VerdictWeight b)")
    case True
    then have "outranks (bp, b) (rank_of rr)" by (auto simp: outranks_def)
    with True 2 show ?thesis by (auto intro: outranks_trans)
  next
    case False
    then have "outranks (rank_of rr) (bp, b)" by (auto simp: outranks_def)
    with False 2 show ?thesis by (auto intro: outranks_trans)
  qed
qed simp

lemma resolveVerdict_spec:
  assumes "triggered \<noteq> []"
  shows "\<exists>rr \<in> set triggered. resolveVerdict triggered = rr_Verdict rr \<and>
           (\<forall>q \<in> set triggered. outranks (rank_of q) (rank_of rr))"
proof -
  obtain r rs where t: "triggered = r # rs" using assms by (cases triggered) auto
  obtain v p where l: "resolve_loop rs (rr_Verdict r) (rr_Priority r) = (v, p)" by fastforce
  have "resolveVerdict triggered = v" by (simp add: resolveVerdict_def t l)
  with resolve_loop_spec [OF l] t show ?thesis by fastforce
qed

lemma resolveVerdict_perm:
  assumes "mset xs = mset ys" and "\<forall>rr \<in> set xs. known_verdict (rr_Verdict rr)"
  shows "resolveVerdict xs = resolveVerdict ys"
proof (cases "xs = []")
  case True
  with assms show ?thesis by simp
next
  case False
  have set_eq: "set xs = set ys" using assms(1) by (metis set_mset_mset)
  from False obtain a where a: "a \<in> set xs" "resolveVerdict xs = rr_Verdict a"
    "\<forall>q \<in> set xs. outranks (rank_of q) (rank_of a)"
    using resolveVerdict_spec by blast
  from False set_eq have "ys \<noteq> []" by auto
  then obtain b where b: "b \<in> set ys" "resolveVerdict ys = rr_Verdict b"
    "\<forall>q \<in> set ys. outranks (rank_of q) (rank_of b)"
    using resolveVerdict_spec by blast
  from a b set_eq have "outranks (rank_of a) (rank_of b)" "outranks (rank_of b) (rank_of a)"
    by auto
  then have "VerdictWeight (rr_Verdict a) = VerdictWeight (rr_Verdict b)"
    by (auto simp: outranks_def)
  with a b set_eq assms(2) show ?thesis by (auto intro: VerdictWeight_inj)
qed

lemma resolveVerdict_known:
  "\<forall>rr \<in> set triggered. known_verdict (rr_Verdict rr) \<Longrightarrow> known_verdict (resolveVerdict triggered)"
  using resolveVerdict_spec [of triggered]
  by (cases "triggered = []") (auto simp: resolveVerdict_def known_verdict_def)

text \<open>A block at the highest priority is never outvoted.\<close>

lemma resolveVerdict_block:
  assumes "b \<in> set triggered" and "rr_Verdict b = VerdictBlock"
    and "\<forall>q \<in> set triggered. rr_Priority q \<le> rr_Priority b"
    and "\<forall>rr \<in> set triggered. known_verdict (rr_Verdict rr)"
  shows "resolveVerdict triggered = VerdictBlock"
proof -
  from assms(1) have "triggered \<noteq> []" by auto
  then obtain a where a: "a \<in> set triggered" "resolveVerdict triggered = rr_Verdict a"
    "\<forall>q \<in> set triggered. outranks (rank_of q) (rank_of a)"
    using resolveVerdict_spec by blast
  with assms(1-3) have "VerdictWeight (rr_Verdict a) \<ge> 3"
    by (fastforce simp: outranks_def)
  with a assms(4) show ?thesis by (auto simp: known_verdict_def)
qed

section \<open>Properties\<close>

text \<open>
  C4: the final verdict does not depend on the order in which triggered rules are listed, and
  it is the verdict of a rule that no other outranks: highest priority first, then weight.
\<close>

theorem resolution_order_free:
  assumes "mset xs = mset ys" and "\<forall>rr \<in> set xs. known_verdict (rr_Verdict rr)" and "xs \<noteq> []"
  shows "resolveVerdict ys = resolveVerdict xs \<and>
    (\<exists>rr \<in> set xs. resolveVerdict xs = rr_Verdict rr \<and> (\<forall>q \<in> set xs. outranks (rank_of q) (rank_of rr)))"
  using resolveVerdict_perm [OF assms(1,2)] resolveVerdict_spec [OF assms(3)] by simp

definition sample_result :: "int \<Rightarrow> verdict \<Rightarrow> rule_result" where
  "sample_result p v = \<lparr>rr_RuleID = ''r'', rr_Priority = p, rr_Verdict = v, rr_Reason = '''',
     rr_Err = None, rr_ErrMsg = None, rr_Elapsed = 1\<rparr>"

theorem resolution_order_free_witness:
  "resolveVerdict [sample_result 9 VerdictReview, sample_result 1 VerdictBlock]
     = resolveVerdict [sample_result 1 VerdictBlock, sample_result 9 VerdictReview] \<and>
   resolveVerdict [sample_result 1 VerdictBlock, sample_result 9 VerdictReview] = VerdictReview"
  using resolution_order_free [of "[sample_result 1 VerdictBlock, sample_result 9 VerdictReview]"
      "[sample_result 9 VerdictReview, sample_result 1 VerdictBlock]"]
  by (simp add: sample_result_def known_verdict_def resolveVerdict_def)

text \<open>
  C26: \<^verbatim>\<open>verdict(type, reason)\<close> accepts exactly the three known types, and what it builds is
  interpreted back to the same type and reason, an absent reason as the empty one.
\<close>

theorem verdict_roundtrip:
  assumes "unpack args = Inr (t, r)"
  shows "(case verdictBuiltin unpack args of
      Inr s \<Rightarrow> known_verdict t \<and> interpretVerdict s = Inr (t, case r of None \<Rightarrow> '''' | Some x \<Rightarrow> x)
    | Inl e \<Rightarrow> \<not> known_verdict t \<and> e = InvalidType t)"
  using verdictBuiltin_total [of unpack args t r, OF assms]
    interpretVerdict_verdictBuiltin [of unpack args _ t r, OF _ assms]
  by (auto split: sum.splits if_splits)

theorem verdict_roundtrip_witness:
  "(case verdictBuiltin (\<lambda>_. Inr (''block'', Some ''spam'')) () of
      Inr s \<Rightarrow> known_verdict ''block'' \<and> interpretVerdict s = Inr (''block'', ''spam'')
    | Inl e \<Rightarrow> False)"
  using verdict_roundtrip [of "\<lambda>_. Inr (''block'', Some ''spam'')" "()" "''block''" "Some ''spam''"]
  by (auto simp: known_verdict_def verdict_defs split: sum.splits)

end
