(* ===== verification/Counters.thy ===== *)
theory Counters
  imports Prelude
begin

text \<open>
  \<^verbatim>\<open>executor/counters.go\<close>: the sliding-window counters behind the \<^verbatim>\<open>counter()\<close> builtin. A
  series is a ring of 60 one-minute buckets, each a 64-bit word packing the bucket's epoch
  (minute number, high half) and its count (low half); the store keeps one series per key in
  one of 256 shards. The lemmas relate a series to the log of the increments made to it: what
  a windowed sum counts exactly, how far it can be from the true sliding window, that keys
  do not disturb each other, that garbage collection is unobservable, and that concurrent
  compare-and-swap increments behave like some sequence of whole increments and stop retrying.
\<close>

definition counterBucketSeconds :: int where "counterBucketSeconds = 60"
definition counterMaxWindowSeconds :: int where "counterMaxWindowSeconds = 3600"
definition counterSlots :: nat where
  "counterSlots = nat (go_div counterMaxWindowSeconds counterBucketSeconds)"
definition counterShards :: nat where "counterShards = 256"

lemma counterSlots_eq: "counterSlots = 60"
  by (simp add: counterSlots_def counterMaxWindowSeconds_def counterBucketSeconds_def)

lemmas counter_consts = counterBucketSeconds_def counterMaxWindowSeconds_def
  counterSlots_eq counterShards_def

section \<open>Sharding\<close>

type_synonym counter_key = "string \<times> string"

definition fnv32 :: "u32 \<Rightarrow> string \<Rightarrow> u32" where
  "fnv32 h s = fold (\<lambda>c h. (h XOR of_char c) * 16777619) s h"

definition shard :: "counter_key \<Rightarrow> nat" where
  "shard k =
     (let h1 = fnv32 2166136261 (fst k);
          h2 = (h1 XOR 0xff) * 16777619;
          h3 = fnv32 h2 (snd k)
      in unat (h3 mod of_nat counterShards))"

lemma shard_bound: "shard k < counterShards"
  by (simp add: shard_def Let_def counterShards_def unat_mod)

section \<open>One series\<close>

type_synonym series = "u64 list"

definition slotEpoch :: "u64 \<Rightarrow> u32" where
  "slotEpoch v = ucast (drop_bit 32 v)"

definition slotCount :: "u64 \<Rightarrow> int" where
  "slotCount v = uint (ucast v :: u32)"

definition new_series :: series where
  "new_series = replicate counterSlots 0"

definition epoch_of :: "int \<Rightarrow> u32" where
  "epoch_of unixNow = word_of_int (go_div unixNow counterBucketSeconds)"

definition slot_index :: "u32 \<Rightarrow> nat" where
  "slot_index epoch = nat (uint epoch mod int counterSlots)"

text \<open>The value the loop installs over the value it loaded.\<close>

definition bump :: "u32 \<Rightarrow> u64 \<Rightarrow> u64" where
  "bump epoch old = (if slotEpoch old = epoch then old + 1 else push_bit 32 (ucast epoch) OR 1)"

definition series_increment :: "int \<Rightarrow> series \<Rightarrow> series" where
  "series_increment unixNow s =
     (let epoch = epoch_of unixNow; i = slot_index epoch in s[i := bump epoch (s ! i)])"

definition series_sum :: "int \<Rightarrow> series \<Rightarrow> int" where
  "series_sum windowStart s =
     sum_list (map (\<lambda>v. if uint (slotEpoch v) * counterBucketSeconds \<ge> windowStart
                        then slotCount v else 0) s)"

section \<open>The store\<close>

type_synonym counter_store = "nat \<Rightarrow> (counter_key \<Rightarrow> series option)"

definition empty_store :: counter_store where
  "empty_store = (\<lambda>_ _. None)"

definition store_increment :: "counter_key \<Rightarrow> int \<Rightarrow> counter_store \<Rightarrow> counter_store" where
  "store_increment key unixNow cs =
     (let m = cs (shard key);
          s = (case m key of None \<Rightarrow> new_series | Some s \<Rightarrow> s)
      in cs(shard key := m(key \<mapsto> series_increment unixNow s)))"

definition store_sum :: "counter_key \<Rightarrow> int \<Rightarrow> counter_store \<Rightarrow> int" where
  "store_sum key windowStart cs =
     (case cs (shard key) key of
        None \<Rightarrow> 0
      | Some s \<Rightarrow> series_sum windowStart s)"

definition store_gc :: "int \<Rightarrow> counter_store \<Rightarrow> counter_store" where
  "store_gc now cs =
     (let cutoffEpoch = word_of_int (go_div (now - counterMaxWindowSeconds) counterBucketSeconds) :: u32 in
      (\<lambda>i k. (case cs i k of
               None \<Rightarrow> None
             | Some s \<Rightarrow>
                 if i < counterShards \<and> \<not> list_ex (\<lambda>v. slotEpoch v \<ge> cutoffEpoch) s
                 then None else Some s)))"

section \<open>Packed slots\<close>

definition pack :: "nat \<Rightarrow> nat \<Rightarrow> u64" where
  "pack e c = of_nat (e * 2 ^ 32 + c)"

lemma unat_of_nat32: "n < 2 ^ 32 \<Longrightarrow> unat (of_nat n :: u32) = n"
  by (simp add: unat_of_nat)

lemma unat_pack: "e < 2 ^ 32 \<Longrightarrow> c < 2 ^ 32 \<Longrightarrow> unat (pack e c) = e * 2 ^ 32 + c"
  unfolding pack_def unat_of_nat by simp

lemma slotEpoch_pack:
  assumes "e < 2 ^ 32" and "c < 2 ^ 32"
  shows "slotEpoch (pack e c) = of_nat e"
proof -
  have "unat (drop_bit 32 (pack e c)) = drop_bit 32 (unat (pack e c))"
    by (rule unat_drop_bit_eq)
  also have "\<dots> = (e * 2 ^ 32 + c) div 2 ^ 32"
    by (simp only: drop_bit_eq_div unat_pack [OF assms])
  also have "\<dots> = e" using assms by simp
  finally have "unat (drop_bit 32 (pack e c)) = e" .
  then show ?thesis
    by (metis slotEpoch_def of_nat_unat)
qed

lemma slotCount_pack:
  assumes "e < 2 ^ 32" and "c < 2 ^ 32"
  shows "slotCount (pack e c) = int c"
proof -
  have "unat (ucast (pack e c) :: u32) = c"
    using assms by (simp add: unsigned_ucast_eq take_bit_eq_mod unat_pack)
  then show ?thesis by (simp add: slotCount_def uint_nat)
qed

lemma pack_0_0: "pack 0 0 = 0"
  by (simp add: pack_def)

lemma pack_Suc: "pack e c + 1 = pack e (Suc c)"
  by (simp add: pack_def)

lemma pack_new:
  assumes "e < 2 ^ 32"
  shows "push_bit 32 (ucast (of_nat e :: u32)) OR 1 = pack e 1"
proof -
  have u: "unat (of_nat e :: u32) = e" using assms by (rule unat_of_nat32)
  have "ucast (of_nat e :: u32) = (of_nat e :: u64)"
    by (metis u of_nat_unat)
  then have "push_bit 32 (ucast (of_nat e :: u32)) = (of_nat e * 2 ^ 32 :: u64)"
    by (simp add: push_bit_eq_mult)
  moreover have "(push_bit 32 (ucast (of_nat e :: u32)) :: u64) OR 1
      = push_bit 32 (ucast (of_nat e :: u32)) + 1"
    by (rule disjunctive_add [symmetric]) (auto simp: bit_push_bit_iff bit_1_iff)
  ultimately show ?thesis by (simp add: pack_def)
qed

lemma bump_pack:
  assumes "e < 2 ^ 32" and "c < 2 ^ 32" and "e' < 2 ^ 32"
  shows "bump (of_nat e') (pack e c) = (if e = e' then pack e (Suc c) else pack e' 1)"
proof -
  have "(of_nat e = (of_nat e' :: u32)) = (e = e')"
    using assms by (metis unat_of_nat32)
  then show ?thesis
    using assms by (simp add: bump_def slotEpoch_pack pack_Suc pack_new)
qed

section \<open>A series is a function of its log\<close>

text \<open>
  The log of a series lists the times of its increments. A clock that does not run backwards
  makes it sorted; \<open>log_ok\<close> also bounds it by what the packed words can hold: times before
  the year 10000 (the 32-bit minute number reaches beyond that) and fewer than \<open>2 ^ 32\<close> increments.
\<close>

definition minute :: "int \<Rightarrow> nat" where
  "minute t = nat (t div 60)"

definition log_ok :: "int list \<Rightarrow> bool" where
  "log_ok log \<longleftrightarrow> sorted log \<and> list_all (\<lambda>t. 0 \<le> t \<and> t < 60 * 2 ^ 32) log \<and> length log < 2 ^ 32"

abbreviation in_class :: "nat \<Rightarrow> int list \<Rightarrow> int list" where
  "in_class i log \<equiv> filter (\<lambda>t. minute t mod 60 = i) log"

abbreviation in_minute :: "nat \<Rightarrow> int list \<Rightarrow> int list" where
  "in_minute m log \<equiv> filter (\<lambda>t. minute t = m) log"

definition slot_of :: "int list \<Rightarrow> nat \<Rightarrow> u64" where
  "slot_of log i =
     (let es = in_class i log in
      if es = [] then 0
      else pack (minute (last es)) (length (in_minute (minute (last es)) log)))"

definition series_of_log :: "int list \<Rightarrow> series" where
  "series_of_log log = map (slot_of log) [0..<60]"

lemma length_series_of_log [simp]: "length (series_of_log log) = 60"
  by (simp add: series_of_log_def)

lemma nth_series_of_log [simp]: "i < 60 \<Longrightarrow> series_of_log log ! i = slot_of log i"
  by (simp add: series_of_log_def)

lemma length_series_increment [simp]: "length (series_increment t s) = length s"
  by (simp add: series_increment_def Let_def)

lemma minute_bound: "0 \<le> t \<Longrightarrow> t < 60 * 2 ^ 32 \<Longrightarrow> minute t < 2 ^ 32"
  by (simp add: minute_def nat_less_iff)

lemma minute_mono: "s \<le> t \<Longrightarrow> minute s \<le> minute t"
  unfolding minute_def by (intro nat_mono zdiv_mono1) simp_all

lemma epoch_of_minute: "0 \<le> t \<Longrightarrow> epoch_of t = of_nat (minute t)"
  by (simp add: epoch_of_def minute_def counterBucketSeconds_def)

lemma slot_index_minute:
  assumes "minute t < 2 ^ 32"
  shows "slot_index (of_nat (minute t)) = minute t mod 60"
proof -
  have "uint (of_nat (minute t) :: u32) = int (minute t)"
    using assms by (simp only: uint_nat unat_of_nat32)
  then have "slot_index (of_nat (minute t)) = nat (int (minute t mod 60))"
    by (simp only: slot_index_def counterSlots_eq of_nat_mod)
  then show ?thesis by simp
qed

lemma log_ok_snoc:
  "log_ok (log @ [t]) \<Longrightarrow> log_ok log \<and> 0 \<le> t \<and> t < 60 * 2 ^ 32 \<and> (\<forall>u \<in> set log. u \<le> t)"
  by (auto simp: log_ok_def sorted_append)

lemma log_ok_bounds:
  "log_ok log \<Longrightarrow> t \<in> set log \<Longrightarrow> minute t < 2 ^ 32"
  using minute_bound [of t] by (auto simp: log_ok_def list_all_iff)

lemma count_bound: "log_ok log \<Longrightarrow> length (filter P log) < 2 ^ 32"
  using length_filter_le [of P log] unfolding log_ok_def by linarith

lemma last_in_class:
  assumes "in_class i log \<noteq> []"
  shows "last (in_class i log) \<in> set log" and "minute (last (in_class i log)) mod 60 = i"
  using last_in_set [OF assms] by auto

lemma sorted_le_last: "sorted xs \<Longrightarrow> x \<in> set xs \<Longrightarrow> x \<le> last xs" for x :: int
  by (induction xs rule: rev_induct) (auto simp: sorted_append)

lemma class_le_last:
  "log_ok log \<Longrightarrow> u \<in> set log \<Longrightarrow> minute u mod 60 = i \<Longrightarrow> u \<le> last (in_class i log)"
proof -
  assume ok: "log_ok log" and u: "u \<in> set log" "minute u mod 60 = i"
  have "sorted (in_class i log)" using ok by (simp add: log_ok_def sorted_wrt_filter)
  moreover have "u \<in> set (in_class i log)" using u by simp
  ultimately show ?thesis by (rule sorted_le_last)
qed

lemma slot_of_snoc_same:
  assumes ok: "log_ok (log @ [t])" and i: "minute t mod 60 = i"
  shows "bump (of_nat (minute t)) (slot_of log i) = slot_of (log @ [t]) i"
proof -
  from log_ok_snoc [OF ok] have log: "log_ok log" and t: "0 \<le> t" "t < 60 * 2 ^ 32"
    and le: "\<forall>u \<in> set log. u \<le> t" by auto
  have mt: "minute t < 2 ^ 32" using t by (rule minute_bound)
  have new: "slot_of (log @ [t]) i = pack (minute t) (Suc (length (in_minute (minute t) log)))"
    using i by (simp add: slot_of_def)
  show ?thesis
  proof (cases "in_class i log = []")
    case True
    then have "in_minute (minute t) log = []" using i by (auto simp: filter_empty_conv)
    moreover have "slot_of log i = pack 0 0" using True by (simp add: slot_of_def pack_0_0)
    ultimately show ?thesis using new mt bump_pack [of 0 0 "minute t"] by auto
  next
    case False
    define l where "l = last (in_class i log)"
    note l = last_in_class [OF False, folded l_def]
    have old: "slot_of log i = pack (minute l) (length (in_minute (minute l) log))"
      using False by (simp add: slot_of_def Let_def l_def)
    have b: "minute l < 2 ^ 32" "length (in_minute (minute l) log) < 2 ^ 32"
      by (rule log_ok_bounds [OF log l(1)], rule count_bound [OF log])
    have "in_minute (minute t) log = []" if "minute l \<noteq> minute t"
    proof (rule ccontr)
      assume "\<not> ?thesis"
      then obtain u where u: "u \<in> set log" "minute u = minute t" by (auto simp: filter_empty_conv)
      then have "u \<le> l" using class_le_last [OF log u(1)] i by (simp add: l_def)
      then have "minute t \<le> minute l" using u minute_mono by metis
      moreover have "minute l \<le> minute t" using le l minute_mono by blast
      ultimately show False using that by simp
    qed
    then show ?thesis using old new bump_pack [OF b mt] by auto
  qed
qed

lemma slot_of_snoc_other:
  assumes "minute t mod 60 \<noteq> i"
  shows "slot_of (log @ [t]) i = slot_of log i"
proof (cases "in_class i log = []")
  case False
  then have "minute (last (in_class i log)) mod 60 = i" by (rule last_in_class)
  with assms have "minute t \<noteq> minute (last (in_class i log))" by auto
  with assms show ?thesis by (simp add: slot_of_def Let_def)
qed (use assms in \<open>simp add: slot_of_def\<close>)

lemma series_increment_log:
  assumes "log_ok (log @ [t])"
  shows "series_increment t (series_of_log log) = series_of_log (log @ [t])"
proof (rule nth_equalityI)
  from log_ok_snoc [OF assms] have t: "0 \<le> t" "t < 60 * 2 ^ 32" by auto
  define i where "i = minute t mod 60"
  have i: "i < 60" by (simp add: i_def)
  have inc: "series_increment t (series_of_log log)
      = (series_of_log log)[i := bump (of_nat (minute t)) (series_of_log log ! i)]"
    unfolding series_increment_def Let_def epoch_of_minute [OF t(1)]
      slot_index_minute [OF minute_bound [OF t]] i_def ..
  show "length (series_increment t (series_of_log log)) = length (series_of_log (log @ [t]))"
    by simp
  fix j assume "j < length (series_increment t (series_of_log log))"
  then have j: "j < 60" by simp
  show "series_increment t (series_of_log log) ! j = series_of_log (log @ [t]) ! j"
  proof (cases "j = i")
    case True
    with i slot_of_snoc_same [OF assms] show ?thesis by (simp add: inc i_def)
  next
    case False
    with j slot_of_snoc_other [of t j log] show ?thesis by (simp add: inc i_def)
  qed
qed

lemma new_series_log: "new_series = series_of_log []"
  by (rule nth_equalityI) (simp_all add: new_series_def series_of_log_def slot_of_def counterSlots_eq)

lemma fold_series_log:
  "log_ok log \<Longrightarrow> fold series_increment log new_series = series_of_log log"
proof (induction log rule: rev_induct)
  case (snoc t log)
  then have "log_ok log" using log_ok_snoc by blast
  with snoc show ?case by (simp add: series_increment_log)
qed (simp add: new_series_log)

section \<open>What a windowed sum counts\<close>

text \<open>The start of the bucket a time falls in.\<close>

definition bucket_start :: "int \<Rightarrow> int" where
  "bucket_start t = 60 * (t div 60)"

lemma bucket_start_minute: "0 \<le> t \<Longrightarrow> bucket_start t = 60 * int (minute t)"
  by (simp add: bucket_start_def minute_def)

lemma bucket_start_bounds: "bucket_start t \<le> t" "t < bucket_start t + 60"
  unfolding bucket_start_def by linarith+

definition contrib :: "int \<Rightarrow> u64 \<Rightarrow> int" where
  "contrib ws v = (if uint (slotEpoch v) * 60 \<ge> ws then slotCount v else 0)"

definition window_in_class :: "int \<Rightarrow> nat \<Rightarrow> int list \<Rightarrow> int list" where
  "window_in_class ws i log = filter (\<lambda>t. minute t mod 60 = i \<and> ws \<le> bucket_start t) log"

lemma series_sum_classes:
  "series_sum ws (series_of_log log) = (\<Sum>i<60. contrib ws (slot_of log i))"
proof -
  have "series_sum ws (series_of_log log) = sum_list (map (\<lambda>i. contrib ws (slot_of log i)) [0..<60])"
    by (simp only: series_sum_def series_of_log_def contrib_def counterBucketSeconds_def
        map_map comp_def)
  then show ?thesis
    by (simp only: interv_sum_list_conv_sum_set_nat set_upt atLeast0LessThan)
qed

lemma sum_classes:
  "(\<Sum>i<60. int (length (window_in_class ws i log))) = int (length (filter (\<lambda>t. ws \<le> bucket_start t) log))"
proof (induction log)
  case (Cons t log)
  have "(\<Sum>i<60. int (length (window_in_class ws i (t # log))))
      = (\<Sum>i<60. (if i = minute t mod 60 then of_bool (ws \<le> bucket_start t) else 0)
           + int (length (window_in_class ws i log)))"
    by (rule sum.cong) (auto simp: window_in_class_def)
  also have "\<dots> = of_bool (ws \<le> bucket_start t) + (\<Sum>i<60. int (length (window_in_class ws i log)))"
    by (simp add: sum.distrib)
  finally show ?case using Cons by simp
qed (simp add: window_in_class_def)

lemma contrib_empty: "in_class i log = [] \<Longrightarrow> contrib ws (slot_of log i) = 0"
  by (simp add: slot_of_def contrib_def slotCount_def)

lemma contrib_slot:
  assumes ok: "log_ok log" and ne: "in_class i log \<noteq> []"
  defines "m \<equiv> minute (last (in_class i log))"
  shows "contrib ws (slot_of log i) =
    (if ws \<le> 60 * int m then int (length (in_minute m log)) else 0)"
proof -
  have b: "m < 2 ^ 32" "length (in_minute m log) < 2 ^ 32"
    using last_in_class [OF ne] ok by (auto simp only: m_def log_ok_bounds count_bound)
  have "slot_of log i = pack m (length (in_minute m log))"
    using ne by (simp add: slot_of_def Let_def m_def)
  moreover have "uint (of_nat m :: u32) = int m"
    using b by (simp only: uint_nat unat_of_nat32)
  ultimately show ?thesis
    by (simp add: contrib_def slotEpoch_pack [OF b] slotCount_pack [OF b] mult.commute)
qed

lemma in_minute_window:
  assumes "log_ok log" and "ws \<le> 60 * int m" and "m mod 60 = i"
  shows "length (in_minute m log) \<le> length (window_in_class ws i log)"
proof -
  have "in_minute m log = filter (\<lambda>t. minute t = m) (window_in_class ws i log)"
    using assms
    by (auto simp: window_in_class_def log_ok_def list_all_iff bucket_start_minute intro!: filter_cong)
  then show ?thesis by simp
qed

lemma contrib_le:
  assumes "log_ok log"
  shows "contrib ws (slot_of log i) \<le> int (length (window_in_class ws i log))"
proof (cases "in_class i log = []")
  case False
  with in_minute_window [OF assms, of ws _ i] last_in_class [OF False] show ?thesis
    by (simp add: contrib_slot [OF assms False])
qed (simp add: contrib_empty)

text \<open>
  Only a full-hour window read in the first second of a minute can miss a bucket, the one
  that starts exactly an hour ago and whose slot the current minute may have taken over.
\<close>

definition window_exact :: "int \<Rightarrow> int \<Rightarrow> bool" where
  "window_exact now w \<longleftrightarrow> w < 3600 \<or> (w = 3600 \<and> now mod 60 \<noteq> 0)"

lemma same_minute_in_window:
  assumes ok: "log_ok log" and now: "\<forall>u \<in> set log. u \<le> now" and ex: "window_exact now w"
    and t: "t \<in> set log" "minute t mod 60 = i" "now - w \<le> bucket_start t"
  shows "minute t = minute (last (in_class i log))"
proof (rule ccontr)
  define l where "l = last (in_class i log)"
  assume "\<not> ?thesis"
  then have ne: "minute t \<noteq> minute l" by (simp add: l_def)
  have "in_class i log \<noteq> []" using t by (auto simp: filter_empty_conv)
  note l = last_in_class [OF this, folded l_def]
  have "t \<le> l" using class_le_last [OF ok t(1,2)] by (simp add: l_def)
  with ne have "minute t < minute l" using minute_mono [of t l] by simp
  moreover have "minute t mod 60 = minute l mod 60" using t l by simp
  ultimately have "minute t + 60 \<le> minute l"
    by (metis le_add_diff_inverse less_or_eq_imp_le mod_eq_dvd_iff_nat nat_dvd_not_less not_le
        add_le_cancel_left zero_less_diff)
  moreover have "0 \<le> t" "0 \<le> l" using ok t l by (auto simp: log_ok_def list_all_iff)
  moreover have "l \<le> now" using now l by blast
  ultimately have "bucket_start t + 3600 \<le> now"
    using bucket_start_bounds(1) [of l] by (simp add: bucket_start_minute)
  with t(3) ex have "w = 3600" "bucket_start t = now - 3600" by (auto simp: window_exact_def)
  then have "now mod 60 = 0" by (simp add: bucket_start_def) presburger
  with ex \<open>w = 3600\<close> show False by (simp add: window_exact_def)
qed

lemma contrib_exact:
  assumes ok: "log_ok log" and now: "\<forall>u \<in> set log. u \<le> now" and ex: "window_exact now w"
  shows "contrib (now - w) (slot_of log i) = int (length (window_in_class (now - w) i log))"
proof (cases "window_in_class (now - w) i log = []")
  case True
  with contrib_le [OF ok, of "now - w" i] show ?thesis
    by (simp add: contrib_def slotCount_def split: if_splits)
next
  case False
  define m where "m = minute (last (in_class i log))"
  from False obtain t where t: "t \<in> set log" "minute t mod 60 = i" "now - w \<le> bucket_start t"
    by (auto simp: window_in_class_def filter_empty_conv)
  then have ne: "in_class i log \<noteq> []" by (auto simp: filter_empty_conv)
  have all: "\<forall>t \<in> set log. minute t mod 60 = i \<and> now - w \<le> bucket_start t \<longrightarrow> minute t = m"
    using same_minute_in_window [OF ok now ex] by (simp add: m_def)
  with t ok have m: "now - w \<le> 60 * int m" "m mod 60 = i"
    by (auto simp: log_ok_def list_all_iff bucket_start_minute)
  have "window_in_class (now - w) i log = in_minute m log"
    using all m ok
    by (auto simp: window_in_class_def log_ok_def list_all_iff bucket_start_minute intro!: filter_cong)
  with m show ?thesis by (simp add: contrib_slot [OF ok ne] m_def [symmetric])
qed

lemma series_sum_exact:
  assumes "log_ok log" and "\<forall>u \<in> set log. u \<le> now" and "window_exact now w"
  shows "series_sum (now - w) (series_of_log log) =
    int (length (filter (\<lambda>t. now - w \<le> bucket_start t) log))"
  using contrib_exact [OF assms] by (simp only: series_sum_classes sum_classes [symmetric])

lemma series_sum_le:
  assumes "log_ok log"
  shows "series_sum ws (series_of_log log) \<le> int (length (filter (\<lambda>t. ws \<le> bucket_start t) log))"
  unfolding series_sum_classes sum_classes [symmetric]
  using contrib_le [OF assms] by (intro sum_mono) simp

lemma slotCount_nonneg [simp]: "0 \<le> slotCount v"
  by (simp add: slotCount_def)

lemma series_sum_anti:
  "ws \<le> ws' \<Longrightarrow> series_sum ws' s \<le> series_sum ws s"
  unfolding series_sum_def by (intro sum_list_mono) auto

lemma length_filter_mono:
  "(\<And>x. x \<in> set xs \<Longrightarrow> P x \<Longrightarrow> Q x) \<Longrightarrow> length (filter P xs) \<le> length (filter Q xs)"
  by (induction xs) auto

text \<open>Against the true sliding window, a sum misses at most the window's oldest minute.\<close>

lemma series_sum_window:
  assumes ok: "log_ok log" and now: "\<forall>u \<in> set log. u \<le> now" and w: "w \<le> 3600"
  shows "int (length (filter (\<lambda>t. now - w + 60 \<le> t) log)) \<le> series_sum (now - w) (series_of_log log)"
    and "series_sum (now - w) (series_of_log log) \<le> int (length (filter (\<lambda>t. now - w \<le> t) log))"
proof -
  show "series_sum (now - w) (series_of_log log) \<le> int (length (filter (\<lambda>t. now - w \<le> t) log))"
    using series_sum_le [OF ok, of "now - w"] bucket_start_bounds(1)
      length_filter_mono [of log "\<lambda>t. now - w \<le> bucket_start t" "\<lambda>t. now - w \<le> t"]
    by (meson of_nat_le_iff order_trans)
  show "int (length (filter (\<lambda>t. now - w + 60 \<le> t) log)) \<le> series_sum (now - w) (series_of_log log)"
  proof (cases "window_exact now w")
    case True
    have "length (filter (\<lambda>t. now - w + 60 \<le> t) log) \<le> length (filter (\<lambda>t. now - w \<le> bucket_start t) log)"
      using bucket_start_bounds(2) by (intro length_filter_mono) (smt (verit))
    then show ?thesis by (simp add: series_sum_exact [OF ok now True])
  next
    case False
    with w have w: "w = 3600" by (simp add: window_exact_def)
    have "window_exact now 3599" by (simp add: window_exact_def)
    note ex = series_sum_exact [OF ok now this]
    have "length (filter (\<lambda>t. now - w + 60 \<le> t) log) \<le> length (filter (\<lambda>t. now - 3599 \<le> bucket_start t) log)"
      using bucket_start_bounds(2) w by (intro length_filter_mono) (smt (verit))
    also have "int \<dots> \<le> series_sum (now - w) (series_of_log log)"
      unfolding ex [symmetric] w by (rule series_sum_anti) simp
    finally show ?thesis by simp
  qed
qed

section \<open>The store over time\<close>

text \<open>The operations on the store, each with the clock it reads.\<close>

datatype store_op = OpInc counter_key int | OpGc int

fun op_time :: "store_op \<Rightarrow> int" where
  "op_time (OpInc k t) = t"
| "op_time (OpGc t) = t"

fun store_step :: "store_op \<Rightarrow> counter_store \<Rightarrow> counter_store" where
  "store_step (OpInc k t) cs = store_increment k t cs"
| "store_step (OpGc t) cs = store_gc t cs"

definition store_run :: "store_op list \<Rightarrow> counter_store" where
  "store_run ops = fold store_step ops empty_store"

text \<open>The times of the increments made to a key.\<close>

fun key_log :: "counter_key \<Rightarrow> store_op list \<Rightarrow> int list" where
  "key_log k [] = []"
| "key_log k (OpInc k' t # ops) = (if k' = k then t # key_log k ops else key_log k ops)"
| "key_log k (OpGc t # ops) = key_log k ops"

definition ops_ok :: "store_op list \<Rightarrow> bool" where
  "ops_ok ops \<longleftrightarrow> sorted (map op_time ops) \<and> length ops < 2 ^ 32 \<and>
     list_all (\<lambda>x. 3600 \<le> op_time x \<and> op_time x < 60 * 2 ^ 32) ops"

lemma key_log_append [simp]: "key_log k (xs @ ys) = key_log k xs @ key_log k ys"
  by (induction k xs rule: key_log.induct) auto

lemma key_log_times: "set (key_log k ops) \<subseteq> op_time ` set ops"
  by (induction k ops rule: key_log.induct) auto

lemma key_log_length: "length (key_log k ops) \<le> length ops"
proof (induction ops)
  case (Cons x ops)
  then show ?case by (cases x) auto
qed simp

lemma key_log_sorted: "sorted (map op_time ops) \<Longrightarrow> sorted (key_log k ops)"
  using key_log_times by (induction k ops rule: key_log.induct) (auto simp: image_iff, fastforce)

lemma key_log_ok:
  assumes "ops_ok ops"
  shows "log_ok (key_log k ops)"
proof -
  have "\<forall>t \<in> set (key_log k ops). 0 \<le> t \<and> t < 60 * 2 ^ 32"
    using assms key_log_times [of k ops] by (fastforce simp: ops_ok_def list_all_iff)
  then show ?thesis
    using assms key_log_sorted [of ops k] key_log_length [of k ops]
    unfolding log_ok_def ops_ok_def list_all_iff by linarith
qed

text \<open>
  Garbage collection is unobservable. \<open>stale h v\<close>: the slot's bucket ended an hour before
  \<open>h\<close>, so no window read at or after \<open>h\<close> counts it; \<open>gc_rel\<close> relates a series as stored to
  the series its log determines: equal, but for stale slots that were reset.
\<close>

definition stale :: "int \<Rightarrow> u64 \<Rightarrow> bool" where
  "stale h v \<longleftrightarrow> 60 * uint (slotEpoch v) + 60 \<le> h - 3600"

definition gc_rel :: "int \<Rightarrow> series \<Rightarrow> series \<Rightarrow> bool" where
  "gc_rel h = list_all2 (\<lambda>v w. v = w \<or> (v = 0 \<and> stale h w))"

definition stored :: "counter_store \<Rightarrow> counter_key \<Rightarrow> series" where
  "stored cs k = (case cs (shard k) k of None \<Rightarrow> new_series | Some s \<Rightarrow> s)"

lemma series_sum_zeros: "series_sum ws new_series = 0"
  by (simp add: new_series_def series_sum_def slotCount_def sum_list_replicate)

lemma store_sum_stored: "store_sum k ws cs = series_sum ws (stored cs k)"
  by (simp add: store_sum_def stored_def series_sum_zeros split: option.splits)

lemma stored_increment:
  "stored (store_increment k t cs) k' =
     (if k' = k then series_increment t (stored cs k) else stored cs k')"
  by (auto simp: stored_def store_increment_def Let_def)

lemma contrib_stale: "stale h w \<Longrightarrow> h - 3600 \<le> ws \<Longrightarrow> contrib ws w = 0"
  by (simp add: contrib_def stale_def)

lemma series_sum_gc_rel:
  assumes "gc_rel h s s'" and "h - 3600 \<le> ws"
  shows "series_sum ws s = series_sum ws s'"
proof -
  have "map (contrib ws) s = map (contrib ws) s'"
    using assms(1) unfolding gc_rel_def
    by (induction rule: list_all2_induct)
       (auto simp: contrib_stale [OF _ assms(2)], simp add: contrib_def slotCount_def)
  then show ?thesis
    by (simp only: series_sum_def contrib_def [abs_def] counterBucketSeconds_def)
qed

lemma gc_rel_refl [simp]: "gc_rel h s s"
  by (simp add: gc_rel_def list_all2_refl)

lemma gc_rel_mono: "gc_rel h s s' \<Longrightarrow> h \<le> h' \<Longrightarrow> gc_rel h' s s'"
  unfolding gc_rel_def by (erule list_all2_mono) (auto simp: stale_def)

lemma gc_rel_zero_stale:
  assumes "gc_rel h s s'" and "\<forall>v \<in> set s. stale h v" and "length s' = counterSlots"
  shows "gc_rel h new_series s'"
proof -
  have "length s = counterSlots" using assms(1,3) by (simp add: gc_rel_def list_all2_lengthD)
  have "stale h (s' ! i)" if "i < counterSlots" for i
    using assms(1,2) that \<open>length s = counterSlots\<close>
    by (auto simp: gc_rel_def list_all2_conv_all_nth) (metis nth_mem)
  then show ?thesis
    using assms(3) by (simp add: gc_rel_def list_all2_conv_all_nth new_series_def)
qed

lemma bump_gc:
  assumes w: "stale h w" and t: "h \<le> t" "3600 \<le> t" "t < 60 * 2 ^ 32"
  shows "bump (epoch_of t) 0 = bump (epoch_of t) w"
proof -
  have m: "minute t < 2 ^ 32" using t by (intro minute_bound) simp_all
  have u: "uint (epoch_of t) = int (minute t)"
    using t by (simp only: epoch_of_minute uint_nat unat_of_nat32 [OF m])
  have "60 * int (minute t) > t - 60"
    using bucket_start_bounds(2) [of t] t by (simp add: bucket_start_minute)
  then have "uint (epoch_of t) \<noteq> uint (slotEpoch w)" and "uint (epoch_of t) \<noteq> 0"
    using w t u unfolding stale_def by linarith+
  then have "slotEpoch w \<noteq> epoch_of t" and "slotEpoch 0 \<noteq> epoch_of t"
    by (auto simp: slotEpoch_def)
  then show ?thesis by (simp add: bump_def)
qed

lemma gc_rel_increment:
  assumes r: "gc_rel h s s'" and len: "length s' = counterSlots"
    and t: "h \<le> t" "3600 \<le> t" "t < 60 * 2 ^ 32"
  shows "gc_rel t (series_increment t s) (series_increment t s')"
proof -
  define i where "i = slot_index (epoch_of t)"
  have i: "i < length s'" by (simp add: i_def slot_index_def counterSlots_eq len nat_less_iff)
  have r': "gc_rel t s s'" using r t(1) by (rule gc_rel_mono)
  have "s ! i = s' ! i \<or> s ! i = 0 \<and> stale h (s' ! i)"
    using r i by (simp add: gc_rel_def list_all2_conv_all_nth)
  then have "bump (epoch_of t) (s ! i) = bump (epoch_of t) (s' ! i)"
    using bump_gc [OF _ t] by auto
  then show ?thesis
    using r' unfolding series_increment_def Let_def i_def [symmetric] gc_rel_def
    by (intro list_all2_update_cong) simp_all
qed

lemma stored_gc:
  assumes "3600 \<le> t" and "t < 60 * 2 ^ 32"
  shows "stored (store_gc t cs) k = stored cs k \<or>
    (stored (store_gc t cs) k = new_series \<and> (\<forall>v \<in> set (stored cs k). stale t v))"
proof -
  define c where "c = (t - 3600) div 60"
  have "0 \<le> c" "c < 2 ^ 32" using assms by (simp_all add: c_def)
  then have "uint (word_of_int c :: u32) = c" by (simp add: uint_word_of_int)
  moreover have "go_div (t - 3600) 60 = c" using assms by (simp add: c_def)
  ultimately have cut: "(slotEpoch v \<ge> word_of_int (go_div (t - 3600) 60)) = (c \<le> uint (slotEpoch v))" for v
    by (simp add: word_le_def)
  have "stale t v" if "\<not> c \<le> uint (slotEpoch v)" for v
  proof -
    have "60 * c \<le> t - 3600" unfolding c_def by linarith
    with that show ?thesis by (simp add: stale_def)
  qed
  then show ?thesis
    by (auto simp: stored_def store_gc_def counter_consts cut shard_bound list_ex_iff
        split: option.splits)
qed

lemma store_run_rel:
  assumes "ops_ok ops" and "\<forall>x \<in> set ops. op_time x \<le> h"
  shows "gc_rel h (stored (store_run ops) k) (series_of_log (key_log k ops))"
  using assms
proof (induction ops arbitrary: h rule: rev_induct)
  case Nil
  then show ?case by (simp add: store_run_def stored_def empty_store_def new_series_log)
next
  case (snoc x ops)
  let ?t = "op_time x"
  have ok: "ops_ok ops" and le: "\<forall>y \<in> set ops. op_time y \<le> ?t"
    and t: "3600 \<le> ?t" "?t < 60 * 2 ^ 32" and h: "?t \<le> h"
    using snoc.prems by (auto simp: ops_ok_def sorted_append)
  note IH = snoc.IH [OF ok le]
  have run: "store_run (ops @ [x]) = store_step x (store_run ops)" by (simp add: store_run_def)
  have "gc_rel ?t (stored (store_run (ops @ [x])) k) (series_of_log (key_log k (ops @ [x])))"
  proof (cases x)
    case (OpInc k' t)
    show ?thesis
    proof (cases "k' = k")
      case True
      with OpInc have "key_log k (ops @ [x]) = key_log k ops @ [t]" by simp
      with key_log_ok [OF snoc.prems(1), of k] have "log_ok (key_log k ops @ [t])" by simp
      note inc = series_increment_log [OF this]
      have "gc_rel t (series_increment t (stored (store_run ops) k))
          (series_increment t (series_of_log (key_log k ops)))"
        using IH OpInc t by (intro gc_rel_increment [of t]) (simp_all add: counterSlots_eq)
      moreover have "stored (store_run (ops @ [x])) k = series_increment t (stored (store_run ops) k)"
        unfolding run using OpInc True by (simp add: stored_increment)
      ultimately show ?thesis using OpInc True inc by simp
    next
      case False
      with OpInc have "stored (store_run (ops @ [x])) k = stored (store_run ops) k"
        unfolding run by (simp add: stored_increment)
      with OpInc False IH show ?thesis by simp
    qed
  next
    case (OpGc t)
    then have "stored (store_run (ops @ [x])) k = stored (store_gc t (store_run ops)) k"
      unfolding run by simp
    moreover have "gc_rel t new_series (series_of_log (key_log k ops))"
      if "\<forall>v \<in> set (stored (store_run ops) k). stale t v"
      using IH OpGc by (intro gc_rel_zero_stale [OF _ that]) (simp_all add: counterSlots_eq)
    ultimately show ?thesis
      using OpGc IH stored_gc [of t "store_run ops" k] t by auto
  qed
  then show ?case using h by (rule gc_rel_mono)
qed

lemma store_sum_run:
  assumes "ops_ok ops" and "\<forall>x \<in> set ops. op_time x \<le> now" and "w \<le> 3600"
  shows "store_sum k (now - w) (store_run ops) = series_sum (now - w) (series_of_log (key_log k ops))"
  unfolding store_sum_stored
  by (rule series_sum_gc_rel [OF store_run_rel [OF assms(1,2)]]) (use assms(3) in simp)

section \<open>The counter interface\<close>

text \<open>
  What the executor relies on: a fresh store counts nothing, and incrementing a key is
  invisible through every other key.
\<close>

locale counter_api =
  fixes empty_st :: 's
    and incr :: "counter_key \<Rightarrow> int \<Rightarrow> 's \<Rightarrow> 's"
    and total :: "counter_key \<Rightarrow> int \<Rightarrow> 's \<Rightarrow> int"
  assumes total_empty: "total k ws empty_st = 0"
    and total_other: "k' \<noteq> k \<Longrightarrow> total k ws (incr k' t st) = total k ws st"
begin

lemma total_fold_other:
  "\<forall>kt \<in> set kts. fst kt \<noteq> k \<Longrightarrow>
     total k ws (fold (\<lambda>kt st. incr (fst kt) (snd kt) st) kts st) = total k ws st"
  by (induction kts arbitrary: st) (simp_all add: total_other)

lemma total_untouched:
  "\<forall>kt \<in> set kts. fst kt \<noteq> k \<Longrightarrow>
     total k ws (fold (\<lambda>kt st. incr (fst kt) (snd kt) st) kts empty_st) = 0"
  by (simp add: total_fold_other total_empty)

end

interpretation counters: counter_api empty_store store_increment store_sum
proof unfold_locales
  show "store_sum k ws empty_store = 0" for k ws
    by (simp add: store_sum_def empty_store_def)
qed (simp add: store_sum_stored stored_increment)

section \<open>Concurrent increments\<close>

text \<open>
  Workers increment one series concurrently: each loads its slot, computes the new word and
  swaps it in if the slot still holds what it loaded, else starts over. \<open>cs_calls\<close> and
  \<open>cs_log\<close> record the calls made and the swaps that succeeded, in order.
\<close>

datatype cas_pc = PIdle | PLoad int | PCas int u64

record cas_state =
  cs_series :: series
  cs_pcs :: "cas_pc list"
  cs_calls :: "int list"
  cs_log :: "int list"

definition slot_at :: "int \<Rightarrow> series \<Rightarrow> u64" where
  "slot_at t s = s ! slot_index (epoch_of t)"

inductive cas_step :: "cas_state \<Rightarrow> cas_state \<Rightarrow> bool" where
  cas_call: "i < length (cs_pcs s) \<Longrightarrow> cs_pcs s ! i = PIdle \<Longrightarrow>
     cas_step s (s\<lparr>cs_pcs := (cs_pcs s)[i := PLoad t], cs_calls := cs_calls s @ [t]\<rparr>)"
| cas_load: "i < length (cs_pcs s) \<Longrightarrow> cs_pcs s ! i = PLoad t \<Longrightarrow>
     cas_step s (s\<lparr>cs_pcs := (cs_pcs s)[i := PCas t (slot_at t (cs_series s))]\<rparr>)"
| cas_ok: "i < length (cs_pcs s) \<Longrightarrow> cs_pcs s ! i = PCas t old \<Longrightarrow> slot_at t (cs_series s) = old \<Longrightarrow>
     cas_step s (s\<lparr>cs_series := (cs_series s)[slot_index (epoch_of t) := bump (epoch_of t) old],
                  cs_pcs := (cs_pcs s)[i := PIdle], cs_log := cs_log s @ [t]\<rparr>)"
| cas_fail: "i < length (cs_pcs s) \<Longrightarrow> cs_pcs s ! i = PCas t old \<Longrightarrow> slot_at t (cs_series s) \<noteq> old \<Longrightarrow>
     cas_step s (s\<lparr>cs_pcs := (cs_pcs s)[i := PLoad t]\<rparr>)"

definition cas_init :: "nat \<Rightarrow> cas_state" where
  "cas_init n = \<lparr>cs_series = new_series, cs_pcs = replicate n PIdle, cs_calls = [], cs_log = []\<rparr>"

fun pending :: "cas_pc \<Rightarrow> int multiset" where
  "pending PIdle = {#}"
| "pending (PLoad t) = {#t#}"
| "pending (PCas t old) = {#t#}"

definition cas_inv :: "cas_state \<Rightarrow> bool" where
  "cas_inv s \<longleftrightarrow>
     cs_series s = fold series_increment (cs_log s) new_series \<and>
     mset (cs_calls s) = mset (cs_log s) + sum_list (map pending (cs_pcs s))"

lemma sum_list_update:
  "i < length xs \<Longrightarrow>
     sum_list (map f (xs[i := x])) + f (xs ! i) = sum_list (map f xs) + (f x :: 'b :: comm_monoid_add)"
  by (induction xs arbitrary: i) (auto simp: nth_Cons' ac_simps split: nat.splits)

lemma cas_step_inv [inv_intros]: "cas_step s s' \<Longrightarrow> cas_inv s \<Longrightarrow> cas_inv s'"
proof (induction rule: cas_step.induct)
  case (cas_call i s t)
  with sum_list_update [of i "cs_pcs s" pending "PLoad t"] show ?case
    by (simp add: cas_inv_def)
next
  case (cas_load i s t)
  with sum_list_update [of i "cs_pcs s" pending "PCas t (slot_at t (cs_series s))"] show ?case
    by (simp add: cas_inv_def)
next
  case (cas_ok i s t old)
  have "series_increment t (cs_series s)
      = (cs_series s)[slot_index (epoch_of t) := bump (epoch_of t) old]"
    using cas_ok by (simp add: series_increment_def Let_def slot_at_def)
  with cas_ok sum_list_update [of i "cs_pcs s" pending PIdle] show ?case
    by (simp add: cas_inv_def)
next
  case (cas_fail i s t old)
  with sum_list_update [of i "cs_pcs s" pending "PLoad t"] show ?case
    by (simp add: cas_inv_def)
qed

lemma pending_idle: "\<forall>pc \<in> set pcs. pc = PIdle \<Longrightarrow> sum_list (map pending pcs) = {#}"
  by (induction pcs) auto

lemma cas_init_inv: "cas_inv (cas_init n)"
  using pending_idle [of "replicate n PIdle"] by (simp add: cas_inv_def cas_init_def)

lemma cas_reach_inv: "cas_step\<^sup>*\<^sup>* (cas_init n) s \<Longrightarrow> cas_inv s"
  by (induction rule: rtranclp_induct) (auto intro: cas_init_inv cas_step_inv)

lemma cas_quiescent:
  assumes "cas_step\<^sup>*\<^sup>* (cas_init n) s" and "\<forall>pc \<in> set (cs_pcs s). pc = PIdle"
  shows "\<exists>log. mset log = mset (cs_calls s) \<and> cs_series s = fold series_increment log new_series"
  using cas_reach_inv [OF assms(1)] pending_idle [OF assms(2)] by (auto simp: cas_inv_def)

text \<open>
  The retry loop ends. A call that is about to load, or holds a value that went stale, has more
  to do than one that holds the current value; a successful swap finishes a call, and can only
  make the values of the others stale.
\<close>

definition pc_work :: "series \<Rightarrow> cas_pc \<Rightarrow> nat" where
  "pc_work s pc = (case pc of PIdle \<Rightarrow> 0 | PLoad t \<Rightarrow> 2 | PCas t old \<Rightarrow> if slot_at t s = old then 1 else 3)"

definition cas_work :: "cas_state \<Rightarrow> nat" where
  "cas_work s = sum_list (map (\<lambda>pc. size (pending pc)) (cs_pcs s)) * Suc (3 * length (cs_pcs s))
     + sum_list (map (pc_work (cs_series s)) (cs_pcs s))"

lemma pc_work_le: "sum_list (map (pc_work s) pcs) \<le> 3 * length pcs"
  by (induction pcs) (auto simp: pc_work_def split: cas_pc.split)

lemma cas_step_work: "cas_step s s' \<Longrightarrow> cs_calls s' = cs_calls s \<Longrightarrow> cas_work s' < cas_work s"
proof (induction rule: cas_step.induct)
  case (cas_load i s t)
  let ?pc = "PCas t (slot_at t (cs_series s))"
  from cas_load sum_list_update [of i "cs_pcs s" "\<lambda>pc. size (pending pc)" ?pc]
    sum_list_update [of i "cs_pcs s" "pc_work (cs_series s)" ?pc]
  show ?case by (simp add: cas_work_def pc_work_def)
next
  case (cas_ok i s t old)
  let ?pcs = "(cs_pcs s)[i := PIdle]"
  let ?series = "(cs_series s)[slot_index (epoch_of t) := bump (epoch_of t) old]"
  have "sum_list (map (\<lambda>pc. size (pending pc)) (cs_pcs s)) = Suc (sum_list (map (\<lambda>pc. size (pending pc)) ?pcs))"
    using cas_ok sum_list_update [of i "cs_pcs s" "\<lambda>pc. size (pending pc)" PIdle] by simp
  then show ?case using pc_work_le [of ?series ?pcs] by (simp add: cas_work_def)
next
  case (cas_fail i s t old)
  from cas_fail sum_list_update [of i "cs_pcs s" "\<lambda>pc. size (pending pc)" "PLoad t"]
    sum_list_update [of i "cs_pcs s" "pc_work (cs_series s)" "PLoad t"]
  show ?case by (simp add: cas_work_def pc_work_def)
qed simp

lemma cas_retries_end:
  assumes "\<And>i. cas_step (f i) (f (Suc i)) \<and> cs_calls (f (Suc i)) = cs_calls (f i)"
  shows False
proof -
  have "cas_work (f i) + i \<le> cas_work (f 0)" for i
  proof (induction i)
    case (Suc i)
    with cas_step_work [of "f i" "f (Suc i)"] assms [of i] show ?case by linarith
  qed simp
  from this [of "Suc (cas_work (f 0))"] show False by simp
qed

lemma fold_same_minute:
  assumes "\<forall>t \<in> set log. epoch_of t = epoch_of t0"
  shows "fold series_increment log s = fold series_increment (replicate (length log) t0) s"
  using assms
  by (induction log arbitrary: s) (simp_all add: series_increment_def)

lemma cas_one_minute:
  assumes run: "cas_step\<^sup>*\<^sup>* (cas_init n) s" and idle: "\<forall>pc \<in> set (cs_pcs s). pc = PIdle"
    and t0: "0 \<le> t0" "t0 < 60 * 2 ^ 32" and len: "length (cs_calls s) < 2 ^ 32"
    and same: "\<forall>t \<in> set (cs_calls s). t div 60 = t0 div 60"
    and now: "t0 \<le> now" "now - w \<le> bucket_start t0" "w < 3600"
  shows "series_sum (now - w) (cs_series s) = int (length (cs_calls s))"
proof -
  from cas_quiescent [OF run idle] obtain log where
    log: "mset log = mset (cs_calls s)" "cs_series s = fold series_increment log new_series" by blast
  have len': "length log = length (cs_calls s)" using log(1) by (metis size_mset)
  have set': "set log = set (cs_calls s)" using log(1) by (metis set_mset_mset)
  have ep: "epoch_of t = epoch_of t0" if "t \<in> set log" for t
  proof -
    have d: "t div 60 = t0 div 60" using same that set' by simp
    then have "0 \<le> t" using t0(1) by presburger
    with d t0 show ?thesis by (simp add: epoch_of_def counterBucketSeconds_def)
  qed
  have r: "log_ok (replicate (length log) t0)"
    using t0 len len' by (simp add: log_ok_def list_all_iff)
  have "cs_series s = series_of_log (replicate (length log) t0)"
    using log(2) fold_same_minute [of log t0] ep fold_series_log [OF r] by simp
  moreover have "window_exact now w" using now by (simp add: window_exact_def)
  ultimately show ?thesis
    using series_sum_exact [OF r, of now w] now len' by simp
qed

section \<open>Properties\<close>


definition sample_ops :: "store_op list" where
  "sample_ops = [OpInc (''u'', ''post'') 3660, OpInc (''v'', ''post'') 3670, OpInc (''u'', ''post'') 7290,
     OpGc 7300, OpInc (''u'', ''post'') 7320]"

lemma sample_ops_ok: "ops_ok sample_ops" "list_all (\<lambda>x. op_time x \<le> 7325) sample_ops"
  by (simp_all add: sample_ops_def ops_ok_def)




text \<open>
  C17: concurrent increments are linearizable and their retries end. However the loads and
  compare-and-swaps of any number of workers interleave, the series is at every moment what
  executing some of the calls made, one after the other, leaves; once no call is in flight
  these are all calls, so no increment is lost or doubled; and without new calls the workers
  cannot go on retrying forever.
\<close>

theorem increments_linearizable:
  assumes "cas_step\<^sup>*\<^sup>* (cas_init n) s"
  shows "(\<exists>log. mset log \<subseteq># mset (cs_calls s) \<and> cs_series s = fold series_increment log new_series \<and>
      (list_all (\<lambda>pc. pc = PIdle) (cs_pcs s) \<longrightarrow> mset log = mset (cs_calls s))) \<and>
    \<not> (\<exists>f. f 0 = s \<and> (\<forall>i :: nat. cas_step (f i) (f (Suc i)) \<and> cs_calls (f (Suc i)) = cs_calls (f i)))"
proof
  have "mset (cs_calls s) = mset (cs_log s) + sum_list (map pending (cs_pcs s))"
    and "cs_series s = fold series_increment (cs_log s) new_series"
    using cas_reach_inv [OF assms] by (simp_all add: cas_inv_def)
  then show "\<exists>log. mset log \<subseteq># mset (cs_calls s) \<and> cs_series s = fold series_increment log new_series \<and>
      (list_all (\<lambda>pc. pc = PIdle) (cs_pcs s) \<longrightarrow> mset log = mset (cs_calls s))"
    using pending_idle by (intro exI [of _ "cs_log s"]) (simp add: list_all_iff)
  show "\<not> (\<exists>f. f 0 = s \<and> (\<forall>i :: nat. cas_step (f i) (f (Suc i)) \<and> cs_calls (f (Suc i)) = cs_calls (f i)))"
    using cas_retries_end by blast
qed

definition contended :: "cas_pc \<Rightarrow> cas_pc \<Rightarrow> series \<Rightarrow> int list \<Rightarrow> cas_state" where
  "contended p q s log = \<lparr>cs_series = s, cs_pcs = [p, q], cs_calls = [60, 60], cs_log = log\<rparr>"

lemma contended_run:
  "\<exists>s. cas_step\<^sup>*\<^sup>* (cas_init 2) s \<and> cs_pcs s = [PIdle, PIdle] \<and> cs_calls s = [60, 60]"
proof -
  define v0 where "v0 = slot_at 60 new_series"
  define s1 where "s1 = new_series[slot_index (epoch_of 60) := bump (epoch_of 60) v0]"
  define v1 where "v1 = slot_at 60 s1"
  define s2 where "s2 = s1[slot_index (epoch_of 60) := bump (epoch_of 60) v1]"
  have init: "cas_init 2 = \<lparr>cs_series = new_series, cs_pcs = [PIdle, PIdle], cs_calls = [], cs_log = []\<rparr>"
    by (simp add: cas_init_def numeral_2_eq_2)
  have a: "cas_step (cas_init 2) \<lparr>cs_series = new_series, cs_pcs = [PLoad 60, PIdle], cs_calls = [60], cs_log = []\<rparr>"
    using cas_call [of 0 "cas_init 2" 60] by (simp add: init)
  have b: "cas_step \<lparr>cs_series = new_series, cs_pcs = [PLoad 60, PIdle], cs_calls = [60], cs_log = []\<rparr>
      (contended (PLoad 60) (PLoad 60) new_series [])"
    using cas_call [of 1 "\<lparr>cs_series = new_series, cs_pcs = [PLoad 60, PIdle], cs_calls = [60], cs_log = []\<rparr>" 60]
    by (simp add: contended_def)
  have c: "cas_step (contended (PLoad 60) (PLoad 60) new_series []) (contended (PCas 60 v0) (PLoad 60) new_series [])"
    using cas_load [of 0 "contended (PLoad 60) (PLoad 60) new_series []" 60] by (simp add: contended_def v0_def)
  have d: "cas_step (contended (PCas 60 v0) (PLoad 60) new_series []) (contended PIdle (PLoad 60) s1 [60])"
    using cas_ok [of 0 "contended (PCas 60 v0) (PLoad 60) new_series []" 60 v0]
    by (simp add: contended_def v0_def s1_def)
  have e: "cas_step (contended PIdle (PLoad 60) s1 [60]) (contended PIdle (PCas 60 v1) s1 [60])"
    using cas_load [of 1 "contended PIdle (PLoad 60) s1 [60]" 60] by (simp add: contended_def v1_def)
  have f: "cas_step (contended PIdle (PCas 60 v1) s1 [60]) (contended PIdle PIdle s2 [60, 60])"
    using cas_ok [of 1 "contended PIdle (PCas 60 v1) s1 [60]" 60 v1]
    by (simp add: contended_def v1_def s2_def)
  have "cas_step\<^sup>*\<^sup>* (cas_init 2) (contended PIdle PIdle s2 [60, 60])"
    using a b c d e f by (meson converse_rtranclp_into_rtranclp rtranclp.rtrancl_refl)
  then show ?thesis by (intro exI [of _ "contended PIdle PIdle s2 [60, 60]"]) (simp add: contended_def)
qed

theorem increments_linearizable_witness:
  "\<exists>s log. cas_step\<^sup>*\<^sup>* (cas_init 2) s \<and> length log = 2 \<and>
     cs_series s = fold series_increment log new_series"
proof -
  from contended_run obtain s where s: "cas_step\<^sup>*\<^sup>* (cas_init 2) s" "cs_pcs s = [PIdle, PIdle]"
    "cs_calls s = [60, 60]" by blast
  from increments_linearizable [OF s(1)] s(2) obtain log where
    "mset log = mset (cs_calls s)" "cs_series s = fold series_increment log new_series" by auto
  moreover from this s(3) have "length log = 2" by (metis length_Cons list.size(3) mset_eq_length numeral_2_eq_2)
  ultimately show ?thesis using s(1) by blast
qed

end
