(* ===== verification/Env.thy ===== *)
theory Env
  imports Verdict Counters
begin

text \<open>
  The evaluation environment behind the stateful builtins: the interface \<^verbatim>\<open>EvalEnv\<close> and
  the builtins of \<^verbatim>\<open>rules/udfs.go\<close> that use it, and the worker of \<^verbatim>\<open>executor/env.go\<close>
  that implements it. The interface is a record of operations; its laws are the locale
  \<open>eval_env_laws\<close>, in which the builtins' memoisation is proved, and the worker is an
  interpretation.
\<close>

section \<open>The interface and its client\<close>

record 's eval_env =
  ee_Counter :: "string \<Rightarrow> string \<Rightarrow> int \<Rightarrow> 's \<Rightarrow> (string + int) \<times> 's"
  ee_MemoGet :: "string \<Rightarrow> 's \<Rightarrow> sval option"
  ee_MemoSet :: "string \<Rightarrow> sval \<Rightarrow> 's \<Rightarrow> 's"
  ee_RegexMatch :: "string \<Rightarrow> string \<Rightarrow> 's \<Rightarrow> (string + bool) \<times> 's"

text \<open>
  Each builtin takes the thread's environment, if any, and its unpacked arguments, or the
  error of \<^verbatim>\<open>UnpackPositionalArgs\<close>. \<open>call\<close> is \<^verbatim>\<open>starlark.Call\<close> on the thread: it may change
  the state through nested builtins.
\<close>

definition memoBuiltin ::
  "'s eval_env option \<Rightarrow> (nat \<Rightarrow> 's \<Rightarrow> (string + sval) \<times> 's) \<Rightarrow> string + string \<times> nat \<Rightarrow> 's
     \<Rightarrow> (builtin_error + sval) \<times> 's" where
  "memoBuiltin envo call args s =
     (case args of
        Inl e \<Rightarrow> (Inl (UnpackError e), s)
      | Inr (key, fn) \<Rightarrow>
     (case envo of
        None \<Rightarrow> (Inl (NoEvalContext ''memo''), s)
      | Some e \<Rightarrow>
     (case ee_MemoGet e key s of
        Some cached \<Rightarrow> (Inr cached, s)
      | None \<Rightarrow>
     (case call fn s of
        (Inl err, s') \<Rightarrow> (Inl (MemoFailed key err), s')
      | (Inr v, s') \<Rightarrow> (Inr v, ee_MemoSet e key v s')))))"

definition counterBuiltin ::
  "'s eval_env option \<Rightarrow> string + string \<times> string \<times> int \<Rightarrow> 's \<Rightarrow> (builtin_error + sval) \<times> 's" where
  "counterBuiltin envo args s =
     (case args of
        Inl e \<Rightarrow> (Inl (UnpackError e), s)
      | Inr (entityID, eventType, windowSeconds) \<Rightarrow>
     (case envo of
        None \<Rightarrow> (Inl (NoEvalContext ''counter''), s)
      | Some e \<Rightarrow>
     (case ee_Counter e entityID eventType windowSeconds s of
        (Inl err, s') \<Rightarrow> (Inl (EnvError err), s')
      | (Inr n, s') \<Rightarrow> (Inr (SInt n), s'))))"

definition regexMatchBuiltin ::
  "'s eval_env option \<Rightarrow> string + string \<times> string \<Rightarrow> 's \<Rightarrow> (builtin_error + sval) \<times> 's" where
  "regexMatchBuiltin envo args s =
     (case args of
        Inl e \<Rightarrow> (Inl (UnpackError e), s)
      | Inr (pattern, text) \<Rightarrow>
     (case envo of
        None \<Rightarrow> (Inl (NoEvalContext ''regex_match''), s)
      | Some e \<Rightarrow>
     (case ee_RegexMatch e pattern text s of
        (Inl err, s') \<Rightarrow> (Inl (EnvError err), s')
      | (Inr matched, s') \<Rightarrow> (Inr (SBool matched), s'))))"

text \<open>The stateless builtins; \<^verbatim>\<open>log\<close> appends to the log, \<^verbatim>\<open>now\<close> reads the clock.\<close>

definition nowBuiltin :: "int \<Rightarrow> builtin_error + sval" where
  "nowBuiltin now = Inr (SInt now)"

definition logBuiltin :: "string + string \<Rightarrow> string list \<Rightarrow> (builtin_error + sval) \<times> string list" where
  "logBuiltin args out =
     (case args of
        Inl e \<Rightarrow> (Inl (UnpackError e), out)
      | Inr message \<Rightarrow> (Inr SNone, out @ [message]))"

definition hashBuiltin :: "(bytes \<Rightarrow> bytes) \<Rightarrow> string + string \<Rightarrow> builtin_error + sval" where
  "hashBuiltin sha256 args =
     (case args of
        Inl e \<Rightarrow> Inl (UnpackError e)
      | Inr v \<Rightarrow> Inr (SString (hex_encode (sha256 v))))"

text \<open>
  The laws of the interface: the memo cache is a map, and the other two operations leave it
  alone.
\<close>

locale eval_env_laws =
  fixes E :: "'s eval_env"
  assumes memo_same: "ee_MemoGet E k (ee_MemoSet E k v s) = Some v"
    and memo_other: "k' \<noteq> k \<Longrightarrow> ee_MemoGet E k' (ee_MemoSet E k v s) = ee_MemoGet E k' s"
    and counter_memo: "ee_MemoGet E k (snd (ee_Counter E i t w s)) = ee_MemoGet E k s"
    and regex_memo: "ee_MemoGet E k (snd (ee_RegexMatch E p x s)) = ee_MemoGet E k s"
begin

text \<open>After a successful \<^verbatim>\<open>memo\<close>, the same key yields the same value and calls nothing.\<close>

lemma memo_cached:
  assumes "memoBuiltin (Some E) call (Inr (k, f)) s = (Inr v, s')"
  shows "memoBuiltin (Some E) call' (Inr (k, f')) s' = (Inr v, s')"
proof -
  have "ee_MemoGet E k s' = Some v"
    using assms by (auto simp: memoBuiltin_def memo_same split: option.splits prod.splits sum.splits)
  then show ?thesis by (simp add: memoBuiltin_def)
qed

lemma counter_keeps_memo:
  "ee_MemoGet E k (snd (counterBuiltin (Some E) args s)) = ee_MemoGet E k s"
  using counter_memo
  by (auto simp: counterBuiltin_def split: sum.splits prod.splits) (metis snd_conv)+

lemma regex_keeps_memo:
  "ee_MemoGet E k (snd (regexMatchBuiltin (Some E) args s)) = ee_MemoGet E k s"
  using regex_memo
  by (auto simp: regexMatchBuiltin_def split: sum.splits prod.splits) (metis snd_conv)+

lemma memo_survives_builtins:
  assumes "memoBuiltin (Some E) call (Inr (k, f)) s = (Inr v, s1)"
    and "s2 = snd (counterBuiltin (Some E) cargs s1)"
    and "s3 = snd (regexMatchBuiltin (Some E) rargs s2)"
  shows "memoBuiltin (Some E) call' (Inr (k, f')) s3 = (Inr v, s3)"
proof -
  have "ee_MemoGet E k s1 = Some v"
    using assms(1) by (auto simp: memoBuiltin_def memo_same split: option.splits prod.splits sum.splits)
  then have "ee_MemoGet E k s3 = Some v"
    by (simp add: assms(2,3) counter_keeps_memo regex_keeps_memo)
  then show ?thesis by (simp add: memoBuiltin_def)
qed

end

section \<open>The worker\<close>

text \<open>
  The worker's state: its memo cache, its compiled patterns, the event and rule it is on, and
  the parts of its reusable thread that the executor reads and sets.
\<close>

record 're worker =
  w_memo :: "sval strmap"
  w_regexCache :: "'re strmap"
  w_curEntity :: string
  w_curRule :: string
  w_stepsExceeded :: bool
  w_cancelled :: bool
  w_steps :: nat
  w_maxSteps :: nat

datatype counter_error = WindowTooSmall | WindowTooLarge | KeyNotAffine string string

definition affineKey :: "string \<Rightarrow> string \<Rightarrow> bool" where
  "affineKey key entity \<longleftrightarrow>
     key = entity \<or>
     (length key > length entity + 1 \<and> key ! length entity = CHR '':'' \<and>
      take (length entity) key = entity)"

text \<open>\<open>t1\<close> is the clock at the increment, \<open>t2\<close> at the read (\<^verbatim>\<open>CounterSum\<close>).\<close>

definition CounterSum :: "string \<Rightarrow> string \<Rightarrow> int \<Rightarrow> int \<Rightarrow> counter_store \<Rightarrow> int" where
  "CounterSum entityID eventType windowSeconds t cs =
     (let windowStart = t - windowSeconds in store_sum (entityID, eventType) windowStart cs)"

definition Counter ::
  "bool \<Rightarrow> string \<Rightarrow> int \<Rightarrow> int \<Rightarrow> string \<Rightarrow> string \<Rightarrow> int \<Rightarrow> counter_store
     \<Rightarrow> (counter_error + int) \<times> counter_store" where
  "Counter counterAffinity curEntity t1 t2 entityID eventType windowSeconds cs =
     (if windowSeconds < 1 then (Inl WindowTooSmall, cs)
      else if windowSeconds > counterMaxWindowSeconds then (Inl WindowTooLarge, cs)
      else if counterAffinity \<and> \<not> affineKey entityID curEntity
      then (Inl (KeyNotAffine entityID curEntity), cs)
      else let cs' = store_increment (entityID, eventType) t1 cs
           in (Inr (CounterSum entityID eventType windowSeconds t2 cs'), cs'))"

definition MemoGet :: "string \<Rightarrow> 're worker \<Rightarrow> sval option" where
  "MemoGet key w = map_of (w_memo w) key"

definition MemoSet :: "string \<Rightarrow> sval \<Rightarrow> 're worker \<Rightarrow> 're worker" where
  "MemoSet key v w = w\<lparr>w_memo := alist_upd (w_memo w) key v\<rparr>"

text \<open>\<open>compile\<close> and \<open>match_re\<close> are the \<^verbatim>\<open>regexp\<close> package.\<close>

definition RegexMatch ::
  "(string \<Rightarrow> string + 're) \<Rightarrow> ('re \<Rightarrow> string \<Rightarrow> bool) \<Rightarrow> string \<Rightarrow> string \<Rightarrow> 're worker
     \<Rightarrow> (string + bool) \<times> 're worker" where
  "RegexMatch compile match_re pattern text w =
     (case map_of (w_regexCache w) pattern of
        Some re \<Rightarrow> (Inr (match_re re text), w)
      | None \<Rightarrow>
          (case compile pattern of
             Inl e \<Rightarrow> (Inl e, w)
           | Inr re \<Rightarrow> (Inr (match_re re text),
                       w\<lparr>w_regexCache := alist_upd (w_regexCache w) pattern re\<rparr>)))"

text \<open>
  The worker as an \<^verbatim>\<open>EvalEnv\<close>: its state with the counter store all workers share. The
  clocks of a \<open>counter()\<close> call and the texts of its errors are parameters.
\<close>

definition worker_env ::
  "bool \<Rightarrow> int \<Rightarrow> int \<Rightarrow> (counter_error \<Rightarrow> string) \<Rightarrow> (string \<Rightarrow> string + 're) \<Rightarrow> ('re \<Rightarrow> string \<Rightarrow> bool)
     \<Rightarrow> ('re worker \<times> counter_store) eval_env" where
  "worker_env aff t1 t2 txt compile match_re =
     \<lparr>ee_Counter = (\<lambda>i t win (w, cs).
        (case Counter aff (w_curEntity w) t1 t2 i t win cs of
           (r, cs') \<Rightarrow> (map_sum txt id r, (w, cs')))),
      ee_MemoGet = (\<lambda>k (w, cs). MemoGet k w),
      ee_MemoSet = (\<lambda>k v (w, cs). (MemoSet k v w, cs)),
      ee_RegexMatch = (\<lambda>p x (w, cs).
        (case RegexMatch compile match_re p x w of (r, w') \<Rightarrow> (r, (w', cs))))\<rparr>"

interpretation worker: eval_env_laws "worker_env aff t1 t2 txt compile match_re"
  by unfold_locales
     (auto simp: worker_env_def MemoGet_def MemoSet_def RegexMatch_def
       split: prod.splits option.splits sum.splits)

section \<open>Affinity\<close>

lemma affineKey_iff:
  "affineKey key entity \<longleftrightarrow>
     key = entity \<or> (\<exists>scope. scope \<noteq> '''' \<and> key = entity @ '':'' @ scope)"
proof
  assume "affineKey key entity"
  then consider "key = entity"
    | "length key > length entity + 1" "key ! length entity = CHR '':''" "take (length entity) key = entity"
    by (auto simp: affineKey_def)
  then show "key = entity \<or> (\<exists>scope. scope \<noteq> '''' \<and> key = entity @ '':'' @ scope)"
  proof cases
    case 2
    have "key = take (length entity) key @ key ! length entity # drop (Suc (length entity)) key"
      using 2(1) by (intro id_take_nth_drop) simp
    with 2 have "key = entity @ '':'' @ drop (Suc (length entity)) key" by simp
    moreover have "drop (Suc (length entity)) key \<noteq> ''''" using 2(1) by simp
    ultimately show ?thesis by blast
  qed simp
qed (auto simp: affineKey_def)

section \<open>The counter operation\<close>

lemma Counter_rejects:
  "windowSeconds < 1 \<or> windowSeconds > 3600 \<or> (aff \<and> \<not> affineKey i cur) \<Longrightarrow>
     \<exists>err. Counter aff cur t1 t2 i et windowSeconds cs = (Inl err, cs)"
  by (auto simp: Counter_def counterMaxWindowSeconds_def)

lemma Counter_accepts:
  "1 \<le> w \<Longrightarrow> w \<le> 3600 \<Longrightarrow> \<not> aff \<or> affineKey i cur \<Longrightarrow>
     Counter aff cur t1 t2 i et w cs =
       (Inr (store_sum (i, et) (t2 - w) (store_increment (i, et) t1 cs)), store_increment (i, et) t1 cs)"
  by (auto simp: Counter_def counterMaxWindowSeconds_def CounterSum_def Let_def)

lemma store_run_snoc: "store_run (ops @ [x]) = store_step x (store_run ops)"
  by (simp add: store_run_def)

lemma Counter_exact:
  assumes ops: "ops_ok (ops @ [OpInc (i, et) t1])" and now: "t1 \<le> t2"
    and w: "1 \<le> w" "w \<le> 3600" "window_exact t2 w" and aff: "\<not> aff \<or> affineKey i cur"
  shows "Counter aff cur t1 t2 i et w (store_run ops) =
    (Inr (int (length (filter (\<lambda>t. t2 - w \<le> bucket_start t) (key_log (i, et) ops @ [t1])))),
     store_run (ops @ [OpInc (i, et) t1]))"
proof -
  have le: "\<forall>x \<in> set (ops @ [OpInc (i, et) t1]). op_time x \<le> t2"
    using ops now by (auto simp: ops_ok_def sorted_append)
  have run: "store_run (ops @ [OpInc (i, et) t1]) = store_increment (i, et) t1 (store_run ops)"
    by (simp add: store_run_snoc)
  have log: "key_log (i, et) (ops @ [OpInc (i, et) t1]) = key_log (i, et) ops @ [t1]" by simp
  have "\<forall>u \<in> set (key_log (i, et) ops @ [t1]). u \<le> t2"
    using key_log_times [of "(i, et)" "ops @ [OpInc (i, et) t1]"] le by (auto simp: log)
  then have "series_sum (t2 - w) (series_of_log (key_log (i, et) ops @ [t1]))
      = int (length (filter (\<lambda>t. t2 - w \<le> bucket_start t) (key_log (i, et) ops @ [t1])))"
    using key_log_ok [OF ops, of "(i, et)"] w(3) by (intro series_sum_exact) (simp_all add: log)
  then show ?thesis
    using store_sum_run [OF ops le w(2), of "(i, et)"]
    unfolding Counter_accepts [OF w(1,2) aff] run [symmetric] log by simp
qed

section \<open>The pattern cache\<close>

definition regex_ok :: "(string \<Rightarrow> string + 're) \<Rightarrow> 're worker \<Rightarrow> bool" where
  "regex_ok compile w \<longleftrightarrow> (\<forall>p re. map_of (w_regexCache w) p = Some re \<longrightarrow> compile p = Inr re)"

lemma RegexMatch_ok [inv_intros]:
  "regex_ok compile w \<Longrightarrow> regex_ok compile (snd (RegexMatch compile match_re p x w))"
  by (auto simp: RegexMatch_def regex_ok_def split: option.splits sum.splits)

lemma RegexMatch_transparent:
  "regex_ok compile w \<Longrightarrow>
     fst (RegexMatch compile match_re p x w) = map_sum id (\<lambda>re. match_re re x) (compile p)"
  by (auto simp: RegexMatch_def regex_ok_def split: option.splits sum.splits)

section \<open>Properties\<close>



text \<open>
  \<^verbatim>\<open>memo\<close> computes a key once per event: after a successful call, and whatever
  \<^verbatim>\<open>counter()\<close> and \<^verbatim>\<open>regex_match()\<close> calls follow on the worker, the same key yields the same
  value, without calling its function and without changing the state.
\<close>

lemma memo_computes_once:
  assumes "memoBuiltin (Some (worker_env aff t1 t2 txt compile match_re)) call (Inr (k, f)) s = (Inr v, s1)"
    and "s2 = snd (counterBuiltin (Some (worker_env aff t1 t2 txt compile match_re)) cargs s1)"
    and "s3 = snd (regexMatchBuiltin (Some (worker_env aff t1 t2 txt compile match_re)) rargs s2)"
  shows "memoBuiltin (Some (worker_env aff t1 t2 txt compile match_re)) call' (Inr (k, f')) s3 = (Inr v, s3)"
  using assms by (rule worker.memo_survives_builtins)

definition sample_worker :: "string worker" where
  "sample_worker = \<lparr>w_memo = [], w_regexCache = [], w_curEntity = ''u'', w_curRule = ''r'',
     w_stepsExceeded = False, w_cancelled = False, w_steps = 0, w_maxSteps = 10\<rparr>"

definition sample_worker_env :: "(string worker \<times> counter_store) eval_env" where
  "sample_worker_env = worker_env False 7000 7001 (\<lambda>_. ''rejected'') Inr has_prefix"

lemma memo_computes_once_witness:
  "\<exists>s1. memoBuiltin (Some sample_worker_env) (\<lambda>f s. (Inr (SInt 5), s)) (Inr (''k'', 0)) (sample_worker, empty_store)
       = (Inr (SInt 5), s1) \<and>
     fst (memoBuiltin (Some sample_worker_env) (\<lambda>f s. (Inl ''not called'', s)) (Inr (''k'', 1))
       (snd (regexMatchBuiltin (Some sample_worker_env) (Inr (''a'', ''ab''))
         (snd (counterBuiltin (Some sample_worker_env) (Inr (''u'', ''post'', 60)) s1))))) = Inr (SInt 5)"
proof -
  obtain s1 where s1: "memoBuiltin (Some sample_worker_env) (\<lambda>f s. (Inr (SInt 5), s)) (Inr (''k'', 0))
      (sample_worker, empty_store) = (Inr (SInt 5), s1)"
    by (simp add: memoBuiltin_def sample_worker_env_def worker_env_def MemoGet_def sample_worker_def)
  from memo_computes_once [OF this [unfolded sample_worker_env_def] refl refl]
  show ?thesis using s1 by (intro exI [of _ s1]) (simp add: sample_worker_env_def)
qed

end
