(* ===== verification/LazyEvent.thy ===== *)
theory LazyEvent
  imports Match
begin

text \<open>
  \<^verbatim>\<open>executor/event.go\<close>: the lazy, immutable view of an event that rules receive. A view is
  an object with its source map and a memo cache, shared by reference, so the model keeps a
  heap of views: \<open>SEvent a\<close> refers to the view at address \<open>a\<close>, and conversion allocates. The
  lemmas show that reading never changes a source, that what is read denotes the source's
  value, that a second read returns the very same value, and that following a path through
  views agrees with the tier-1 resolver.
\<close>

record lazy_dict =
  ld_src :: payload
  ld_cache :: "sval strmap"

type_synonym heap = "lazy_dict list"

section \<open>Conversion\<close>

text \<open>Maps become new views; other composites are converted element by element.\<close>

fun lazyConvert :: "goval \<Rightarrow> heap \<Rightarrow> sval \<times> heap"
  and lazyConvertList :: "goval list \<Rightarrow> heap \<Rightarrow> sval list \<times> heap" where
  "lazyConvert ANil h = (SNone, h)"
| "lazyConvert (ABool b) h = (SBool b, h)"
| "lazyConvert (AFloat f) h = (SFloat f, h)"
| "lazyConvert (AInt i) h = (SInt i, h)"
| "lazyConvert (AInt64 i) h = (SInt i, h)"
| "lazyConvert (AString s) h = (SString s, h)"
| "lazyConvert (AList vs) h = (let (elems, h') = lazyConvertList vs h in (SList elems, h'))"
| "lazyConvert (AMap m) h = (SEvent (length h), h @ [\<lparr>ld_src = m, ld_cache = []\<rparr>])"
| "lazyConvertList [] h = ([], h)"
| "lazyConvertList (v # vs) h =
     (let (e, h1) = lazyConvert v h; (es, h2) = lazyConvertList vs h1 in (e # es, h2))"

definition eventToStarlark :: "event \<Rightarrow> heap \<Rightarrow> sval \<times> heap" where
  "eventToStarlark ev h =
     (SEvent (length h),
      h @ [\<lparr>ld_src = [(''event_id'', AString (ev_EventID ev)),
                      (''event_type'', AString (ev_EventType ev)),
                      (''timestamp'', AInt64 (unix_seconds (ev_Timestamp ev))),
                      (''payload'', AMap (ev_Payload ev))],
            ld_cache = []\<rparr>])"

section \<open>Operations of a view\<close>

definition ld_value :: "nat \<Rightarrow> string \<Rightarrow> heap \<Rightarrow> sval \<times> heap" where
  "ld_value a key h =
     (case map_of (ld_cache (h ! a)) key of
        Some v \<Rightarrow> (v, h)
      | None \<Rightarrow>
          (let (v, h1) = lazyConvert (case map_of (ld_src (h ! a)) key of None \<Rightarrow> ANil | Some g \<Rightarrow> g) h
           in (v, h1[a := (h1 ! a)\<lparr>ld_cache := alist_upd (ld_cache (h1 ! a)) key v\<rparr>])))"

definition as_str :: "sval \<Rightarrow> string option" where
  "as_str v = (case v of SString s \<Rightarrow> Some s | _ \<Rightarrow> None)"

text \<open>\<^verbatim>\<open>Get\<close>: the value and whether it was found.\<close>

definition ld_Get :: "nat \<Rightarrow> sval \<Rightarrow> heap \<Rightarrow> sval option \<times> heap" where
  "ld_Get a k h =
     (case as_str k of
        None \<Rightarrow> (None, h)
      | Some key \<Rightarrow>
          (case map_of (ld_src (h ! a)) key of
             None \<Rightarrow> (None, h)
           | Some _ \<Rightarrow> (let (v, h') = ld_value a key h in (Some v, h'))))"

datatype view_error = FrozenEvent | Unhashable | BadArguments string

definition ld_SetKey :: "nat \<Rightarrow> sval \<Rightarrow> sval \<Rightarrow> heap \<Rightarrow> (view_error + unit) \<times> heap" where
  "ld_SetKey a k v h = (Inl FrozenEvent, h)"

definition ld_Type :: string where "ld_Type = ''event''"
definition ld_Truth :: "nat \<Rightarrow> heap \<Rightarrow> bool" where "ld_Truth a h \<longleftrightarrow> length (ld_src (h ! a)) > 0"
definition ld_Len :: "nat \<Rightarrow> heap \<Rightarrow> nat" where "ld_Len a h = length (ld_src (h ! a))"
definition ld_Hash :: "nat \<Rightarrow> view_error + nat" where "ld_Hash a = Inl Unhashable"

definition ld_String :: "nat \<Rightarrow> heap \<Rightarrow> string" where
  "ld_String a h = ''<event dict, '' @ dec_nat (ld_Len a h) @ '' keys>''"

definition ld_sortedKeys :: "nat \<Rightarrow> heap \<Rightarrow> string list" where
  "ld_sortedKeys a h = sort (map fst (ld_src (h ! a)))"

text \<open>An iterator holds the keys it has yet to yield.\<close>

definition ld_Iterate :: "nat \<Rightarrow> heap \<Rightarrow> string list" where
  "ld_Iterate a h = ld_sortedKeys a h"

fun ld_Next :: "string list \<Rightarrow> (sval \<times> string list) option" where
  "ld_Next [] = None"
| "ld_Next (k # ks) = Some (SString k, ks)"

fun values_loop :: "nat \<Rightarrow> string list \<Rightarrow> heap \<Rightarrow> sval list \<times> heap" where
  "values_loop a [] h = ([], h)"
| "values_loop a (k # ks) h =
     (let (v, h1) = ld_value a k h; (vs, h2) = values_loop a ks h1 in (v # vs, h2))"

definition ld_Items :: "nat \<Rightarrow> heap \<Rightarrow> sval list \<times> heap" where
  "ld_Items a h =
     (let ks = ld_sortedKeys a h; (vs, h') = values_loop a ks h
      in (map2 (\<lambda>k v. STuple [SString k, v]) ks vs, h'))"

text \<open>The methods \<^verbatim>\<open>Attr\<close> offers, applied to their unpacked arguments.\<close>

definition ld_AttrNames :: "string list" where
  "ld_AttrNames = [''get'', ''items'', ''keys'', ''values'']"

definition ld_get :: "string + sval \<times> sval option \<Rightarrow> nat \<Rightarrow> heap \<Rightarrow> (view_error + sval) \<times> heap" where
  "ld_get args a h =
     (case args of
        Inl e \<Rightarrow> (Inl (BadArguments e), h)
      | Inr (key, dflt) \<Rightarrow>
          (case ld_Get a key h of
             (Some v, h') \<Rightarrow> (Inr v, h')
           | (None, h') \<Rightarrow> (Inr (case dflt of None \<Rightarrow> SNone | Some d \<Rightarrow> d), h')))"

definition ld_keys :: "string + unit \<Rightarrow> nat \<Rightarrow> heap \<Rightarrow> (view_error + sval) \<times> heap" where
  "ld_keys args a h =
     (case args of
        Inl e \<Rightarrow> (Inl (BadArguments e), h)
      | Inr _ \<Rightarrow> (Inr (SList (map SString (ld_sortedKeys a h))), h))"

definition ld_items :: "string + unit \<Rightarrow> nat \<Rightarrow> heap \<Rightarrow> (view_error + sval) \<times> heap" where
  "ld_items args a h =
     (case args of
        Inl e \<Rightarrow> (Inl (BadArguments e), h)
      | Inr _ \<Rightarrow> (let (items, h') = ld_Items a h in (Inr (SList items), h')))"

definition ld_values :: "string + unit \<Rightarrow> nat \<Rightarrow> heap \<Rightarrow> (view_error + sval) \<times> heap" where
  "ld_values args a h =
     (case args of
        Inl e \<Rightarrow> (Inl (BadArguments e), h)
      | Inr _ \<Rightarrow> (let (vs, h') = values_loop a (ld_sortedKeys a h) h in (Inr (SList vs), h')))"

section \<open>What a value denotes\<close>

text \<open>
  \<open>denotes h g v\<close>: the Starlark value \<open>v\<close> stands for the Go value \<open>g\<close>; a map is denoted by
  a view of it, whatever that view has cached.
\<close>

fun denotes :: "heap \<Rightarrow> goval \<Rightarrow> sval \<Rightarrow> bool" where
  "denotes h ANil v = (v = SNone)"
| "denotes h (ABool b) v = (v = SBool b)"
| "denotes h (AFloat f) v = (v = SFloat f)"
| "denotes h (AInt i) v = (v = SInt i)"
| "denotes h (AInt64 i) v = (v = SInt i)"
| "denotes h (AString s) v = (v = SString s)"
| "denotes h (AList gs) v =
     (case v of SList vs \<Rightarrow> list_all2 (\<lambda>g w. denotes h g w) gs vs | _ \<Rightarrow> False)"
| "denotes h (AMap m) v =
     (case v of SEvent a \<Rightarrow> a < length h \<and> ld_src (h ! a) = m | _ \<Rightarrow> False)"

text \<open>A heap grows: every view stays, with its source.\<close>

definition grows :: "heap \<Rightarrow> heap \<Rightarrow> bool" where
  "grows h h' \<longleftrightarrow> length h \<le> length h' \<and> (\<forall>a < length h. ld_src (h' ! a) = ld_src (h ! a))"

lemma grows_refl [simp]: "grows h h"
  by (simp add: grows_def)

lemma grows_trans: "grows h h1 \<Longrightarrow> grows h1 h2 \<Longrightarrow> grows h h2"
  by (simp add: grows_def)

lemma grows_snoc [simp]: "grows h (h @ hs)"
  by (simp add: grows_def nth_append)

lemma grows_cache [simp]: "grows h (h[a := (h ! a)\<lparr>ld_cache := c\<rparr>])"
  by (cases "a < length h") (auto simp: grows_def nth_list_update)

lemma denotes_grows: "denotes h g v \<Longrightarrow> grows h h' \<Longrightarrow> denotes h' g v"
proof (induction h g v rule: denotes.induct)
  case (7 h gs v)
  then show ?case by (cases v) (auto intro: list.rel_mono_strong)
qed (auto simp: grows_def split: sval.splits)

lemma lazyConvert_denotes:
  "lazyConvert g h = (v, h') \<Longrightarrow> grows h h' \<and> denotes h' g v"
  "lazyConvertList gs h = (vs, h') \<Longrightarrow> grows h h' \<and> list_all2 (denotes h') gs vs"
proof (induction g h and gs h arbitrary: v h' and vs h' rule: lazyConvert_lazyConvertList.induct)
  case (10 g gs h)
  obtain e h1 where e: "lazyConvert g h = (e, h1)" by fastforce
  obtain es h2 where es: "lazyConvertList gs h1 = (es, h2)" by fastforce
  from 10 e es have "grows h h1" "denotes h1 g e" "grows h1 h2" "list_all2 (denotes h2) gs es"
    "vs = e # es" "h' = h2" by auto
  then show ?case by (auto intro: grows_trans denotes_grows)
qed (auto split: prod.splits)

section \<open>Reading is faithful, stable and harmless\<close>

text \<open>The heap invariant: a cached value denotes the field it was converted from.\<close>

definition heap_ok :: "heap \<Rightarrow> bool" where
  "heap_ok h \<longleftrightarrow>
     (\<forall>a < length h. \<forall>k v. map_of (ld_cache (h ! a)) k = Some v \<longrightarrow>
        (\<exists>g. map_of (ld_src (h ! a)) k = Some g \<and> denotes h g v))"

lemma lazyConvert_caches:
  "lazyConvert g h = (v, h') \<Longrightarrow> \<forall>a < length h'. ld_cache (h' ! a) = (if a < length h then ld_cache (h ! a) else [])"
  "lazyConvertList gs h = (vs, h') \<Longrightarrow> \<forall>a < length h'. ld_cache (h' ! a) = (if a < length h then ld_cache (h ! a) else [])"
proof (induction g h and gs h arbitrary: v h' and vs h' rule: lazyConvert_lazyConvertList.induct)
  case (8 m h)
  then show ?case by (auto simp: nth_append)
next
  case (10 g gs h)
  obtain e h1 where e: "lazyConvert g h = (e, h1)" by fastforce
  obtain es h2 where es: "lazyConvertList gs h1 = (es, h2)" by fastforce
  have "length h \<le> length h1" using lazyConvert_denotes(1) [OF e] by (simp add: grows_def)
  with 10 e es show ?case by (auto split: if_splits)
qed (auto split: prod.splits)

lemma heap_ok_convert:
  assumes "heap_ok h" and "lazyConvert g h = (v, h')"
  shows "heap_ok h'"
  unfolding heap_ok_def
proof (intro allI impI)
  fix a k w assume a: "a < length h'" and c: "map_of (ld_cache (h' ! a)) k = Some w"
  have g: "grows h h'" using lazyConvert_denotes(1) [OF assms(2)] by simp
  from a c lazyConvert_caches(1) [OF assms(2)] have old: "a < length h" "map_of (ld_cache (h ! a)) k = Some w"
    by (auto split: if_splits)
  with assms(1) obtain x where "map_of (ld_src (h ! a)) k = Some x" "denotes h x w"
    unfolding heap_ok_def by blast
  with g old show "\<exists>x. map_of (ld_src (h' ! a)) k = Some x \<and> denotes h' x w"
    by (auto simp: grows_def intro: denotes_grows)
qed

lemma ld_value_ok:
  assumes ok: "heap_ok h" and a: "a < length h" and g: "map_of (ld_src (h ! a)) key = Some g"
    and run: "ld_value a key h = (v, h')"
  shows "denotes h' g v \<and> grows h h' \<and> heap_ok h' \<and> ld_value a key h' = (v, h')"
proof (cases "map_of (ld_cache (h ! a)) key")
  case (Some w)
  with run have "v = w" "h' = h" by (simp_all add: ld_value_def)
  moreover have "denotes h g w" using ok a g Some unfolding heap_ok_def by fastforce
  ultimately show ?thesis using ok run by simp
next
  case None
  obtain w h1 where conv: "lazyConvert g h = (w, h1)" by fastforce
  define h2 where "h2 = h1[a := (h1 ! a)\<lparr>ld_cache := alist_upd (ld_cache (h1 ! a)) key w\<rparr>]"
  have v: "v = w" and h': "h' = h2" using run None g conv by (auto simp: ld_value_def h2_def)
  have d1: "grows h h1" "denotes h1 g w" using lazyConvert_denotes(1) [OF conv] by auto
  have ok1: "heap_ok h1" using ok conv by (rule heap_ok_convert)
  have g2: "grows h1 h2" by (simp add: h2_def)
  have a1: "a < length h1" using a d1 by (simp add: grows_def)
  have src: "map_of (ld_src (h1 ! a)) key = Some g" using d1 a g by (simp add: grows_def)
  have "heap_ok h2"
    unfolding heap_ok_def
  proof (intro allI impI)
    fix b k x assume b: "b < length h2" and c: "map_of (ld_cache (h2 ! b)) k = Some x"
    have b1: "b < length h1" using b by (simp add: h2_def)
    show "\<exists>y. map_of (ld_src (h2 ! b)) k = Some y \<and> denotes h2 y x"
    proof (cases "b = a \<and> k = key")
      case True
      with c a1 have "x = w" by (simp add: h2_def)
      with True src d1 g2 a1 show ?thesis by (auto simp: grows_def intro: denotes_grows)
    next
      case False
      with c b1 have "map_of (ld_cache (h1 ! b)) k = Some x"
        by (cases "b = a") (auto simp: h2_def)
      with ok1 b1 obtain y where "map_of (ld_src (h1 ! b)) k = Some y" "denotes h1 y x"
        unfolding heap_ok_def by blast
      with g2 b1 show ?thesis by (auto simp: grows_def intro: denotes_grows)
    qed
  qed
  moreover have "ld_value a key h2 = (w, h2)"
    using a1 by (simp add: ld_value_def h2_def)
  ultimately show ?thesis using v h' d1 g2 by (auto intro: denotes_grows grows_trans)
qed

lemma ld_Get_ok:
  assumes ok: "heap_ok h" and a: "a < length h" and run: "ld_Get a (SString key) h = (r, h')"
  shows "grows h h' \<and> heap_ok h' \<and> ld_Get a (SString key) h' = (r, h') \<and>
    (case map_of (ld_src (h ! a)) key of
       None \<Rightarrow> r = None
     | Some g \<Rightarrow> \<exists>v. r = Some v \<and> denotes h' g v)"
proof (cases "map_of (ld_src (h ! a)) key")
  case None
  with run ok show ?thesis by (auto simp: ld_Get_def as_str_def)
next
  case (Some g)
  obtain v h1 where vh: "ld_value a key h = (v, h1)" by fastforce
  note val = ld_value_ok [OF ok a Some vh]
  have r: "r = Some v" "h' = h1" using run Some vh by (simp_all add: ld_Get_def as_str_def)
  have "ld_src (h1 ! a) = ld_src (h ! a)" using val a by (simp add: grows_def)
  then have "ld_Get a (SString key) h1 = (Some v, h1)"
    using Some val by (simp add: ld_Get_def as_str_def)
  with r val Some show ?thesis by simp
qed

lemma eventToStarlark_ok:
  assumes "heap_ok h" and "eventToStarlark ev h = (v, h')"
  shows "\<exists>a. v = SEvent a \<and> a < length h' \<and> heap_ok h' \<and> grows h h' \<and>
    map_of (ld_src (h' ! a)) ''payload'' = Some (AMap (ev_Payload ev))"
proof -
  have "heap_ok h'"
    unfolding heap_ok_def
  proof (intro allI impI)
    fix a k w assume "a < length h'" "map_of (ld_cache (h' ! a)) k = Some w"
    with assms(2) have "a < length h" "map_of (ld_cache (h ! a)) k = Some w"
      by (auto simp: eventToStarlark_def nth_append split: if_splits)
    with assms show "\<exists>g. map_of (ld_src (h' ! a)) k = Some g \<and> denotes h' g w"
      unfolding heap_ok_def eventToStarlark_def
      by (fastforce simp: nth_append intro: denotes_grows)
  qed
  with assms(2) show ?thesis by (auto simp: eventToStarlark_def)
qed

section \<open>Following a path\<close>

text \<open>What a rule does when it indexes its way into the event, one segment at a time.\<close>

fun ld_walk :: "sval \<Rightarrow> string list \<Rightarrow> heap \<Rightarrow> sval option \<times> heap" where
  "ld_walk v [] h = (Some v, h)"
| "ld_walk v (seg # segs) h =
     (case v of
        SEvent a \<Rightarrow>
          (case ld_Get a (SString seg) h of
             (None, h') \<Rightarrow> (None, h')
           | (Some w, h') \<Rightarrow> ld_walk w segs h')
      | _ \<Rightarrow> (None, h))"

lemma ld_walk_ok:
  assumes "heap_ok h" and "denotes h g v" and "ld_walk v path h = (r, h')"
  shows "heap_ok h' \<and> grows h h' \<and>
    (case walk_path g path of None \<Rightarrow> r = None | Some x \<Rightarrow> \<exists>w. r = Some w \<and> denotes h' x w)"
  using assms
proof (induction path arbitrary: h g v r h')
  case (Cons seg segs)
  show ?case
  proof (cases g)
    case (AMap m)
    with Cons.prems obtain a where a: "v = SEvent a" "a < length h" "ld_src (h ! a) = m"
      by (auto split: sval.splits)
    obtain x h1 where x: "ld_Get a (SString seg) h = (x, h1)" by fastforce
    note get = ld_Get_ok [OF Cons.prems(1) a(2) x]
    show ?thesis
    proof (cases "map_of m seg")
      case None
      with get a x Cons.prems AMap show ?thesis by auto
    next
      case (Some y)
      with get a obtain w where w: "x = Some w" "denotes h1 y w" by auto
      with x a Cons.prems have "ld_walk w segs h1 = (r, h')" by simp
      from Cons.IH [OF _ w(2) this] get AMap Some show ?thesis
        by (auto intro: grows_trans)
    qed
  qed (use Cons.prems in \<open>auto split: sval.splits\<close>)
qed auto

section \<open>Properties\<close>

definition sample_view_event :: event where
  "sample_view_event = \<lparr>ev_EventID = ''1'', ev_EventType = ''post'', ev_EntityID = ''u'', ev_Timestamp = 0,
     ev_Payload = [(''a'', AMap [(''b'', AInt 7)])], ev_RawJSON = [], ev_ReceivedAt = 0\<rparr>"

text \<open>
  C19: following a payload path through the lazy views a rule receives finds a value exactly
  when the tier-1 resolver finds one, and that value denotes what the resolver found.
\<close>

theorem lazy_view_agrees:
  assumes "heap_ok h" and "eventToStarlark ev h = (v, h1)" and "ld_walk v (''payload'' # path) h1 = (r, h2)"
  shows "heap_ok h2 \<and> grows h h2 \<and>
    (case walk_path (AMap (ev_Payload ev)) path of
       None \<Rightarrow> r = None
     | Some x \<Rightarrow> \<exists>w. r = Some w \<and> denotes h2 x w)"
proof -
  from eventToStarlark_ok [OF assms(1,2)] obtain a where a: "v = SEvent a" "a < length h1"
    "heap_ok h1" "grows h h1" and p: "map_of (ld_src (h1 ! a)) ''payload'' = Some (AMap (ev_Payload ev))"
    by blast
  have "denotes h1 (AMap (ld_src (h1 ! a))) v" by (simp add: a)
  from ld_walk_ok [OF a(3) this assms(3)] p a(4) show ?thesis
    by (auto intro: grows_trans)
qed

theorem lazy_view_agrees_witness:
  "\<exists>h. ld_walk (SEvent 0) [''payload'', ''a'', ''b''] (snd (eventToStarlark sample_view_event []))
         = (Some (SInt 7), h) \<and> heap_ok h"
proof -
  obtain r h where run: "ld_walk (SEvent 0) [''payload'', ''a'', ''b'']
      (snd (eventToStarlark sample_view_event [])) = (r, h)" by fastforce
  have "eventToStarlark sample_view_event [] = (SEvent 0, snd (eventToStarlark sample_view_event []))"
    by (simp add: eventToStarlark_def)
  from lazy_view_agrees [OF _ this run] run show ?thesis
    by (simp add: heap_ok_def sample_view_event_def)
qed

end
