(* ===== verification/Stats.thy ===== *)
theory Stats
  imports Values Types
begin

text \<open>
  \<^verbatim>\<open>rules/stats.go\<close>: the moving average of a rule's evaluation time and the slow-rule
  warnings. Go's \<^verbatim>\<open>float64\<close> arithmetic rounds every operation; the rounding is the
  parameter \<open>fl\<close>, its laws the locale \<open>rounding\<close>, and \<open>rne\<close> (round to nearest, ties to
  even, 53 bits) the interpretation. The average is kept in nanoseconds; its bit pattern
  is zero exactly when it is \<open>0\<close>. The lemmas show that the average never leaves the range
  of the samples and that warnings keep their distance.
\<close>

section \<open>The statistics of a rule\<close>

record rule_stats =
  st_evals :: int
  st_ewma :: rat
  st_lastWarn :: int

definition new_stats :: rule_stats where
  "new_stats = \<lparr>st_evals = 0, st_ewma = 0, st_lastWarn = 0\<rparr>"

definition minEvalsForSlow :: int where "minEvalsForSlow = 10"
definition slowFactor :: int where "slowFactor = 16"
definition warnInterval :: int where "warnInterval = 60"

text \<open>\<open>ewmaAlpha\<close> is the float nearest to 0.05.\<close>

definition ewmaAlpha :: "(rat \<Rightarrow> rat) \<Rightarrow> rat" where
  "ewmaAlpha fl = fl (1 / 20)"

definition ewma_next :: "(rat \<Rightarrow> rat) \<Rightarrow> rat \<Rightarrow> rat \<Rightarrow> rat" where
  "ewma_next fl prev sample =
     (if prev = 0 then sample
      else fl (prev + fl (ewmaAlpha fl * fl (sample - prev))))"

definition Observe :: "(rat \<Rightarrow> rat) \<Rightarrow> duration \<Rightarrow> rule_stats \<Rightarrow> rule_stats" where
  "Observe fl elapsed s =
     s\<lparr>st_evals := st_evals s + 1, st_ewma := ewma_next fl (st_ewma s) (fl (of_int elapsed))\<rparr>"

text \<open>Converting a float to a \<^verbatim>\<open>time.Duration\<close> truncates.\<close>

definition EWMA :: "rule_stats \<Rightarrow> duration" where
  "EWMA s = (if st_ewma s \<ge> 0 then \<lfloor>st_ewma s\<rfloor> else \<lceil>st_ewma s\<rceil>)"

definition Evals :: "rule_stats \<Rightarrow> int" where
  "Evals s = st_evals s"

definition WarnIfSlow :: "duration \<Rightarrow> int \<Rightarrow> int \<Rightarrow> rule_stats \<Rightarrow> bool \<times> rule_stats" where
  "WarnIfSlow eventBudget matched now s =
     (if st_evals s < minEvalsForSlow then (False, s)
      else let m = (if matched < 1 then 1 else matched);
               fairShare = go_div eventBudget m
           in if EWMA s \<le> fairShare then (False, s)
              else if now - st_lastWarn s < warnInterval then (False, s)
              else (True, s\<lparr>st_lastWarn := now\<rparr>))"

definition SlowRuleThreshold :: "rule_stats list \<Rightarrow> duration" where
  "SlowRuleThreshold rs =
     (let ewmas = sort (map EWMA (filter (\<lambda>s. Evals s \<ge> minEvalsForSlow) rs)) in
      if length ewmas < 2 then 0 else ewmas ! (length ewmas div 2) * slowFactor)"

section \<open>Rounding\<close>

text \<open>What the average needs of floating-point rounding.\<close>

locale rounding =
  fixes fl :: "rat \<Rightarrow> rat"
  assumes fl_mono: "x \<le> y \<Longrightarrow> fl x \<le> fl y"
    and fl_idem: "fl (fl x) = fl x"
    and fl_minus: "fl (- x) = - fl x"
    and fl_double: "0 \<le> x \<Longrightarrow> fl x \<le> 2 * x"
begin

lemma fl_zero: "fl 0 = 0"
  using fl_minus [of 0] by simp

lemma fl_nonneg: "0 \<le> x \<Longrightarrow> 0 \<le> fl x"
  using fl_mono [of 0 x] by (simp add: fl_zero)

lemma alpha_bounds: "0 \<le> ewmaAlpha fl" "ewmaAlpha fl \<le> 1 / 10"
  using fl_nonneg [of "1 / 20"] fl_double [of "1 / 20"] by (simp_all add: ewmaAlpha_def)

text \<open>One step from \<open>prev\<close> towards a sample \<open>d\<close> away does not overshoot it.\<close>

lemma step_bounds:
  assumes "0 \<le> d"
  shows "0 \<le> fl (ewmaAlpha fl * fl d)" and "fl (ewmaAlpha fl * fl d) \<le> d"
proof -
  have a: "0 \<le> ewmaAlpha fl * fl d"
    using assms alpha_bounds fl_nonneg by simp
  then show "0 \<le> fl (ewmaAlpha fl * fl d)" by (rule fl_nonneg)
  have "ewmaAlpha fl * fl d \<le> (1 / 10) * (2 * d)"
    using assms alpha_bounds fl_nonneg fl_double by (intro mult_mono) simp_all
  with fl_double [OF a] assms show "fl (ewmaAlpha fl * fl d) \<le> d" by simp
qed

lemma ewma_next_between:
  assumes prev: "fl prev = prev" and sample: "fl sample = sample"
  shows "min prev sample \<le> ewma_next fl prev sample"
    and "prev \<noteq> 0 \<Longrightarrow> ewma_next fl prev sample \<le> max prev sample"
    and "fl (ewma_next fl prev sample) = ewma_next fl prev sample"
proof -
  show "fl (ewma_next fl prev sample) = ewma_next fl prev sample"
    by (simp add: ewma_next_def sample fl_idem)
  have both: "min prev sample \<le> ewma_next fl prev sample \<and> ewma_next fl prev sample \<le> max prev sample"
    if nz: "prev \<noteq> 0"
  proof (cases "prev \<le> sample")
    case True
    then have d: "0 \<le> sample - prev" by simp
    have "fl prev \<le> ewma_next fl prev sample"
      using step_bounds(1) [OF d] nz by (simp add: ewma_next_def fl_mono)
    moreover have "ewma_next fl prev sample \<le> fl sample"
      using step_bounds(2) [OF d] nz by (simp add: ewma_next_def fl_mono)
    ultimately show ?thesis using True by (simp add: prev sample)
  next
    case False
    then have d: "0 \<le> prev - sample" by simp
    have "fl (sample - prev) = - fl (prev - sample)" using fl_minus [of "prev - sample"] by simp
    then have "fl (ewmaAlpha fl * fl (sample - prev)) = - fl (ewmaAlpha fl * fl (prev - sample))"
      by (simp add: fl_minus)
    then have n: "ewma_next fl prev sample = fl (prev - fl (ewmaAlpha fl * fl (prev - sample)))"
      using nz by (simp add: ewma_next_def)
    have "fl sample \<le> ewma_next fl prev sample"
      using step_bounds(2) [OF d] by (simp add: n fl_mono)
    moreover have "ewma_next fl prev sample \<le> fl prev"
      using step_bounds(1) [OF d] by (simp add: n fl_mono)
    ultimately show ?thesis using False by (simp add: prev sample)
  qed
  then show "prev \<noteq> 0 \<Longrightarrow> ewma_next fl prev sample \<le> max prev sample" by blast
  show "min prev sample \<le> ewma_next fl prev sample"
    using both by (cases "prev = 0") (auto simp: ewma_next_def)
qed

text \<open>After any sequence of positive observations the average lies between their extremes.\<close>

lemma Observe_range:
  assumes "elapsed \<noteq> []" and "\<forall>e \<in> set elapsed. lo \<le> e \<and> e \<le> hi" and "0 < lo"
    and "0 < fl (of_int lo)"
  defines "s \<equiv> fold (Observe fl) elapsed new_stats"
  shows "fl (of_int lo) \<le> st_ewma s \<and> st_ewma s \<le> fl (of_int hi)"
    and "st_evals s = int (length elapsed)"
proof -
  have "(elapsed \<noteq> [] \<longrightarrow> fl (of_int lo) \<le> st_ewma (fold (Observe fl) elapsed new_stats) \<and>
      st_ewma (fold (Observe fl) elapsed new_stats) \<le> fl (of_int hi) \<and>
      fl (st_ewma (fold (Observe fl) elapsed new_stats)) = st_ewma (fold (Observe fl) elapsed new_stats)) \<and>
      st_evals (fold (Observe fl) elapsed new_stats) = int (length elapsed)"
    using assms(2)
  proof (induction elapsed rule: rev_induct)
    case Nil
    then show ?case by (simp add: new_stats_def)
  next
    case (snoc e es)
    define p where "p = fold (Observe fl) es new_stats"
    have e: "fl (of_int lo) \<le> fl (of_int e)" "fl (of_int e) \<le> fl (of_int hi)"
      using snoc.prems by (auto intro: fl_mono)
    have step: "st_ewma (Observe fl e p) = ewma_next fl (st_ewma p) (fl (of_int e))"
      by (simp add: Observe_def)
    show ?case
    proof (cases "es = []")
      case True
      then show ?thesis using e by (simp add: Observe_def new_stats_def ewma_next_def fl_idem)
    next
      case False
      with snoc have p: "fl (of_int lo) \<le> st_ewma p" "st_ewma p \<le> fl (of_int hi)" "fl (st_ewma p) = st_ewma p"
        "st_evals p = int (length es)" by (auto simp: p_def)
      then have "st_ewma p \<noteq> 0" using assms(4) by auto
      from ewma_next_between [OF p(3) fl_idem, of "of_int e"] p e \<open>st_ewma p \<noteq> 0\<close>
      have "fl (of_int lo) \<le> st_ewma (Observe fl e p)" "st_ewma (Observe fl e p) \<le> fl (of_int hi)"
        "fl (st_ewma (Observe fl e p)) = st_ewma (Observe fl e p)"
        by (simp_all only: step) (auto simp: min_def max_def split: if_splits)
      moreover have "st_evals (Observe fl e p) = int (length (es @ [e]))"
        using p(4) by (simp add: Observe_def)
      moreover have "fold (Observe fl) (es @ [e]) new_stats = Observe fl e p"
        by (simp add: p_def)
      ultimately show ?thesis by (simp only:) simp
    qed
  qed
  then show "fl (of_int lo) \<le> st_ewma s \<and> st_ewma s \<le> fl (of_int hi)"
    and "st_evals s = int (length elapsed)"
    using assms(1) by (simp_all add: s_def)
qed

end

section \<open>Round to nearest, ties to even\<close>

text \<open>
  \<open>rhe\<close> rounds a rational to an integer, \<open>rne\<close> to a 53-bit significand. The exponent is
  not bounded: nanosecond averages are far from the limits of the exponent range.
\<close>

definition rhe :: "rat \<Rightarrow> int" where
  "rhe x =
     (let f = \<lfloor>x\<rfloor>; r = x - of_int f in
      if r < 1 / 2 then f else if 1 / 2 < r then f + 1 else if even f then f else f + 1)"

definition log2_floor :: "rat \<Rightarrow> int" where
  "log2_floor x =
     (let nd = quotient_of x; k = int (bit_len (nat (fst nd))) - int (bit_len (nat (snd nd))) in
      if 2 powi k \<le> x then k else k - 1)"

definition rne_pos :: "rat \<Rightarrow> rat" where
  "rne_pos x = (let e = log2_floor x - 52 in of_int (rhe (x / 2 powi e)) * 2 powi e)"

definition rne :: "rat \<Rightarrow> rat" where
  "rne x = (if x = 0 then 0 else if 0 < x then rne_pos x else - rne_pos (- x))"

lemma rhe_bounds: "\<lfloor>x\<rfloor> \<le> rhe x" "rhe x \<le> \<lfloor>x\<rfloor> + 1"
  by (simp_all add: rhe_def Let_def)

lemma rhe_of_int [simp]: "rhe (of_int k) = k"
  by (simp add: rhe_def)

lemma rhe_mono:
  assumes "x \<le> y" shows "rhe x \<le> rhe y"
proof (cases "\<lfloor>x\<rfloor> = \<lfloor>y\<rfloor>")
  case True
  with assms show ?thesis by (auto simp: rhe_def Let_def)
next
  case False
  moreover have "\<lfloor>x\<rfloor> \<le> \<lfloor>y\<rfloor>" using assms by (rule floor_mono)
  ultimately show ?thesis using rhe_bounds(2) [of x] rhe_bounds(1) [of y] by linarith
qed

lemma bit_len_bounds: "n \<noteq> 0 \<Longrightarrow> 2 ^ (bit_len n - 1) \<le> n \<and> n < 2 ^ bit_len n \<and> 0 < bit_len n"
proof (induction n rule: bit_len.induct)
  case (1 n)
  show ?case
  proof (cases "n div 2 = 0")
    case True
    with 1 have "n = 1" by linarith
    then show ?thesis by (simp add: bit_len.simps)
  next
    case False
    with 1 have ih: "2 ^ (bit_len (n div 2) - 1) \<le> n div 2" "n div 2 < 2 ^ bit_len (n div 2)"
      "0 < bit_len (n div 2)" by simp_all
    then obtain k where k: "bit_len (n div 2) = Suc k" by (cases "bit_len (n div 2)") auto
    have "bit_len n = Suc (bit_len (n div 2))" using "1.prems" by (subst bit_len.simps) simp
    moreover have "n < 2 ^ Suc k * 2"
      using ih(2) unfolding k by (simp only: div_less_iff_less_mult zero_less_numeral)
    moreover have "2 * 2 ^ k \<le> n" using ih(1) k by simp
    ultimately show ?thesis using k by simp
  qed
qed

lemma bit_len_powi:
  assumes "0 < i"
  shows "(2 :: rat) powi (int (bit_len (nat i)) - 1) \<le> of_int i"
    and "(of_int i :: rat) < 2 powi int (bit_len (nat i))"
proof -
  let ?b = "bit_len (nat i)"
  have b: "2 ^ (?b - 1) \<le> nat i" "nat i < 2 ^ ?b" "0 < ?b"
    using bit_len_bounds [of "nat i"] assms by simp_all
  then have "(2 :: int) ^ (?b - 1) \<le> i" "i < 2 ^ ?b"
    using assms by (simp_all add: nat_less_iff le_nat_iff)
  then have "of_int (2 ^ (?b - 1)) \<le> (of_int i :: rat)" "(of_int i :: rat) < of_int (2 ^ ?b)"
    by (simp_all only: of_int_le_iff of_int_less_iff)
  moreover have "int ?b - 1 = int (?b - 1)" using b(3) by simp
  ultimately show "(2 :: rat) powi (int ?b - 1) \<le> of_int i" "(of_int i :: rat) < 2 powi int ?b"
    by (simp_all only: power_int_of_nat of_int_power of_int_numeral)
qed

lemma powi2_add: "(2 :: rat) powi (j + k) = 2 powi j * 2 powi k"
  by (simp add: power_int_add)

lemma log2_floor_bounds:
  assumes "0 < x"
  shows "2 powi log2_floor x \<le> x" and "x < 2 powi (log2_floor x + 1)"
proof -
  obtain n d where q: "quotient_of x = (n, d)" by fastforce
  have d: "0 < (of_int d :: rat)" using quotient_of_denom_pos [OF q] by simp
  have x: "x = of_int n / of_int d" using quotient_of_div [OF q] .
  with assms d have n: "0 < n" by (simp add: zero_less_divide_iff)
  let ?N = "int (bit_len (nat n))" and ?D = "int (bit_len (nat d))"
  note N = bit_len_powi [OF n] and D = bit_len_powi [OF quotient_of_denom_pos [OF q]]
  have "2 powi (?N - ?D - 1) * of_int d \<le> 2 powi (?N - ?D - 1) * (2 powi ?D :: rat)"
    by (rule mult_left_mono) (use D(2) in \<open>simp_all add: less_imp_le\<close>)
  also have "\<dots> = 2 powi (?N - 1)" by (subst powi2_add [symmetric]) simp
  also have "\<dots> \<le> of_int n" by (rule N(1))
  finally have lo: "2 powi (?N - ?D - 1) \<le> x" unfolding x pos_le_divide_eq [OF d] .
  have "of_int n < (2 powi ?N :: rat)" by (rule N(2))
  also have "\<dots> = 2 powi (?N - ?D + 1) * 2 powi (?D - 1)" by (subst powi2_add [symmetric]) simp
  also have "\<dots> \<le> 2 powi (?N - ?D + 1) * of_int d" by (rule mult_left_mono [OF D(1)]) simp
  finally have hi: "x < 2 powi (?N - ?D + 1)" unfolding x pos_divide_less_eq [OF d] .
  show "2 powi log2_floor x \<le> x" "x < 2 powi (log2_floor x + 1)"
    using lo hi by (simp_all add: log2_floor_def q Let_def not_le)
qed

lemma powi2_pos [simp]: "0 < (2 :: rat) powi k"
  by (simp add: zero_less_power_int)

lemma powi2_less: "(2 :: rat) powi j < 2 powi k \<Longrightarrow> j < k"
  using power_int_increasing [of k j "2 :: rat"] by (cases "j < k") auto

lemma log2_floor_unique:
  assumes "0 < x" and "2 powi k \<le> x" and "x < 2 powi (k + 1)"
  shows "log2_floor x = k"
proof -
  have "2 powi k < (2 :: rat) powi (log2_floor x + 1)" "2 powi log2_floor x < (2 :: rat) powi (k + 1)"
    using assms log2_floor_bounds [OF assms(1)] by linarith+
  then have "k < log2_floor x + 1" "log2_floor x < k + 1"
    by (blast dest: powi2_less)+
  then show ?thesis by simp
qed

lemma log2_floor_mono: "0 < x \<Longrightarrow> x \<le> y \<Longrightarrow> log2_floor x \<le> log2_floor y"
proof -
  assume a: "0 < x" "x \<le> y"
  then have "2 powi log2_floor x < (2 :: rat) powi (log2_floor y + 1)"
    using log2_floor_bounds(1) [of x] log2_floor_bounds(2) [of y] by linarith
  then have "log2_floor x < log2_floor y + 1" by (rule powi2_less)
  then show ?thesis by simp
qed

text \<open>The significand of a positive value, and the value it stands for.\<close>

definition signif :: "rat \<Rightarrow> int" where
  "signif x = rhe (x / 2 powi (log2_floor x - 52))"

lemma rne_pos_signif: "rne_pos x = of_int (signif x) * 2 powi (log2_floor x - 52)"
  by (simp add: rne_pos_def signif_def Let_def)

lemma signif_bounds:
  assumes "0 < x"
  shows "2 ^ 52 \<le> signif x" and "signif x \<le> 2 ^ 53"
proof -
  let ?e = "log2_floor x - 52"
  have s1: "(2 :: rat) powi log2_floor x = 2 ^ 52 * 2 powi ?e"
    using power_int_add [of "2 :: rat" 52 ?e] by simp
  have s2: "(2 :: rat) powi (log2_floor x + 1) = 2 ^ 53 * 2 powi ?e"
    using power_int_add [of "2 :: rat" 53 ?e] by (simp add: add.commute)
  have y: "2 ^ 52 \<le> x / 2 powi ?e" "x / 2 powi ?e < 2 ^ 53"
    using log2_floor_bounds [OF assms] unfolding s1 s2
    by (simp_all only: pos_le_divide_eq pos_divide_less_eq powi2_pos)
  have "rhe (of_int (2 ^ 52)) \<le> signif x" "signif x \<le> rhe (of_int (2 ^ 53))"
    unfolding signif_def using y by (auto intro!: rhe_mono)
  then show "2 ^ 52 \<le> signif x" "signif x \<le> 2 ^ 53" by (simp_all only: rhe_of_int)
qed

lemma rne_pos_bounds:
  assumes "0 < x"
  shows "2 powi log2_floor x \<le> rne_pos x" and "rne_pos x \<le> 2 powi (log2_floor x + 1)"
    and "0 < rne_pos x"
proof -
  let ?e = "log2_floor x - 52"
  have s1: "(2 :: rat) powi log2_floor x = 2 ^ 52 * 2 powi ?e"
    using powi2_add [of 52 ?e] by simp
  have s2: "(2 :: rat) powi (log2_floor x + 1) = 2 ^ 53 * 2 powi ?e"
    using powi2_add [of 53 ?e] by (simp add: add.commute)
  have m: "(of_int (2 ^ 52) :: rat) \<le> of_int (signif x)" "(of_int (signif x) :: rat) \<le> of_int (2 ^ 53)"
    using signif_bounds [OF assms] by (simp_all only: of_int_le_iff)
  show lo: "2 powi log2_floor x \<le> rne_pos x" "rne_pos x \<le> 2 powi (log2_floor x + 1)"
    unfolding rne_pos_signif s1 s2 using m
    by (intro mult_right_mono; simp add: less_imp_le)+
  show "0 < rne_pos x" by (rule less_le_trans [OF powi2_pos lo(1)])
qed

lemma rne_pos_mono:
  assumes "0 < x" and "x \<le> y" shows "rne_pos x \<le> rne_pos y"
proof (cases "log2_floor x = log2_floor y")
  case True
  have "x / 2 powi (log2_floor x - 52) \<le> y / 2 powi (log2_floor x - 52)"
    using assms(2) by (simp add: divide_right_mono less_imp_le)
  then have "signif x \<le> signif y" unfolding signif_def True [symmetric] by (rule rhe_mono)
  then show ?thesis unfolding rne_pos_signif True by (intro mult_right_mono) (simp_all add: less_imp_le)
next
  case False
  with log2_floor_mono [OF assms] have "log2_floor x + 1 \<le> log2_floor y" by simp
  then have "(2 :: rat) powi (log2_floor x + 1) \<le> 2 powi log2_floor y"
    by (intro power_int_increasing) simp_all
  with rne_pos_bounds(2) [OF assms(1)] rne_pos_bounds(1) [of y] assms show ?thesis by linarith
qed

lemma rne_pos_idem:
  assumes "0 < x" shows "rne_pos (rne_pos x) = rne_pos x"
proof (cases "rne_pos x < 2 powi (log2_floor x + 1)")
  case True
  have "log2_floor (rne_pos x) = log2_floor x"
    by (rule log2_floor_unique) (use True rne_pos_bounds [OF assms] in simp_all)
  then have "rne_pos (rne_pos x) =
      of_int (rhe (rne_pos x / 2 powi (log2_floor x - 52))) * 2 powi (log2_floor x - 52)"
    by (simp add: rne_pos_def Let_def)
  also have "rne_pos x / 2 powi (log2_floor x - 52) = of_int (signif x)"
    by (simp add: rne_pos_signif)
  finally show ?thesis by (simp add: rne_pos_signif)
next
  case False
  with rne_pos_bounds(2) [OF assms] have e: "rne_pos x = 2 powi (log2_floor x + 1)" by simp
  have "log2_floor (2 powi (log2_floor x + 1)) = log2_floor x + 1"
    by (rule log2_floor_unique) (simp_all add: power_int_add)
  then have "rne_pos (2 powi (log2_floor x + 1)) =
     of_int (rhe (2 powi (log2_floor x + 1) / 2 powi (log2_floor x + 1 - 52))) * 2 powi (log2_floor x + 1 - 52)"
    by (simp add: rne_pos_def Let_def)
  also have "(2 :: rat) powi (log2_floor x + 1) / 2 powi (log2_floor x + 1 - 52) = of_int (2 ^ 52)"
    by (subst power_int_diff [symmetric]) simp_all
  finally show ?thesis unfolding e rhe_of_int
    using powi2_add [of 52 "log2_floor x + 1 - 52"] by (simp add: add.commute)
qed

lemma rne_pos_double:
  assumes "0 < x" shows "rne_pos x \<le> 2 * x"
proof -
  have "rne_pos x \<le> 2 powi (log2_floor x + 1)" by (rule rne_pos_bounds(2) [OF assms])
  also have "\<dots> = 2 * 2 powi log2_floor x" by (simp add: power_int_add)
  also have "\<dots> \<le> 2 * x" using log2_floor_bounds(1) [OF assms] by simp
  finally show ?thesis .
qed

text \<open>A value of at most 53 significant bits is represented exactly.\<close>

lemma rne_exact:
  assumes "0 < m" and "m < 2 ^ 53"
  shows "rne (of_int m * 2 powi e) = of_int m * 2 powi e"
proof -
  let ?x = "of_int m * 2 powi e :: rat"
  have x: "0 < ?x" using assms(1) by simp
  define k where "k = log2_floor ?x"
  have "of_int m < (of_int (2 ^ 53) :: rat)" using assms(2) by (simp only: of_int_less_iff)
  then have "?x < 2 ^ 53 * 2 powi e" by simp
  also have "\<dots> = 2 powi (53 + e)" using powi2_add [of 53 e] by simp
  finally have "2 powi k < (2 :: rat) powi (53 + e)"
    using log2_floor_bounds(1) [OF x] by (simp add: k_def)
  then have "k < 53 + e" by (rule powi2_less)
  then obtain n where n: "e - (k - 52) = int n" using zero_le_imp_eq_int [of "e - (k - 52)"] by auto
  have "?x / 2 powi (k - 52) = of_int m * 2 powi (e - (k - 52))"
    by (simp add: power_int_diff)
  also have "\<dots> = of_int (m * 2 ^ n)" unfolding n by simp
  finally have "rhe (?x / 2 powi (k - 52)) = m * 2 ^ n" by (simp only: rhe_of_int)
  then have "rne_pos ?x = of_int (m * 2 ^ n) * 2 powi (k - 52)"
    by (simp add: rne_pos_def Let_def k_def)
  also have "\<dots> = of_int m * (2 powi int n * 2 powi (k - 52))" by simp
  also have "\<dots> = ?x" by (simp only: n [symmetric] powi2_add [symmetric]) simp
  finally show ?thesis using x by (simp add: rne_def)
qed

lemma rne_of_int: "0 < m \<Longrightarrow> m < 2 ^ 53 \<Longrightarrow> rne (of_int m) = of_int m"
  using rne_exact [of m 0] by simp

interpretation ieee: rounding rne
proof unfold_locales
  fix x y :: rat
  assume le: "x \<le> y"
  consider "0 < x" | "x = 0" | "x < 0" "y < 0" | "x < 0" "y = 0" | "x < 0" "0 < y" by linarith
  then show "rne x \<le> rne y"
  proof cases
    case 1
    with le rne_pos_mono show ?thesis by (simp add: rne_def)
  next
    case 2
    with le rne_pos_bounds(3) [of y] show ?thesis by (cases "y = 0") (simp_all add: rne_def less_imp_le)
  next
    case 3
    with le rne_pos_mono [of "- y" "- x"] show ?thesis by (simp add: rne_def)
  next
    case 4
    with rne_pos_bounds(3) [of "- x"] show ?thesis by (simp add: rne_def)
  next
    case 5
    with rne_pos_bounds(3) [of "- x"] rne_pos_bounds(3) [of y] show ?thesis by (simp add: rne_def)
  qed
next
  fix x :: rat
  show "rne (rne x) = rne x"
    using rne_pos_bounds(3) [of x] rne_pos_bounds(3) [of "- x"] rne_pos_idem [of x] rne_pos_idem [of "- x"]
    by (auto simp: rne_def)
  show "rne (- x) = - rne x" by (auto simp: rne_def)
  show "0 \<le> x \<Longrightarrow> rne x \<le> 2 * x" using rne_pos_double [of x] by (auto simp: rne_def)
qed

text \<open>Positive integers round to positive values.\<close>

lemma rne_of_int_pos: "0 < i \<Longrightarrow> 0 < rne (of_int i)"
  using rne_pos_bounds(3) [of "of_int i"] by (simp add: rne_def)

section \<open>Warnings and the threshold\<close>

lemma WarnIfSlow_guards:
  assumes "WarnIfSlow budget m now s = (True, s')"
  shows "st_evals s \<ge> 10" and "now - st_lastWarn s \<ge> 60" and "s' = s\<lparr>st_lastWarn := now\<rparr>"
    and "EWMA s > go_div budget (max m 1)"
  using assms
  by (auto simp: WarnIfSlow_def minEvalsForSlow_def warnInterval_def Let_def max_def split: if_splits)

lemma WarnIfSlow_quiet: "WarnIfSlow budget m now s = (False, s') \<Longrightarrow> s' = s"
  by (auto simp: WarnIfSlow_def Let_def split: if_splits)

text \<open>
  A history of a rule: observations and slowness checks, each check at a time and with the
  budget and match count of its event. \<open>warn_times\<close> collects when warnings were emitted.
\<close>

datatype stats_event = SObserve duration | SCheck duration int int

fun warn_times :: "(rat \<Rightarrow> rat) \<Rightarrow> stats_event list \<Rightarrow> rule_stats \<Rightarrow> int list" where
  "warn_times fl [] s = []"
| "warn_times fl (SObserve d # es) s = warn_times fl es (Observe fl d s)"
| "warn_times fl (SCheck budget m now # es) s =
     (case WarnIfSlow budget m now s of
        (w, s') \<Rightarrow> (if w then [now] else []) @ warn_times fl es s')"

fun spaced :: "int \<Rightarrow> int list \<Rightarrow> bool" where
  "spaced t0 [] = True"
| "spaced t0 (t # ts) = (t - t0 \<ge> warnInterval \<and> spaced t ts)"

lemma warn_times_spaced: "spaced (st_lastWarn s) (warn_times fl es s)"
proof (induction es arbitrary: s)
  case (Cons e es)
  show ?case
  proof (cases e)
    case (SObserve d)
    then show ?thesis using Cons [of "Observe fl d s"] by (simp add: Observe_def)
  next
    case (SCheck budget m now)
    obtain w s' where w: "WarnIfSlow budget m now s = (w, s')" by fastforce
    then show ?thesis
      using Cons [of s'] WarnIfSlow_guards [of budget m now s s'] WarnIfSlow_quiet [of budget m now s s']
      by (cases w) (auto simp: SCheck warnInterval_def)
  qed
qed simp

text \<open>A nonzero threshold is 16 times the average of one of at least two warmed-up rules.\<close>

lemma SlowRuleThreshold_median:
  assumes "SlowRuleThreshold rs \<noteq> 0"
  shows "\<exists>r \<in> set rs. Evals r \<ge> 10 \<and> SlowRuleThreshold rs = EWMA r * 16"
    and "length (filter (\<lambda>s. Evals s \<ge> 10) rs) \<ge> 2"
    and "2 * length (filter (\<lambda>s. Evals s \<ge> 10 \<and> EWMA s * 16 < SlowRuleThreshold rs) rs) \<le> length (filter (\<lambda>s. Evals s \<ge> 10) rs)"
proof -
  let ?w = "filter (\<lambda>s. Evals s \<ge> 10) rs"
  define l where "l = sort (map EWMA ?w)"
  have len: "length l = length ?w" by (simp add: l_def)
  have t: "SlowRuleThreshold rs = (if length l < 2 then 0 else l ! (length l div 2) * 16)"
    by (simp add: SlowRuleThreshold_def minEvalsForSlow_def slowFactor_def l_def Let_def)
  with assms have two: "2 \<le> length l" by (auto split: if_splits)
  then show "length ?w \<ge> 2" by (simp add: len)
  from two have i: "length l div 2 < length l" by simp
  then have "l ! (length l div 2) \<in> set l" by (rule nth_mem)
  then obtain r where "r \<in> set ?w" "l ! (length l div 2) = EWMA r" by (auto simp: l_def)
  with t two show "\<exists>r \<in> set rs. Evals r \<ge> 10 \<and> SlowRuleThreshold rs = EWMA r * 16" by auto
  have srt: "sorted l" by (simp add: l_def)
  let ?m = "l ! (length l div 2)"
  have "length (filter (\<lambda>e. e < ?m) l) \<le> length l div 2"
  proof -
    have "\<forall>e \<in> set (drop (length l div 2) l). \<not> e < ?m"
      using srt by (auto simp: in_set_conv_nth sorted_iff_nth_mono not_less)
    then have "filter (\<lambda>e. e < ?m) (drop (length l div 2) l) = []" by (simp add: filter_empty_conv)
    then have "filter (\<lambda>e. e < ?m) l = filter (\<lambda>e. e < ?m) (take (length l div 2) l)"
      by (metis append_Nil2 append_take_drop_id filter_append)
    then show ?thesis
      by (metis length_filter_le length_take min.cobounded2 order_trans)
  qed
  moreover have "length (filter (\<lambda>e. e < ?m) l) = length (filter (\<lambda>s. Evals s \<ge> 10 \<and> EWMA s * 16 < SlowRuleThreshold rs) rs)"
  proof -
    have "mset (filter (\<lambda>e. e < ?m) l) = mset (filter (\<lambda>e. e < ?m) (map EWMA ?w))"
      by (simp add: l_def)
    then have "length (filter (\<lambda>e. e < ?m) l) = length (filter (\<lambda>e. e < ?m) (map EWMA ?w))"
      by (rule mset_eq_length)
    also have "\<dots> = length (filter (\<lambda>s. Evals s \<ge> 10 \<and> EWMA s < ?m) rs)"
      by (simp add: filter_map o_def conj_commute)
    finally show ?thesis using t two by simp
  qed
  ultimately show "2 * length (filter (\<lambda>s. Evals s \<ge> 10 \<and> EWMA s * 16 < SlowRuleThreshold rs) rs) \<le> length ?w"
    unfolding len by linarith
qed

section \<open>Properties\<close>

text \<open>
  C31: the moving average stays inside the range of what was observed: after any positive
  observations, in IEEE arithmetic with every operation rounded, it lies between the floats
  nearest to the smallest and to the largest of them, and the evaluation count is exact.
\<close>

theorem ewma_in_range:
  assumes "elapsed \<noteq> []" and "list_all (\<lambda>e. lo \<le> e \<and> e \<le> hi) elapsed" and "0 < lo"
  shows "rne (of_int lo) \<le> st_ewma (fold (Observe rne) elapsed new_stats) \<and>
    st_ewma (fold (Observe rne) elapsed new_stats) \<le> rne (of_int hi) \<and>
    Evals (fold (Observe rne) elapsed new_stats) = int (length elapsed)"
  using ieee.Observe_range [OF assms(1) _ assms(3) rne_of_int_pos [OF assms(3)], of hi] assms(2)
  by (simp add: list_all_iff Evals_def)

theorem ewma_in_range_witness:
  "Evals (fold (Observe rne) [100, 250, 170] new_stats) = 3 \<and>
   rne (of_int 100) \<le> st_ewma (fold (Observe rne) [100, 250, 170] new_stats)"
  using ewma_in_range [of "[100, 250, 170]" 100 250] by simp

text \<open>
  C32: slow-rule warnings keep their distance and their guards: in any history of a rule two
  warnings are at least the interval apart; a check warns exactly when the rule has enough
  evaluations, its average exceeds its fair share of the event budget and the last warning is
  old enough; and a pool-wide threshold is sixteen times the average of a rule with enough
  evaluations that at most half of these rules fall short of.
\<close>

theorem slow_rule_reports:
  assumes "SlowRuleThreshold rs \<noteq> 0"
  shows "spaced (st_lastWarn s) (warn_times rne es s) \<and>
    (fst (WarnIfSlow budget m now s) \<longleftrightarrow>
       Evals s \<ge> 10 \<and> EWMA s > go_div budget (max m 1) \<and> now - st_lastWarn s \<ge> 60) \<and>
    list_ex (\<lambda>r. Evals r \<ge> 10 \<and> SlowRuleThreshold rs = EWMA r * 16) rs \<and>
    2 * length (filter (\<lambda>r. Evals r \<ge> 10 \<and> EWMA r * 16 < SlowRuleThreshold rs) rs)
      \<le> length (filter (\<lambda>r. Evals r \<ge> 10) rs)"
proof -
  have "fst (WarnIfSlow budget m now s) \<longleftrightarrow>
      Evals s \<ge> 10 \<and> EWMA s > go_div budget (max m 1) \<and> now - st_lastWarn s \<ge> 60"
    by (auto simp: WarnIfSlow_def minEvalsForSlow_def warnInterval_def Let_def max_def Evals_def)
  with warn_times_spaced [of s rne es] SlowRuleThreshold_median [OF assms] show ?thesis
    by (simp add: list_ex_iff)
qed

definition busy_stats :: "rat \<Rightarrow> rule_stats" where
  "busy_stats avg = \<lparr>st_evals = 20, st_ewma = avg, st_lastWarn = 0\<rparr>"

lemma SlowRuleThreshold_pair: "SlowRuleThreshold [busy_stats 100, busy_stats 300] = 4800"
  by (simp add: SlowRuleThreshold_def busy_stats_def Evals_def EWMA_def minEvalsForSlow_def slowFactor_def)

theorem slow_rule_reports_witness:
  "fst (WarnIfSlow 1000 10 60 (busy_stats 300)) \<and> \<not> fst (WarnIfSlow 1000 10 59 (busy_stats 300))"
  using slow_rule_reports [of "[busy_stats 100, busy_stats 300]" "busy_stats 300" "[]" 1000 10 60]
    slow_rule_reports [of "[busy_stats 100, busy_stats 300]" "busy_stats 300" "[]" 1000 10 59]
  by (simp add: SlowRuleThreshold_pair) (simp add: busy_stats_def Evals_def EWMA_def)

end
