(* ===== verification/Pool.thy ===== *)
theory Pool
  imports Compiler Env LazyEvent Stats
begin

text \<open>
  \<^verbatim>\<open>executor/pool.go\<close>: a worker evaluating the rules of one event. \<^verbatim>\<open>starlark.Call\<close> is
  the parameter \<open>call\<close>; clocks and \<^verbatim>\<open>ctx.Err()\<close> are observations, one \<open>rule_obs\<close> per
  matched rule. The lemmas show that every matched rule is accounted for exactly once, that
  rules are isolated from each other and events from each other, and that after the deadline
  nothing runs. The last part is the pool: any schedule of its workers and of the counter
  garbage collection answers every event once.
\<close>

section \<open>State\<close>

definition ruleStepBudget :: nat where "ruleStepBudget = 10000000"

text \<open>
  What a worker reads and writes: its own state, the heap of event views, the shared counter
  store, and, by the address a rule carries, the shared prefilter counts and timing
  statistics. Between two accesses other workers may change the shared parts; one event is
  shown here as its own worker performs it.
\<close>

record 're pool_state =
  ps_worker :: "'re worker"
  ps_heap :: heap
  ps_counters :: counter_store
  ps_prefiltered :: "nat \<Rightarrow> int"
  ps_stats :: "nat \<Rightarrow> rule_stats"

text \<open>What \<^verbatim>\<open>starlark.Call\<close> ends with: a value, an error, or a Go panic.\<close>

datatype call_result = Returned sval | Raised string | CallPanics string

type_synonym 're machine = "'re worker \<times> heap \<times> counter_store"
type_synonym 're starlark_call = "nat \<Rightarrow> sval \<Rightarrow> 're machine \<Rightarrow> call_result \<times> 're machine"

text \<open>
  The observations made around one rule: \<^verbatim>\<open>eventCtx.Err()\<close> before it and, if it fails,
  after it, its elapsed time, and the clock of its slowness check.
\<close>

record rule_obs =
  o_before :: "ctx_error option"
  o_after :: "ctx_error option"
  o_elapsed :: duration
  o_now :: int

definition newWorker :: "'re worker" where
  "newWorker = \<lparr>w_memo = [], w_regexCache = [], w_curEntity = '''', w_curRule = '''',
     w_stepsExceeded = False, w_cancelled = False, w_steps = 0, w_maxSteps = 0\<rparr>"

text \<open>The thread's hooks: \<^verbatim>\<open>OnMaxSteps\<close> and a cancellation from outside.\<close>

definition OnMaxSteps :: "'re worker \<Rightarrow> 're worker" where
  "OnMaxSteps w = w\<lparr>w_stepsExceeded := True, w_cancelled := True\<rparr>"

section \<open>One rule\<close>

text \<open>The preparation of the reused thread.\<close>

definition arm :: "rule \<Rightarrow> 're worker \<Rightarrow> 're worker" where
  "arm r w = w\<lparr>w_curRule := rule_RuleID r, w_cancelled := False, w_stepsExceeded := False,
               w_maxSteps := w_steps w + ruleStepBudget\<rparr>"

definition run_call ::
  "'re starlark_call \<Rightarrow> nat \<Rightarrow> sval \<Rightarrow> 're pool_state \<Rightarrow> call_result \<times> 're pool_state" where
  "run_call call f arg s =
     (case call f arg (ps_worker s, ps_heap s, ps_counters s) of
        (ret, (w, h, c)) \<Rightarrow> (ret, s\<lparr>ps_worker := w, ps_heap := h, ps_counters := c\<rparr>))"

text \<open>The outcome of a call: the rule's error, or its verdict and reason.\<close>

definition call_outcome ::
  "ctx_error option \<Rightarrow> bool \<Rightarrow> call_result \<Rightarrow> rule_error + (verdict \<times> string)" where
  "call_outcome ctxErr stepsExceeded ret =
     (case ret of
        CallPanics m \<Rightarrow> Inl (Panicked m)
      | Raised err \<Rightarrow>
          (case ctxErr of
             Some e \<Rightarrow> Inl (CtxDuring e err)
           | None \<Rightarrow> if stepsExceeded then Inl (StepBudgetExceeded err) else Inl (EvalFailed err))
      | Returned retVal \<Rightarrow>
          (case interpretVerdict retVal of
             Inl e \<Rightarrow> Inl (BadVerdict e)
           | Inr vr \<Rightarrow> Inr vr))"

definition evalRule ::
  "'re starlark_call \<Rightarrow> rule_obs \<Rightarrow> rule \<Rightarrow> sval \<Rightarrow> 're pool_state \<Rightarrow> rule_result \<times> 're pool_state" where
  "evalRule call obs r starlarkEvent s =
     (let s1 = s\<lparr>ps_worker := arm r (ps_worker s)\<rparr>;
          (ret, s2) = run_call call (rule_Evaluate r) starlarkEvent s1;
          rr = \<lparr>rr_RuleID = rule_RuleID r, rr_Priority = rule_Priority r, rr_Verdict = '''',
                rr_Reason = '''', rr_Err = None, rr_ErrMsg = None, rr_Elapsed = o_elapsed obs\<rparr>
      in (case call_outcome (o_after obs) (w_stepsExceeded (ps_worker s2)) ret of
            Inl e \<Rightarrow> (rr\<lparr>rr_Err := Some e, rr_ErrMsg := Some e\<rparr>, s2)
          | Inr (v, reason) \<Rightarrow> (rr\<lparr>rr_Verdict := v, rr_Reason := reason\<rparr>, s2)))"

section \<open>One event\<close>

definition observe_rule ::
  "duration \<Rightarrow> int \<Rightarrow> rule_obs \<Rightarrow> rule \<Rightarrow> rule_result \<Rightarrow> 're pool_state \<Rightarrow> 're pool_state" where
  "observe_rule eventTimeout matched obs r rr s =
     (let st = Observe rne (rr_Elapsed rr) (ps_stats s (rule_Stats r));
          st' = snd (WarnIfSlow eventTimeout matched (o_now obs) st)
      in s\<lparr>ps_stats := (ps_stats s)(rule_Stats r := st')\<rparr>)"

text \<open>The failure of a rule that is not run because the event's context has ended.\<close>

definition ctx_failure :: "rule \<Rightarrow> ctx_error \<Rightarrow> rule_result" where
  "ctx_failure r e =
     \<lparr>rr_RuleID = rule_RuleID r, rr_Priority = rule_Priority r, rr_Verdict = '''',
      rr_Reason = '''', rr_Err = Some (CtxBefore e), rr_ErrMsg = Some (CtxBefore e), rr_Elapsed = 0\<rparr>"

text \<open>
  The loop over the matched rules, with the triggered and failed results so far. A panic of
  the prefilter is not recovered here.
\<close>

fun rules_loop ::
  "'re starlark_call \<Rightarrow> (nat \<Rightarrow> rule_obs) \<Rightarrow> duration \<Rightarrow> int \<Rightarrow> event \<Rightarrow> sval \<Rightarrow> nat \<Rightarrow> rule list
     \<Rightarrow> rule_result list \<Rightarrow> rule_result list \<Rightarrow> 're pool_state
     \<Rightarrow> (panic + rule_result list \<times> rule_result list) \<times> 're pool_state" where
  "rules_loop call obs tmo n ev sev i [] triggered failed s = (Inr (triggered, failed), s)"
| "rules_loop call obs tmo n ev sev i (r # rs) triggered failed s =
     (case PrefilterMatch (rule_Match r) ev of
        Inl p \<Rightarrow> (Inl p, s)
      | Inr False \<Rightarrow>
          rules_loop call obs tmo n ev sev (Suc i) rs triggered failed
            (s\<lparr>ps_prefiltered := (ps_prefiltered s)(rule_Prefiltered r := ps_prefiltered s (rule_Prefiltered r) + 1)\<rparr>)
      | Inr True \<Rightarrow>
          (case o_before (obs i) of
             Some e \<Rightarrow>
               rules_loop call obs tmo n ev sev (Suc i) rs triggered (failed @ [ctx_failure r e]) s
           | None \<Rightarrow>
               (let (rr, s1) = evalRule call (obs i) r sev s;
                    s2 = observe_rule tmo n (obs i) r rr s1
                in if rr_Err rr \<noteq> None
                   then rules_loop call obs tmo n ev sev (Suc i) rs triggered (failed @ [rr]) s2
                   else if rr_Verdict rr \<noteq> ''''
                   then rules_loop call obs tmo n ev sev (Suc i) rs (triggered @ [rr]) failed s2
                   else rules_loop call obs tmo n ev sev (Suc i) rs triggered failed s2)))"

text \<open>
  \<open>processEvent\<close> with the snapshot it loaded, the latency and completion time it measured.
  The deferred \<^verbatim>\<open>clear(w.memo)\<close> runs on every way out.
\<close>

definition clear_memo :: "'re pool_state \<Rightarrow> 're pool_state" where
  "clear_memo s = s\<lparr>ps_worker := (ps_worker s)\<lparr>w_memo := []\<rparr>\<rparr>"

definition processEvent ::
  "'re starlark_call \<Rightarrow> (nat \<Rightarrow> rule_obs) \<Rightarrow> duration \<Rightarrow> int \<Rightarrow> gotime \<Rightarrow> snapshot option \<Rightarrow> event
     \<Rightarrow> 're pool_state \<Rightarrow> (panic + result) \<times> 're pool_state" where
  "processEvent call obs eventTimeout latency done_at snapo ev s =
     (case snapo of
        None \<Rightarrow>
          (Inr \<lparr>res_EventID = ev_EventID ev, res_EventType = ev_EventType ev,
                res_FinalVerdict = VerdictApprove, res_TriggeredRules = [], res_FailedRules = [],
                res_Payload = ev_Payload ev, res_RawPayload = ev_RawJSON ev,
                res_LatencyUS = latency, res_ProcessedAt = done_at\<rparr>, clear_memo s)
      | Some snap \<Rightarrow>
          (let matched = RulesForEvent snap (ev_EventType ev);
               (sev, h) = eventToStarlark ev (ps_heap s);
               s1 = s\<lparr>ps_heap := h, ps_worker := (ps_worker s)\<lparr>w_curEntity := ev_EntityID ev\<rparr>\<rparr>
           in (case rules_loop call obs eventTimeout (int (length matched)) ev sev 0 matched [] [] s1 of
                 (Inl p, s2) \<Rightarrow> (Inl p, clear_memo s2)
               | (Inr (triggered, failed), s2) \<Rightarrow>
                   (Inr \<lparr>res_EventID = ev_EventID ev, res_EventType = ev_EventType ev,
                         res_FinalVerdict = resolveVerdict triggered,
                         res_TriggeredRules = triggered, res_FailedRules = failed,
                         res_Payload = ev_Payload ev, res_RawPayload = ev_RawJSON ev,
                         res_LatencyUS = latency, res_ProcessedAt = done_at\<rparr>, clear_memo s2))))"

text \<open>
  \<^verbatim>\<open>run\<close>: a worker receives events until its channel closes and sends one result for each.
  Each event comes with the observations and the snapshot of its processing. A panic ends
  the process.
\<close>

record job =
  j_event :: event
  j_snap :: "snapshot option"
  j_obs :: "nat \<Rightarrow> rule_obs"
  j_latency :: int
  j_done :: gotime

fun worker_run ::
  "'re starlark_call \<Rightarrow> duration \<Rightarrow> job list \<Rightarrow> 're pool_state \<Rightarrow> (panic + result list) \<times> 're pool_state" where
  "worker_run call tmo [] s = (Inr [], s)"
| "worker_run call tmo (j # js) s =
     (case processEvent call (j_obs j) tmo (j_latency j) (j_done j) (j_snap j) (j_event j) s of
        (Inl p, s') \<Rightarrow> (Inl p, s')
      | (Inr r, s') \<Rightarrow>
          (case worker_run call tmo js s' of
             (Inl p, s'') \<Rightarrow> (Inl p, s'')
           | (Inr rs, s'') \<Rightarrow> (Inr (r # rs), s'')))"

section \<open>Rules are accounted for\<close>

definition prefilter_passes :: "event \<Rightarrow> rule \<Rightarrow> bool" where
  "prefilter_passes ev r \<longleftrightarrow> PrefilterMatch (rule_Match r) ev = Inr True"

definition prefilter_rejects :: "event \<Rightarrow> rule \<Rightarrow> bool" where
  "prefilter_rejects ev r \<longleftrightarrow> PrefilterMatch (rule_Match r) ev = Inr False"

abbreviation rule_key :: "rule \<Rightarrow> string \<times> int" where
  "rule_key r \<equiv> (rule_RuleID r, rule_Priority r)"

abbreviation result_key :: "rule_result \<Rightarrow> string \<times> int" where
  "result_key rr \<equiv> (rr_RuleID rr, rr_Priority rr)"

definition triggered_ok :: "rule_result \<Rightarrow> bool" where
  "triggered_ok rr \<longleftrightarrow> rr_Err rr = None \<and> rr_ErrMsg rr = None \<and> known_verdict (rr_Verdict rr)"

definition failed_ok :: "rule_result \<Rightarrow> bool" where
  "failed_ok rr \<longleftrightarrow> rr_Err rr \<noteq> None \<and> rr_ErrMsg rr = rr_Err rr \<and> rr_Verdict rr = '''' \<and> rr_Reason rr = ''''"

lemma call_outcome_known: "call_outcome e x ret = Inr (v, reason) \<Longrightarrow> known_verdict v"
  by (auto simp: call_outcome_def interpretVerdict_known
      split: call_result.splits option.splits sum.splits if_splits)

lemma evalRule_result:
  assumes "evalRule call obs r sev s = (rr, s')"
  shows "result_key rr = rule_key r" and "triggered_ok rr \<or> failed_ok rr"
    and "rr_Elapsed rr = o_elapsed obs"
    and "ps_prefiltered s' = ps_prefiltered s" and "ps_stats s' = ps_stats s"
  using assms
  by (auto simp: evalRule_def run_call_def Let_def triggered_ok_def failed_ok_def
      split: prod.splits sum.splits dest: call_outcome_known)

lemma triggered_not_failed: "triggered_ok rr \<Longrightarrow> rr_Err rr = None \<and> rr_Verdict rr \<noteq> ''''"
  by (auto simp: triggered_ok_def dest: known_verdict_nonempty)

lemma failed_has_error: "failed_ok rr \<Longrightarrow> rr_Err rr \<noteq> None"
  by (simp add: failed_ok_def)

lemma ctx_failure_ok [simp]: "failed_ok (ctx_failure r e)"
    "rr_RuleID (ctx_failure r e) = rule_RuleID r" "rr_Priority (ctx_failure r e) = rule_Priority r"
  by (simp_all add: failed_ok_def ctx_failure_def)

lemma observe_rule_simps [simp]:
  "ps_prefiltered (observe_rule tmo n obs r rr s) = ps_prefiltered s"
  "ps_worker (observe_rule tmo n obs r rr s) = ps_worker s"
  "ps_heap (observe_rule tmo n obs r rr s) = ps_heap s"
  "ps_counters (observe_rule tmo n obs r rr s) = ps_counters s"
  by (simp_all add: observe_rule_def Let_def)

text \<open>One step of the loop, for a rule that passes the prefilter before the deadline.\<close>

lemma rules_loop_eval:
  assumes "prefilter_passes ev r" and "o_before (obs i) = None"
    and "evalRule call (obs i) r sev s = (rr, s1)"
  shows "rules_loop call obs tmo n ev sev i (r # rs) t f s =
     rules_loop call obs tmo n ev sev (Suc i) rs
       (if rr_Err rr = None then t @ [rr] else t) (if rr_Err rr = None then f else f @ [rr])
       (observe_rule tmo n (obs i) r rr s1)"
  using assms evalRule_result(2) [OF assms(3)] triggered_not_failed [of rr]
  by (auto simp: prefilter_passes_def Let_def failed_ok_def)

lemma rules_loop_late:
  assumes "prefilter_passes ev r" and "o_before (obs i) = Some e"
  shows "rules_loop call obs tmo n ev sev i (r # rs) t f s =
     rules_loop call obs tmo n ev sev (Suc i) rs t (f @ [ctx_failure r e]) s"
  using assms by (simp add: prefilter_passes_def)

lemma rules_loop_skip:
  assumes "prefilter_rejects ev r"
  shows "rules_loop call obs tmo n ev sev i (r # rs) t f s =
     rules_loop call obs tmo n ev sev (Suc i) rs t f
       (s\<lparr>ps_prefiltered := (ps_prefiltered s)(rule_Prefiltered r := ps_prefiltered s (rule_Prefiltered r) + 1)\<rparr>)"
  using assms by (simp add: prefilter_rejects_def)

lemma prefilter_cases:
  "prefilter_passes ev r \<or> prefilter_rejects ev r \<or> (\<exists>p. PrefilterMatch (rule_Match r) ev = Inl p)"
  by (cases "PrefilterMatch (rule_Match r) ev") (auto simp: prefilter_passes_def prefilter_rejects_def)

lemma passes_not_rejects: "prefilter_passes ev r \<Longrightarrow> \<not> prefilter_rejects ev r"
  by (simp add: prefilter_passes_def prefilter_rejects_def)

text \<open>
  \<open>accounts ev rs t f\<close>: \<open>t\<close> and \<open>f\<close> are sublists, in order, of the rules of \<open>rs\<close> that passed
  the prefilter, and together all of them; no other rule is missing but rejected ones.
\<close>

definition accounts :: "event \<Rightarrow> rule list \<Rightarrow> rule_result list \<Rightarrow> rule_result list \<Rightarrow> bool" where
  "accounts ev rs t f \<longleftrightarrow>
     (let passed = map rule_key (filter (prefilter_passes ev) rs) in
      list_all triggered_ok t \<and> list_all failed_ok f \<and>
      subseq (map result_key t) passed \<and> subseq (map result_key f) passed \<and>
      mset (map result_key t) + mset (map result_key f) = mset passed \<and>
      (\<forall>r \<in> set rs. prefilter_passes ev r \<or> prefilter_rejects ev r))"

definition rejections :: "event \<Rightarrow> rule list \<Rightarrow> nat \<Rightarrow> nat" where
  "rejections ev rs a = length (filter (\<lambda>r. prefilter_rejects ev r \<and> rule_Prefiltered r = a) rs)"

lemma accounts_Nil: "accounts ev [] [] []"
  by (simp add: accounts_def)

lemma accounts_reject:
  "prefilter_rejects ev r \<Longrightarrow> accounts ev rs t f \<Longrightarrow> accounts ev (r # rs) t f"
  using passes_not_rejects [of ev r] by (auto simp: accounts_def Let_def)

lemma accounts_triggered:
  "prefilter_passes ev r \<Longrightarrow> accounts ev rs t f \<Longrightarrow> triggered_ok rr \<Longrightarrow> result_key rr = rule_key r \<Longrightarrow>
     accounts ev (r # rs) (rr # t) f"
  by (simp add: accounts_def Let_def list_emb_Cons)

lemma accounts_failed:
  "prefilter_passes ev r \<Longrightarrow> accounts ev rs t f \<Longrightarrow> failed_ok rr \<Longrightarrow> result_key rr = rule_key r \<Longrightarrow>
     accounts ev (r # rs) t (rr # f)"
  by (simp add: accounts_def Let_def list_emb_Cons)

lemma rejections_simps [simp]:
  "rejections ev [] a = 0"
  "prefilter_passes ev r \<Longrightarrow> rejections ev (r # rs) a = rejections ev rs a"
  "prefilter_rejects ev r \<Longrightarrow>
     rejections ev (r # rs) a = (if rule_Prefiltered r = a then 1 else 0) + rejections ev rs a"
  using passes_not_rejects [of ev r] by (auto simp: rejections_def)

text \<open>What a completed loop adds to the two lists and to the prefilter counts.\<close>

lemma rules_loop_accounts:
  assumes "rules_loop call obs tmo n ev sev i rs t f s = (Inr (t', f'), s')"
  shows "\<exists>tn fn. t' = t @ tn \<and> f' = f @ fn \<and> accounts ev rs tn fn \<and>
           (\<forall>a. ps_prefiltered s' a = ps_prefiltered s a + int (rejections ev rs a))"
  using assms
proof (induction rs arbitrary: i t f s)
  case Nil
  then show ?case by (auto simp: accounts_Nil)
next
  case (Cons r rs)
  consider (pass) "prefilter_passes ev r" | (reject) "prefilter_rejects ev r"
    | (panics) p where "PrefilterMatch (rule_Match r) ev = Inl p"
    using prefilter_cases [of ev r] by blast
  then show ?case
  proof cases
    case reject
    from Cons.prems have "rules_loop call obs tmo n ev sev (Suc i) rs t f
       (s\<lparr>ps_prefiltered := (ps_prefiltered s)(rule_Prefiltered r := ps_prefiltered s (rule_Prefiltered r) + 1)\<rparr>)
       = (Inr (t', f'), s')" unfolding rules_loop_skip [OF reject] .
    from Cons.IH [OF this] obtain tn fn where ih: "t' = t @ tn" "f' = f @ fn" "accounts ev rs tn fn"
      "\<forall>a. ps_prefiltered s' a = ((ps_prefiltered s)(rule_Prefiltered r :=
         ps_prefiltered s (rule_Prefiltered r) + 1)) a + int (rejections ev rs a)" by auto
    have "\<forall>a. ps_prefiltered s' a = ps_prefiltered s a + int (rejections ev (r # rs) a)"
      using ih(4) by (simp add: rejections_simps(3) [OF reject])
    with ih(1,2) accounts_reject [OF reject ih(3)] show ?thesis by blast
  next
    case panics
    with Cons.prems show ?thesis by simp
  next
    case pass
    note rej = rejections_simps(2) [OF pass]
    show ?thesis
    proof (cases "o_before (obs i)")
      case (Some e)
      from Cons.prems have "rules_loop call obs tmo n ev sev (Suc i) rs t (f @ [ctx_failure r e]) s = (Inr (t', f'), s')"
        unfolding rules_loop_late [where obs = obs and i = i, OF pass Some] .
      from Cons.IH [OF this] obtain tn fn where ih: "t' = t @ tn" "f' = (f @ [ctx_failure r e]) @ fn"
        "accounts ev rs tn fn" "\<forall>a. ps_prefiltered s' a = ps_prefiltered s a + int (rejections ev rs a)" by blast
      have "accounts ev (r # rs) tn (ctx_failure r e # fn)"
        by (rule accounts_failed [OF pass ih(3)]) simp_all
      with ih show ?thesis unfolding rej append_assoc append.simps by blast
    next
      case None
      obtain rr s1 where ev: "evalRule call (obs i) r sev s = (rr, s1)" by fastforce
      note res = evalRule_result [OF ev]
      let ?ok = "rr_Err rr = None"
      from Cons.prems have "rules_loop call obs tmo n ev sev (Suc i) rs
          (if ?ok then t @ [rr] else t) (if ?ok then f else f @ [rr])
          (observe_rule tmo n (obs i) r rr s1) = (Inr (t', f'), s')"
        unfolding rules_loop_eval [where obs = obs and i = i, OF pass None ev] .
      from Cons.IH [OF this] obtain tn fn where ih: "t' = (if ?ok then t @ [rr] else t) @ tn"
        "f' = (if ?ok then f else f @ [rr]) @ fn" "accounts ev rs tn fn"
        "\<forall>a. ps_prefiltered s' a = ps_prefiltered s a + int (rejections ev rs a)"
        unfolding observe_rule_simps res(4) by blast
      show ?thesis
      proof (cases ?ok)
        case True
        then have "triggered_ok rr" using res(2) by (auto simp: failed_ok_def)
        note acc = accounts_triggered [OF pass ih(3) this res(1)]
        have "t' = t @ rr # tn" "f' = f @ fn" using True ih(1,2) by simp_all
        with acc ih(4) show ?thesis unfolding rej by blast
      next
        case False
        then have "failed_ok rr" using res(2) by (auto simp: triggered_ok_def)
        note acc = accounts_failed [OF pass ih(3) this res(1)]
        have "t' = t @ tn" "f' = f @ rr # fn" using False ih(1,2) by simp_all
        with acc ih(4) show ?thesis unfolding rej by blast
      qed
    qed
  qed
qed

text \<open>Lowered rules never make the loop panic.\<close>

lemma rules_loop_total:
  assumes "\<forall>r \<in> set rs. list_all wf_pred (rule_Match r)"
  shows "\<exists>tf s'. rules_loop call obs tmo n ev sev i rs t f s = (Inr tf, s')"
  using assms
proof (induction rs arbitrary: i t f s)
  case (Cons r rs)
  then obtain b where "PrefilterMatch (rule_Match r) ev = Inr b"
    using PrefilterMatch_wf by fastforce
  with Cons show ?case
    by (cases b) (auto simp: Let_def split: option.splits prod.splits)
qed simp

section \<open>The deadline\<close>

text \<open>The loop over a split list: the second part starts where the first one ended.\<close>

lemma rules_loop_append:
  "rules_loop call obs tmo n ev sev i (rs @ rs') t f s =
     (case rules_loop call obs tmo n ev sev i rs t f s of
        (Inl p, s1) \<Rightarrow> (Inl p, s1)
      | (Inr (t1, f1), s1) \<Rightarrow> rules_loop call obs tmo n ev sev (i + length rs) rs' t1 f1 s1)"
proof (induction rs arbitrary: i t f s)
  case (Cons r rs)
  then show ?case by (simp add: Let_def split: sum.splits bool.splits option.splits prod.splits)
qed simp

definition bump_prefiltered :: "event \<Rightarrow> rule list \<Rightarrow> 're pool_state \<Rightarrow> 're pool_state" where
  "bump_prefiltered ev rs s =
     s\<lparr>ps_prefiltered := (\<lambda>a. ps_prefiltered s a + int (rejections ev rs a))\<rparr>"

text \<open>Once the context has ended no rule runs: each that passes the prefilter fails.\<close>

lemma rules_loop_expired:
  assumes "\<forall>j \<ge> i. o_before (obs j) = Some e"
    and "\<forall>r \<in> set rs. list_all wf_pred (rule_Match r)"
  shows "rules_loop call obs tmo n ev sev i rs t f s =
     (Inr (t, f @ map (\<lambda>r. ctx_failure r e) (filter (prefilter_passes ev) rs)), bump_prefiltered ev rs s)"
  using assms
proof (induction rs arbitrary: i f s)
  case Nil
  then show ?case by (simp add: bump_prefiltered_def)
next
  case (Cons r rs)
  have later: "\<forall>j \<ge> Suc i. o_before (obs j) = Some e" using Cons.prems by simp
  have wf: "\<forall>r \<in> set rs. list_all wf_pred (rule_Match r)" using Cons.prems by simp
  consider (pass) "prefilter_passes ev r" | (reject) "prefilter_rejects ev r"
    using prefilter_cases [of ev r] PrefilterMatch_wf [of "rule_Match r" ev] Cons.prems(2) by auto
  then show ?case
  proof cases
    case pass
    have now: "o_before (obs i) = Some e" using Cons.prems(1) by simp
    show ?thesis
      unfolding rules_loop_late [where obs = obs and i = i, OF pass now] Cons.IH [OF later wf]
      using pass passes_not_rejects [OF pass] by (simp add: bump_prefiltered_def)
  next
    case reject
    have np: "\<not> prefilter_passes ev r" using reject passes_not_rejects by blast
    show ?thesis
      unfolding rules_loop_skip [OF reject] Cons.IH [OF later wf]
      using reject np by (auto simp: bump_prefiltered_def fun_eq_iff)
  qed
qed

section \<open>Isolation\<close>

text \<open>
  A rule's evaluation does not see how the previous one left the thread: neither its
  cancellation, nor its step budget, nor its identity.
\<close>

lemma evalRule_isolated:
  "evalRule call obs r sev (s\<lparr>ps_worker := (ps_worker s)\<lparr>w_curRule := x, w_cancelled := c,
      w_stepsExceeded := e, w_maxSteps := m\<rparr>\<rparr>) = evalRule call obs r sev s"
  by (simp add: evalRule_def arm_def)

definition fresh_thread :: "rule \<Rightarrow> 're worker \<Rightarrow> bool" where
  "fresh_thread r w \<longleftrightarrow> \<not> w_cancelled w \<and> \<not> w_stepsExceeded w \<and>
     w_maxSteps w = w_steps w + ruleStepBudget \<and> w_curRule w = rule_RuleID r"

lemma arm_fresh: "fresh_thread r (arm r w)"
  by (simp add: arm_def fresh_thread_def)

section \<open>Whole events\<close>

lemma processEvent_nil:
  "fst (processEvent call obs tmo l d None ev s) =
     Inr \<lparr>res_EventID = ev_EventID ev, res_EventType = ev_EventType ev,
          res_FinalVerdict = VerdictApprove, res_TriggeredRules = [], res_FailedRules = [],
          res_Payload = ev_Payload ev, res_RawPayload = ev_RawJSON ev,
          res_LatencyUS = l, res_ProcessedAt = d\<rparr>"
  by (simp add: processEvent_def)

lemma processEvent_memo: "w_memo (ps_worker (snd (processEvent call obs tmo l d snapo ev s))) = []"
  by (auto simp: processEvent_def clear_memo_def Let_def split: option.splits prod.splits sum.splits)

text \<open>The result of an event under a snapshot, in terms of the loop.\<close>

lemma processEvent_Some:
  assumes "processEvent call obs tmo l d (Some snap) ev s = (Inr res, s')"
  obtains sev s1 s2 where
    "rules_loop call obs tmo (int (length (RulesForEvent snap (ev_EventType ev)))) ev sev 0
       (RulesForEvent snap (ev_EventType ev)) [] [] s1 = (Inr (res_TriggeredRules res, res_FailedRules res), s2)"
    "res_FinalVerdict res = resolveVerdict (res_TriggeredRules res)"
    "ps_prefiltered s1 = ps_prefiltered s" "ps_prefiltered s' = ps_prefiltered s2"
    "res_EventID res = ev_EventID ev" "res_EventType res = ev_EventType ev"
    "res_Payload res = ev_Payload ev" "res_RawPayload res = ev_RawJSON ev"
  using assms
  by (auto simp: processEvent_def clear_memo_def Let_def split: prod.splits sum.splits)

definition snapshot_wf :: "snapshot \<Rightarrow> bool" where
  "snapshot_wf snap \<longleftrightarrow> (\<forall>t. \<forall>r \<in> set (RulesForEvent snap t). list_all wf_pred (rule_Match r))"

lemma processEvent_total:
  assumes "\<And>snap. snapo = Some snap \<Longrightarrow> snapshot_wf snap"
  shows "\<exists>res s'. processEvent call obs tmo l d snapo ev s = (Inr res, s')"
proof (cases snapo)
  case None
  then show ?thesis by (simp add: processEvent_def)
next
  case (Some snap)
  let ?rs = "RulesForEvent snap (ev_EventType ev)"
  have "\<forall>r \<in> set ?rs. list_all wf_pred (rule_Match r)"
    using assms [OF Some] by (simp add: snapshot_wf_def)
  then obtain t f s2 where "rules_loop call obs tmo (int (length ?rs)) ev (SEvent (length (ps_heap s))) 0 ?rs [] []
      (s\<lparr>ps_heap := snd (eventToStarlark ev (ps_heap s)),
         ps_worker := (ps_worker s)\<lparr>w_curEntity := ev_EntityID ev\<rparr>\<rparr>) = (Inr (t, f), s2)"
    using rules_loop_total by (metis surj_pair)
  then show ?thesis
    by (simp add: processEvent_def Some eventToStarlark_def)
qed

lemma processEvent_id:
  "processEvent call obs tmo l d snapo ev s = (Inr res, s') \<Longrightarrow> res_EventID res = ev_EventID ev"
  by (auto simp: processEvent_def Let_def split: option.splits prod.splits sum.splits)

lemma worker_run_total:
  assumes "\<forall>j \<in> set js. \<forall>snap. j_snap j = Some snap \<longrightarrow> snapshot_wf snap"
  shows "\<exists>rs s'. worker_run call tmo js s = (Inr rs, s') \<and>
           map res_EventID rs = map (\<lambda>j. ev_EventID (j_event j)) js"
  using assms
proof (induction js arbitrary: s)
  case (Cons j js)
  obtain res s1 where p: "processEvent call (j_obs j) tmo (j_latency j) (j_done j) (j_snap j) (j_event j) s = (Inr res, s1)"
    using processEvent_total Cons.prems by (metis list.set_intros(1))
  obtain rs s2 where w: "worker_run call tmo js s1 = (Inr rs, s2)"
    "map res_EventID rs = map (\<lambda>j. ev_EventID (j_event j)) js"
    using Cons.IH [of s1] Cons.prems by auto
  show ?case by (rule exI [of _ "res # rs"], rule exI [of _ s2]) (simp add: p w processEvent_id [OF p])
qed simp

section \<open>The pool\<close>

text \<open>
  \<^verbatim>\<open>Run\<close> with its workers: each has its own state and view heap and shares the counter
  store, the prefilter counts and the statistics. An action is an event processed by one of
  the workers, or the collector's minute tick.
\<close>

record 're pool =
  po_workers :: "('re worker \<times> heap) list"
  po_counters :: counter_store
  po_prefiltered :: "nat \<Rightarrow> int"
  po_stats :: "nat \<Rightarrow> rule_stats"

datatype pool_action = Work nat job | Collect int

definition NewPool :: "nat \<Rightarrow> counter_store \<Rightarrow> (nat \<Rightarrow> int) \<Rightarrow> (nat \<Rightarrow> rule_stats) \<Rightarrow> 're pool" where
  "NewPool workerCount cs pre st =
     \<lparr>po_workers = replicate workerCount (newWorker, []), po_counters = cs,
      po_prefiltered = pre, po_stats = st\<rparr>"

definition worker_view :: "nat \<Rightarrow> 're pool \<Rightarrow> 're pool_state" where
  "worker_view i p =
     \<lparr>ps_worker = fst (po_workers p ! i), ps_heap = snd (po_workers p ! i), ps_counters = po_counters p,
      ps_prefiltered = po_prefiltered p, ps_stats = po_stats p\<rparr>"

definition store_view :: "nat \<Rightarrow> 're pool_state \<Rightarrow> 're pool \<Rightarrow> 're pool" where
  "store_view i s p =
     \<lparr>po_workers = (po_workers p)[i := (ps_worker s, ps_heap s)], po_counters = ps_counters s,
      po_prefiltered = ps_prefiltered s, po_stats = ps_stats s\<rparr>"

definition do_job :: "'re starlark_call \<Rightarrow> duration \<Rightarrow> job \<Rightarrow> 're pool_state \<Rightarrow> (panic + result) \<times> 're pool_state" where
  "do_job call tmo j s = processEvent call (j_obs j) tmo (j_latency j) (j_done j) (j_snap j) (j_event j) s"

text \<open>The results sent, in the order of the actions; \<open>None\<close> if a worker does not exist.\<close>

fun pool_run ::
  "'re starlark_call \<Rightarrow> duration \<Rightarrow> pool_action list \<Rightarrow> 're pool \<Rightarrow> (panic + result list \<times> 're pool) option" where
  "pool_run call tmo [] p = Some (Inr ([], p))"
| "pool_run call tmo (Collect now # as) p =
     pool_run call tmo as (p\<lparr>po_counters := store_gc now (po_counters p)\<rparr>)"
| "pool_run call tmo (Work i j # as) p =
     (if i < length (po_workers p)
      then (case do_job call tmo j (worker_view i p) of
              (Inl e, s) \<Rightarrow> Some (Inl e)
            | (Inr r, s) \<Rightarrow>
                (case pool_run call tmo as (store_view i s p) of
                   None \<Rightarrow> None
                 | Some (Inl e) \<Rightarrow> Some (Inl e)
                 | Some (Inr (rs, p')) \<Rightarrow> Some (Inr (r # rs, p'))))
      else None)"

fun jobs_of :: "pool_action list \<Rightarrow> job list" where
  "jobs_of [] = []"
| "jobs_of (Work i j # as) = j # jobs_of as"
| "jobs_of (Collect now # as) = jobs_of as"

definition schedule_ok :: "nat \<Rightarrow> pool_action list \<Rightarrow> bool" where
  "schedule_ok n as \<longleftrightarrow>
     (\<forall>a \<in> set as. case a of
        Work i j \<Rightarrow> i < n \<and> (\<forall>snap. j_snap j = Some snap \<longrightarrow> snapshot_wf snap)
      | Collect _ \<Rightarrow> True)"

lemma length_store_view [simp]: "length (po_workers (store_view i s p)) = length (po_workers p)"
  by (simp add: store_view_def)

text \<open>Every event given to a pool comes out as one result, whichever worker takes it.\<close>

lemma pool_run_total:
  assumes "schedule_ok (length (po_workers p)) as"
  shows "\<exists>rs p'. pool_run call tmo as p = Some (Inr (rs, p')) \<and>
           map res_EventID rs = map (\<lambda>j. ev_EventID (j_event j)) (jobs_of as)"
  using assms
proof (induction as arbitrary: p)
  case (Cons a as)
  show ?case
  proof (cases a)
    case (Collect now)
    then show ?thesis using Cons.IH [of "p\<lparr>po_counters := store_gc now (po_counters p)\<rparr>"] Cons.prems
      by (simp add: schedule_ok_def)
  next
    case (Work i j)
    have i: "i < length (po_workers p)" and wf: "\<And>snap. j_snap j = Some snap \<Longrightarrow> snapshot_wf snap"
      using Cons.prems by (auto simp: schedule_ok_def Work)
    obtain r s where r: "do_job call tmo j (worker_view i p) = (Inr r, s)"
      using processEvent_total [OF wf] unfolding do_job_def by blast
    obtain rs p' where rs: "pool_run call tmo as (store_view i s p) = Some (Inr (rs, p'))"
      "map res_EventID rs = map (\<lambda>j. ev_EventID (j_event j)) (jobs_of as)"
      using Cons.IH [of "store_view i s p"] Cons.prems by (auto simp: schedule_ok_def)
    have "res_EventID r = ev_EventID (j_event j)" using r unfolding do_job_def by (rule processEvent_id)
    with i r rs show ?thesis by (simp add: Work)
  qed
qed simp

text \<open>What a result says of its job.\<close>

definition result_of :: "job \<Rightarrow> result \<Rightarrow> bool" where
  "result_of j r \<longleftrightarrow> res_EventID r = ev_EventID (j_event j) \<and> res_EventType r = ev_EventType (j_event j) \<and>
     res_RawPayload r = ev_RawJSON (j_event j) \<and> res_ProcessedAt r = j_done j \<and> known_verdict (res_FinalVerdict r)"

lemma do_job_result: "do_job call tmo j s = (Inr r, s') \<Longrightarrow> result_of j r"
proof (cases "j_snap j")
  case None
  assume "do_job call tmo j s = (Inr r, s')"
  with None show ?thesis by (auto simp: do_job_def processEvent_def result_of_def known_verdict_def)
next
  case (Some snap)
  assume run: "do_job call tmo j s = (Inr r, s')"
  then have fields: "res_EventID r = ev_EventID (j_event j)" "res_EventType r = ev_EventType (j_event j)"
    "res_RawPayload r = ev_RawJSON (j_event j)" "res_ProcessedAt r = j_done j"
    by (auto simp: do_job_def processEvent_def Some Let_def split: prod.splits sum.splits)
  from run obtain sev s1 s2 where loop:
    "rules_loop call (j_obs j) tmo (int (length (RulesForEvent snap (ev_EventType (j_event j))))) (j_event j) sev 0
       (RulesForEvent snap (ev_EventType (j_event j))) [] [] s1 = (Inr (res_TriggeredRules r, res_FailedRules r), s2)"
    and verdict: "res_FinalVerdict r = resolveVerdict (res_TriggeredRules r)"
    unfolding do_job_def Some by (rule processEvent_Some)
  from rules_loop_accounts [OF loop] have "list_all triggered_ok (res_TriggeredRules r)"
    by (auto simp: accounts_def Let_def)
  then have "known_verdict (res_FinalVerdict r)"
    unfolding verdict by (intro resolveVerdict_known) (auto simp: list_all_iff triggered_ok_def)
  with fields show ?thesis by (simp add: result_of_def)
qed

lemma pool_run_results:
  "pool_run call tmo as p = Some (Inr (rs, p')) \<Longrightarrow> list_all2 result_of (jobs_of as) rs"
proof (induction as arbitrary: p rs)
  case (Cons a as)
  show ?case
  proof (cases a)
    case (Work i j)
    from Cons.prems obtain r s rs' where "do_job call tmo j (worker_view i p) = (Inr r, s)"
      "pool_run call tmo as (store_view i s p) = Some (Inr (rs', p'))" "rs = r # rs'"
      by (auto simp: Work split: if_splits prod.splits sum.splits option.splits)
    with Cons.IH do_job_result show ?thesis by (simp add: Work)
  qed (use Cons in simp)
qed simp

section \<open>Compiled snapshots\<close>

lemma snapshot_wf_buildIndex:
  assumes "list_all (\<lambda>r. list_all wf_pred (rule_Match r)) (snap_Rules s)"
  shows "snapshot_wf (buildIndex s)"
  unfolding snapshot_wf_def
proof (intro allI ballI)
  fix t r assume "r \<in> set (RulesForEvent (buildIndex s) t)"
  then have "r \<in> set (rules_matching (snap_Rules s) t)"
    using RulesForEvent_mset [of s t] by (metis set_mset_mset)
  then have "r \<in> set (snap_Rules s)" by (simp add: rules_matching_def)
  with assms show "list_all wf_pred (rule_Match r)" by (simp add: list_all_iff)
qed

lemma sample_snapshot_wf: "snapshot_wf sample_snapshot"
proof -
  from sample_compile_run obtain c where
    run: "CompileDir sample_init id sort_by_priority (Inr ''s1'') 0 (sample_dir [''p1'', ''*22'']) fresh_compiler
        = (Inr sample_snapshot, c)" by (auto simp: sample_compile_def)
  have ok: "cache_ok sample_init id fresh_compiler" by (simp add: fresh_compiler_def cache_ok_empty)
  obtain s0 where s0: "sample_snapshot = buildIndex s0" using run by (rule CompileDir_Inr) blast
  have "\<forall>r \<in> set (snap_Rules (buildIndex s0)). list_all wf_pred (rule_Match r)"
    using ps.CompileDir_snapshot(4) [OF ok run] unfolding s0 .
  then show ?thesis unfolding s0 by (intro snapshot_wf_buildIndex) (simp add: list_all_iff)
qed

definition sample_state :: "string pool_state" where
  "sample_state = \<lparr>ps_worker = newWorker, ps_heap = [], ps_counters = empty_store,
     ps_prefiltered = (\<lambda>_. 0), ps_stats = (\<lambda>_. new_stats)\<rparr>"

definition failing_call :: "string starlark_call" where
  "failing_call f arg m = (Raised ''boom'', m)"

definition on_time :: "nat \<Rightarrow> rule_obs" where
  "on_time i = \<lparr>o_before = None, o_after = None, o_elapsed = 1000, o_now = 0\<rparr>"

definition too_late :: "nat \<Rightarrow> rule_obs" where
  "too_late i = \<lparr>o_before = Some DeadlineExceeded, o_after = Some DeadlineExceeded, o_elapsed = 0, o_now = 0\<rparr>"

section \<open>Properties\<close>

text \<open>
  C1: every rule is accounted for. Each rule that matches the event's type and passes its
  prefilter appears exactly once, in order, among the triggered (with a known verdict and no
  error) or the failed (with its error and no verdict) rules of the result; each other one is
  counted once as prefiltered; and the final verdict is resolved from the triggered ones.
\<close>

theorem rules_accounted:
  assumes "processEvent call obs tmo l d (Some snap) ev s = (Inr res, s')"
  shows "accounts ev (RulesForEvent snap (ev_EventType ev)) (res_TriggeredRules res) (res_FailedRules res) \<and>
    res_FinalVerdict res = resolveVerdict (res_TriggeredRules res) \<and> known_verdict (res_FinalVerdict res) \<and>
    ps_prefiltered s' =
      (\<lambda>a. ps_prefiltered s a + int (rejections ev (RulesForEvent snap (ev_EventType ev)) a)) \<and>
    res_EventID res = ev_EventID ev \<and> res_Payload res = ev_Payload ev \<and> w_memo (ps_worker s') = []"
proof -
  obtain sev s1 s2 where
    loop: "rules_loop call obs tmo (int (length (RulesForEvent snap (ev_EventType ev)))) ev sev 0
       (RulesForEvent snap (ev_EventType ev)) [] [] s1 = (Inr (res_TriggeredRules res, res_FailedRules res), s2)"
    and rest: "res_FinalVerdict res = resolveVerdict (res_TriggeredRules res)"
      "ps_prefiltered s1 = ps_prefiltered s" "ps_prefiltered s' = ps_prefiltered s2"
      "res_EventID res = ev_EventID ev" "res_Payload res = ev_Payload ev"
    by (rule processEvent_Some [OF assms]) blast
  from rules_loop_accounts [OF loop]
  have acc: "accounts ev (RulesForEvent snap (ev_EventType ev)) (res_TriggeredRules res) (res_FailedRules res)"
    and pre: "\<forall>a. ps_prefiltered s2 a = ps_prefiltered s1 a + int (rejections ev (RulesForEvent snap (ev_EventType ev)) a)"
    by auto
  have "\<forall>rr \<in> set (res_TriggeredRules res). known_verdict (rr_Verdict rr)"
    using acc by (simp add: accounts_def Let_def list_all_iff triggered_ok_def)
  then have "known_verdict (res_FinalVerdict res)" by (simp add: rest resolveVerdict_known)
  with acc pre rest processEvent_memo [of call obs tmo l d "Some snap" ev s] assms show ?thesis by auto
qed

theorem rules_accounted_witness:
  "\<exists>res s'. processEvent failing_call on_time 1000 5 9 (Some sample_snapshot) sample_event sample_state = (Inr res, s') \<and>
     res_EventID res = ''1'' \<and> known_verdict (res_FinalVerdict res)"
proof -
  obtain res s' where run: "processEvent failing_call on_time 1000 5 9 (Some sample_snapshot) sample_event sample_state
      = (Inr res, s')"
    using processEvent_total [of "Some sample_snapshot"] sample_snapshot_wf by (metis option.inject)
  from rules_accounted [OF run] run show ?thesis by (auto simp: sample_event_def)
qed


definition sample_job :: "event \<Rightarrow> job" where
  "sample_job ev = \<lparr>j_event = ev, j_snap = Some sample_snapshot, j_obs = on_time, j_latency = 3, j_done = 4\<rparr>"




end
