(* ===== verification/Writer.thy ===== *)
theory Writer
  imports Types
begin

text \<open>
  \<^verbatim>\<open>output/writer.go\<close> and \<^verbatim>\<open>output/trace.go\<close>: what happens to a result. The database is a
  parameter (the record \<open>database\<close>), the behaviour the writer relies on the predicate
  \<open>db_laws\<close>; JSON encoding and the clock are parameters. \<^verbatim>\<open>Run\<close> is a step function over the
  cases of its \<^verbatim>\<open>select\<close> statements. The lemmas show that an insert is all or nothing, that
  batching and its timing do not show in what is stored, and what the counters and the
  webhook retries add up to.
\<close>

section \<open>Storage\<close>

definition batchSize :: nat where "batchSize = 100"
definition maxConcurrentWebhooks :: nat where "maxConcurrentWebhooks = 100"
definition retainDays :: nat where "retainDays = 30"

record db_row =
  row_event_id :: string
  row_event_type :: string
  row_verdict :: string
  row_triggered :: bytes
  row_failed :: bytes
  row_payload :: bytes
  row_latency_us :: int
  row_processed_at :: gotime

text \<open>
  The driver: each operation may fail with a message. \<open>db_retain d\<close> deletes the rows older
  than \<open>d\<close> days, \<open>db_schema\<close> creates the results table if it does not exist, \<open>db_memlimit\<close>
  caps the memory.
\<close>

record 'db database =
  db_begin :: "'db \<Rightarrow> string option \<times> 'db"
  db_prepare :: "'db \<Rightarrow> string option \<times> 'db"
  db_insert :: "db_row \<Rightarrow> 'db \<Rightarrow> string option \<times> 'db"
  db_commit :: "'db \<Rightarrow> string option \<times> 'db"
  db_rollback :: "'db \<Rightarrow> 'db"
  db_retain :: "nat \<Rightarrow> 'db \<Rightarrow> string option \<times> 'db"
  db_close :: "'db \<Rightarrow> string option \<times> 'db"
  db_schema :: "'db \<Rightarrow> string option \<times> 'db"
  db_memlimit :: "'db \<Rightarrow> string option \<times> 'db"

record encoders =
  en_rules :: "rule_result list \<Rightarrow> string + bytes"
  en_payload :: "payload \<Rightarrow> string + bytes"

datatype writer_error =
    OpenFailed string
  | SchemaFailed string
  | MemoryLimitFailed string
  | BeginFailed string
  | PrepareFailed string
  | MarshalTriggered string string
  | MarshalFailed string string
  | MarshalPayload string string
  | InsertFailed string string
  | CommitFailed string

text \<open>The zero \<^verbatim>\<open>time.Time\<close> is the first instant of year 1.\<close>

definition zero_time :: gotime where
  "zero_time = - 62135596800000000000"

definition row_of :: "encoders \<Rightarrow> gotime \<Rightarrow> result \<Rightarrow> writer_error + db_row" where
  "row_of en now r =
     (case en_rules en (res_TriggeredRules r) of
        Inl e \<Rightarrow> Inl (MarshalTriggered (res_EventID r) e)
      | Inr triggered \<Rightarrow>
     (case en_rules en (res_FailedRules r) of
        Inl e \<Rightarrow> Inl (MarshalFailed (res_EventID r) e)
      | Inr failed \<Rightarrow>
     (case (if res_RawPayload r = [] then en_payload en (res_Payload r) else Inr (res_RawPayload r)) of
        Inl e \<Rightarrow> Inl (MarshalPayload (res_EventID r) e)
      | Inr pl \<Rightarrow>
          Inr \<lparr>row_event_id = res_EventID r, row_event_type = res_EventType r,
               row_verdict = res_FinalVerdict r, row_triggered = triggered, row_failed = failed,
               row_payload = pl, row_latency_us = res_LatencyUS r,
               row_processed_at = (if res_ProcessedAt r = zero_time then now else res_ProcessedAt r)\<rparr>)))"

text \<open>The insert loop of a transaction.\<close>

fun insert_rows ::
  "'db database \<Rightarrow> encoders \<Rightarrow> gotime \<Rightarrow> result list \<Rightarrow> 'db \<Rightarrow> writer_error option \<times> 'db" where
  "insert_rows D en now [] s = (None, s)"
| "insert_rows D en now (r # rs) s =
     (case row_of en now r of
        Inl e \<Rightarrow> (Some e, s)
      | Inr row \<Rightarrow>
          (case db_insert D row s of
             (Some e, s') \<Rightarrow> (Some (InsertFailed (res_EventID r) e), s')
           | (None, s') \<Rightarrow> insert_rows D en now rs s'))"

text \<open>The deferred \<^verbatim>\<open>Rollback\<close> does nothing after a commit, so it is shown on the failing ways out.\<close>

definition insertBatch ::
  "'db database \<Rightarrow> encoders \<Rightarrow> gotime \<Rightarrow> result list \<Rightarrow> 'db \<Rightarrow> writer_error option \<times> 'db" where
  "insertBatch D en now rs s =
     (case db_begin D s of
        (Some e, s1) \<Rightarrow> (Some (BeginFailed e), s1)
      | (None, s1) \<Rightarrow>
     (case db_prepare D s1 of
        (Some e, s2) \<Rightarrow> (Some (PrepareFailed e), db_rollback D s2)
      | (None, s2) \<Rightarrow>
     (case insert_rows D en now rs s2 of
        (Some e, s3) \<Rightarrow> (Some e, db_rollback D s3)
      | (None, s3) \<Rightarrow>
     (case db_commit D s3 of
        (Some e, s4) \<Rightarrow> (Some (CommitFailed e), db_rollback D s4)
      | (None, s4) \<Rightarrow> (None, s4)))))"

definition flush ::
  "'db database \<Rightarrow> encoders \<Rightarrow> gotime \<Rightarrow> gotime \<Rightarrow> result list \<Rightarrow> 'db \<Rightarrow> 'db" where
  "flush D en now1 now2 rs s =
     (if rs = [] then s
      else (case insertBatch D en now1 rs s of
              (None, s1) \<Rightarrow> s1
            | (Some _, s1) \<Rightarrow> snd (insertBatch D en now2 rs s1)))"

definition runRetention :: "'db database \<Rightarrow> 'db \<Rightarrow> 'db" where
  "runRetention D s = snd (db_retain D retainDays s)"

section \<open>The writer\<close>

record stats =
  st_approve :: int
  st_block :: int
  st_review :: int
  st_errored :: int
  st_skipped :: int

definition no_stats :: stats where
  "no_stats = \<lparr>st_approve = 0, st_block = 0, st_review = 0, st_errored = 0, st_skipped = 0\<rparr>"

definition WriterStats :: "stats \<Rightarrow> (string \<times> int) list" where
  "WriterStats s =
     [(''results_approve'', st_approve s), (''results_block'', st_block s),
      (''results_review'', st_review s), (''results_errored'', st_errored s),
      (''results_skipped'', st_skipped s)]"

definition observe :: "bool \<Rightarrow> result \<Rightarrow> stats \<Rightarrow> bool \<times> stats" where
  "observe emitInteresting r s =
     (let s1 = (if res_FinalVerdict r = VerdictBlock then s\<lparr>st_block := st_block s + 1\<rparr>
                else if res_FinalVerdict r = VerdictReview then s\<lparr>st_review := st_review s + 1\<rparr>
                else s\<lparr>st_approve := st_approve s + 1\<rparr>);
          s2 = (if length (res_FailedRules r) > 0 then s1\<lparr>st_errored := st_errored s1 + 1\<rparr> else s1)
      in if emitInteresting \<and> res_FinalVerdict r = VerdictApprove \<and> length (res_FailedRules r) = 0
         then (False, s2\<lparr>st_skipped := st_skipped s2 + 1\<rparr>)
         else (True, s2))"

text \<open>
  \<open>wr_spawned\<close> logs the results a webhook goroutine was started for, \<open>wr_inflight\<close> is the
  fill of the semaphore, \<open>wr_clock\<close> yields the times flushes read.
\<close>

datatype writer_mode = Serving | Draining | Closed

record 'db writer =
  wr_db :: 'db
  wr_batch :: "result list"
  wr_stats :: stats
  wr_inflight :: nat
  wr_spawned :: "result list"
  wr_mode :: writer_mode
  wr_ready :: bool
  wr_clock :: "gotime list"

record 'db writer_cfg =
  wc_db :: "'db database"
  wc_enc :: encoders
  wc_interesting :: bool

text \<open>The cases of the two \<^verbatim>\<open>select\<close> statements, and the end of a webhook goroutine.\<close>

datatype writer_event =
    Recv result
  | RecvClosed
  | FlushTick
  | RetentionTick
  | CtxDone
  | DrainTimeout
  | WebhookDone

definition now_at :: "nat \<Rightarrow> 'db writer \<Rightarrow> gotime" where
  "now_at i w = (if i < length (wr_clock w) then wr_clock w ! i else 0)"

definition do_flush :: "'db writer_cfg \<Rightarrow> 'db writer \<Rightarrow> 'db writer" where
  "do_flush c w =
     w\<lparr>wr_db := flush (wc_db c) (wc_enc c) (now_at 0 w) (now_at 1 w) (wr_batch w) (wr_db w),
       wr_clock := drop 2 (wr_clock w)\<rparr>"

definition resetBatch :: "'db writer \<Rightarrow> 'db writer" where
  "resetBatch w = w\<lparr>wr_batch := []\<rparr>"

definition close_writer :: "'db writer_cfg \<Rightarrow> 'db writer \<Rightarrow> 'db writer" where
  "close_writer c w =
     w\<lparr>wr_ready := False, wr_db := snd (db_close (wc_db c) (wr_db w)), wr_mode := Closed\<rparr>"

text \<open>A received result: counted, and if the policy keeps it, batched.\<close>

definition take_result :: "'db writer_cfg \<Rightarrow> result \<Rightarrow> 'db writer \<Rightarrow> bool \<times> 'db writer" where
  "take_result c r w =
     (case observe (wc_interesting c) r (wr_stats w) of
        (False, st) \<Rightarrow> (False, w\<lparr>wr_stats := st\<rparr>)
      | (True, st) \<Rightarrow>
          (let w1 = w\<lparr>wr_stats := st, wr_batch := wr_batch w @ [r]\<rparr>
           in (True, if length (wr_batch w1) \<ge> batchSize then resetBatch (do_flush c w1) else w1)))"

text \<open>The non-blocking acquisition of the webhook semaphore.\<close>

definition spawn_webhook :: "result \<Rightarrow> 'db writer \<Rightarrow> 'db writer" where
  "spawn_webhook r w =
     (if wr_inflight w < maxConcurrentWebhooks
      then w\<lparr>wr_inflight := wr_inflight w + 1, wr_spawned := wr_spawned w @ [r]\<rparr>
      else w)"

fun writer_step :: "'db writer_cfg \<Rightarrow> writer_event \<Rightarrow> 'db writer \<Rightarrow> 'db writer option" where
  "writer_step c (Recv r) w =
     (case wr_mode w of
        Serving \<Rightarrow> (case take_result c r w of
                     (True, w') \<Rightarrow> Some (spawn_webhook r w') | (False, w') \<Rightarrow> Some w')
      | Draining \<Rightarrow> Some (snd (take_result c r w))
      | Closed \<Rightarrow> None)"
| "writer_step c RecvClosed w =
     (if wr_mode w = Closed then None else Some (close_writer c (do_flush c w)))"
| "writer_step c FlushTick w =
     (if wr_mode w = Serving
      then Some (if length (wr_batch w) > 0 then resetBatch (do_flush c w) else w) else None)"
| "writer_step c RetentionTick w =
     (if wr_mode w = Serving then Some (w\<lparr>wr_db := runRetention (wc_db c) (wr_db w)\<rparr>) else None)"
| "writer_step c CtxDone w =
     (if wr_mode w = Serving then Some (w\<lparr>wr_mode := Draining\<rparr>) else None)"
| "writer_step c DrainTimeout w =
     (if wr_mode w = Draining then Some (close_writer c (do_flush c w)) else None)"
| "writer_step c WebhookDone w =
     (if wr_inflight w > 0 then Some (w\<lparr>wr_inflight := wr_inflight w - 1\<rparr>) else None)"

fun writer_run :: "'db writer_cfg \<Rightarrow> writer_event list \<Rightarrow> 'db writer \<Rightarrow> 'db writer option" where
  "writer_run c [] w = Some w"
| "writer_run c (e # es) w =
     (case writer_step c e w of None \<Rightarrow> None | Some w' \<Rightarrow> writer_run c es w')"

text \<open>
  The writer as \<^verbatim>\<open>NewWriter\<close> leaves it over an open database. A database that cannot be set up is
  closed again; the error comes with the state it was left in, if it was opened at all.
\<close>

definition fresh_writer :: "'db \<Rightarrow> gotime list \<Rightarrow> 'db writer" where
  "fresh_writer db clock = \<lparr>wr_db = db, wr_batch = [], wr_stats = no_stats, wr_inflight = 0,
     wr_spawned = [], wr_mode = Serving, wr_ready = True, wr_clock = clock\<rparr>"

definition createSchema :: "'db database \<Rightarrow> 'db \<Rightarrow> string option \<times> 'db" where
  "createSchema D s = db_schema D s"

definition NewWriter ::
  "'db database \<Rightarrow> string + 'db \<Rightarrow> gotime list \<Rightarrow> writer_error \<times> 'db option + 'db writer" where
  "NewWriter D opened clock =
     (case opened of
        Inl e \<Rightarrow> Inl (OpenFailed e, None)
      | Inr s \<Rightarrow>
     (case createSchema D s of
        (Some e, s1) \<Rightarrow> Inl (SchemaFailed e, Some (snd (db_close D s1)))
      | (None, s1) \<Rightarrow>
     (case db_memlimit D s1 of
        (Some e, s2) \<Rightarrow> Inl (MemoryLimitFailed e, Some (snd (db_close D s2)))
      | (None, s2) \<Rightarrow> Inr (fresh_writer s2 clock))))"

lemma NewWriter_ready: "NewWriter D opened clock = Inr w \<Longrightarrow> wr_ready w \<and> wr_mode w = Serving \<and> wr_batch w = []"
  by (auto simp: NewWriter_def fresh_writer_def split: sum.splits prod.splits option.splits)

section \<open>What the writer relies on\<close>

text \<open>\<^verbatim>\<open>INSERT OR IGNORE\<close> on the primary key \<^verbatim>\<open>event_id\<close>.\<close>

definition insert_ignore :: "db_row \<Rightarrow> db_row list \<Rightarrow> db_row list" where
  "insert_ignore row rows =
     (if row_event_id row \<in> row_event_id ` set rows then rows else rows @ [row])"

text \<open>
  Transactions: \<open>stored s\<close> are the committed rows, \<open>pending s\<close> the inserts of the open
  transaction. Only a successful commit changes what is stored.
\<close>

definition db_laws :: "'db database \<Rightarrow> ('db \<Rightarrow> db_row list) \<Rightarrow> ('db \<Rightarrow> db_row list) \<Rightarrow> bool" where
  "db_laws D stored pending \<longleftrightarrow>
     (\<forall>s e s'. db_begin D s = (e, s') \<longrightarrow> stored s' = stored s \<and> (e = None \<longrightarrow> pending s' = [])) \<and>
     (\<forall>s e s'. db_prepare D s = (e, s') \<longrightarrow> stored s' = stored s \<and> (e = None \<longrightarrow> pending s' = pending s)) \<and>
     (\<forall>row s e s'. db_insert D row s = (e, s') \<longrightarrow>
        stored s' = stored s \<and> (e = None \<longrightarrow> pending s' = pending s @ [row])) \<and>
     (\<forall>s e s'. db_commit D s = (e, s') \<longrightarrow>
        stored s' = (if e = None then fold insert_ignore (pending s) (stored s) else stored s)) \<and>
     (\<forall>s. stored (db_rollback D s) = stored s) \<and>
     (\<forall>s e s'. db_close D s = (e, s') \<longrightarrow> stored s' = stored s)"

definition db_reliable :: "'db database \<Rightarrow> bool" where
  "db_reliable D \<longleftrightarrow>
     (\<forall>s. fst (db_begin D s) = None \<and> fst (db_prepare D s) = None \<and> fst (db_commit D s) = None \<and>
       (\<forall>row. fst (db_insert D row s) = None))"

text \<open>The row of a result whose processing time is set: it does not depend on the clock.\<close>

definition encodable :: "encoders \<Rightarrow> result \<Rightarrow> bool" where
  "encodable en r \<longleftrightarrow> (\<exists>row. row_of en 0 r = Inr row)"

definition row_for :: "encoders \<Rightarrow> result \<Rightarrow> db_row" where
  "row_for en r = (case row_of en 0 r of Inr row \<Rightarrow> row | Inl e \<Rightarrow> undefined e)"

definition timed :: "result \<Rightarrow> bool" where
  "timed r \<longleftrightarrow> res_ProcessedAt r \<noteq> zero_time"

lemma row_of_timed:
  "timed r \<Longrightarrow> row_of en now r = Inr row \<Longrightarrow> encodable en r \<and> row_for en r = row"
  by (auto simp: row_of_def encodable_def row_for_def timed_def split: sum.splits if_splits)

lemma encodable_row: "timed r \<Longrightarrow> encodable en r \<Longrightarrow> row_of en now r = Inr (row_for en r)"
  by (auto simp: row_of_def encodable_def row_for_def timed_def split: sum.splits if_splits)

section \<open>Inserting is all or nothing\<close>

lemma insert_rows_ok:
  assumes "db_laws D stored pending" and "insert_rows D en now rs s = (e, s')" and "\<forall>r \<in> set rs. timed r"
  shows "stored s' = stored s" and "e = None \<Longrightarrow> pending s' = pending s @ map (row_for en) rs"
    and "e = None \<Longrightarrow> \<forall>r \<in> set rs. encodable en r"
proof -
  have "stored s' = stored s \<and> (e = None \<longrightarrow> pending s' = pending s @ map (row_for en) rs \<and>
      (\<forall>r \<in> set rs. encodable en r))"
    using assms(2,3)
  proof (induction rs arbitrary: s)
    case (Cons r rs)
    show ?case
    proof (cases "row_of en now r")
      case (Inl x)
      with Cons.prems show ?thesis by auto
    next
      case (Inr row)
      have row: "encodable en r" "row_for en r = row" using row_of_timed Cons.prems(2) Inr by auto
      obtain e1 s1 where i: "db_insert D row s = (e1, s1)" by fastforce
      then have l: "stored s1 = stored s" "e1 = None \<longrightarrow> pending s1 = pending s @ [row]"
        using assms(1) unfolding db_laws_def by blast+
      show ?thesis
      proof (cases e1)
        case None
        then have "insert_rows D en now rs s1 = (e, s')" using Cons.prems(1) by (simp add: Inr i)
        from Cons.IH [OF this] Cons.prems(2) l None row show ?thesis by simp
      next
        case (Some x)
        with Cons.prems l show ?thesis by (auto simp: Inr i)
      qed
    qed
  qed simp
  then show "stored s' = stored s" and "e = None \<Longrightarrow> pending s' = pending s @ map (row_for en) rs"
    and "e = None \<Longrightarrow> \<forall>r \<in> set rs. encodable en r" by auto
qed

lemma insertBatch_atomic:
  assumes laws: "db_laws D stored pending" and ib: "insertBatch D en now rs s = (e, s')"
    and t: "\<forall>r \<in> set rs. timed r"
  shows "stored s' = (if e = None then fold insert_ignore (map (row_for en) rs) (stored s) else stored s)"
    and "e = None \<Longrightarrow> \<forall>r \<in> set rs. encodable en r"
proof -
  note L = laws [unfolded db_laws_def]
  obtain e1 s1 where b: "db_begin D s = (e1, s1)" by fastforce
  have l1: "stored s1 = stored s" "e1 = None \<longrightarrow> pending s1 = []" using L b by blast+
  obtain e2 s2 where p: "db_prepare D s1 = (e2, s2)" by fastforce
  have l2: "stored s2 = stored s1" "e2 = None \<longrightarrow> pending s2 = pending s1" using L p by blast+
  obtain e3 s3 where i: "insert_rows D en now rs s2 = (e3, s3)" by fastforce
  note l3 = insert_rows_ok [OF laws i t]
  obtain e4 s4 where c: "db_commit D s3 = (e4, s4)" by fastforce
  have l4: "stored s4 = (if e4 = None then fold insert_ignore (pending s3) (stored s3) else stored s3)"
    using L c by blast
  have rb: "stored (db_rollback D x) = stored x" for x using L by blast
  show "stored s' = (if e = None then fold insert_ignore (map (row_for en) rs) (stored s) else stored s)"
    using ib l1 l2 l3 l4 rb
    by (cases e1; cases e2; cases e3; cases e4) (auto simp: insertBatch_def b p i c)
  show "e = None \<Longrightarrow> \<forall>r \<in> set rs. encodable en r"
    using ib l3(3) by (cases e1; cases e2; cases e3; cases e4) (auto simp: insertBatch_def b p i c)
qed

lemma flush_atomic:
  assumes "db_laws D stored pending" and "\<forall>r \<in> set rs. timed r"
  shows "stored (flush D en n1 n2 rs s) = fold insert_ignore (map (row_for en) rs) (stored s) \<and>
           (\<forall>r \<in> set rs. encodable en r) \<or>
         stored (flush D en n1 n2 rs s) = stored s"
proof (cases "rs = []")
  case True
  then show ?thesis by (simp add: flush_def)
next
  case False
  obtain e1 s1 where 1: "insertBatch D en n1 rs s = (e1, s1)" by fastforce
  obtain e2 s2 where 2: "insertBatch D en n2 rs s1 = (e2, s2)" by fastforce
  note a1 = insertBatch_atomic [OF assms(1) 1 assms(2)] and a2 = insertBatch_atomic [OF assms(1) 2 assms(2)]
  show ?thesis
    using a1 a2 False by (cases e1; cases e2) (auto simp: flush_def 1 2)
qed

lemma insert_rows_reliable:
  assumes "db_reliable D" and "\<forall>r \<in> set rs. timed r \<and> encodable en r"
  shows "fst (insert_rows D en now rs s) = None"
  using assms(2)
proof (induction rs arbitrary: s)
  case (Cons r rs)
  obtain e s1 where i: "db_insert D (row_for en r) s = (e, s1)" by fastforce
  have "e = None" using assms(1) i unfolding db_reliable_def by (metis fst_conv)
  with Cons i show ?case by (simp add: encodable_row)
qed simp

lemma flush_reliable:
  assumes laws: "db_laws D stored pending" and rel: "db_reliable D"
    and ok: "\<forall>r \<in> set rs. timed r \<and> encodable en r"
  shows "stored (flush D en n1 n2 rs s) = fold insert_ignore (map (row_for en) rs) (stored s)"
proof (cases "rs = []")
  case True
  then show ?thesis by (simp add: flush_def)
next
  case False
  obtain e s1 where ib: "insertBatch D en n1 rs s = (e, s1)" by fastforce
  have "e = None"
    using ib rel insert_rows_reliable [OF rel ok, of n1]
    unfolding db_reliable_def insertBatch_def
    by (auto split: prod.splits option.splits) (metis fst_conv option.distinct(1))+
  with insertBatch_atomic(1) [OF laws ib] ok False show ?thesis by (simp add: flush_def ib)
qed

text \<open>Storing the same batch again changes nothing.\<close>

lemma fold_insert_ignore_ids:
  "row_event_id ` set (fold insert_ignore rows st) = row_event_id ` set st \<union> row_event_id ` set rows"
  by (induction rows arbitrary: st) (auto simp: insert_ignore_def)

lemma fold_insert_ignore_known:
  "row_event_id ` set rows \<subseteq> row_event_id ` set st \<Longrightarrow> fold insert_ignore rows st = st"
  by (induction rows) (auto simp: insert_ignore_def)

lemma fold_insert_ignore_distinct:
  "distinct (map row_event_id st) \<Longrightarrow> distinct (map row_event_id (fold insert_ignore rows st))"
  by (induction rows arbitrary: st) (auto simp: insert_ignore_def)

lemma fold_insert_ignore_set: "set (fold insert_ignore rows st) \<subseteq> set st \<union> set rows"
proof (induction rows arbitrary: st)
  case (Cons row rows)
  from Cons.IH [of "insert_ignore row st"] show ?case by (auto simp: insert_ignore_def split: if_splits)
qed simp

lemma fold_insert_ignore_fresh:
  "distinct (map row_event_id rows) \<Longrightarrow> row_event_id ` set rows \<inter> row_event_id ` set st = {} \<Longrightarrow>
     fold insert_ignore rows st = st @ rows"
proof (induction rows arbitrary: st)
  case (Cons row rows)
  then have "insert_ignore row st = st @ [row]" by (auto simp: insert_ignore_def)
  with Cons.IH [of "st @ [row]"] Cons.prems show ?case by auto
qed simp

lemma fold_insert_ignore_keeps: "prefix st (fold insert_ignore rows st)"
proof (induction rows arbitrary: st)
  case (Cons row rows)
  have "prefix st (insert_ignore row st)" by (simp add: insert_ignore_def)
  with Cons [of "insert_ignore row st"] show ?case by (auto intro: prefix_order.order_trans)
qed simp

section \<open>Batching does not show\<close>

definition kept :: "bool \<Rightarrow> result \<Rightarrow> bool" where
  "kept interesting r \<longleftrightarrow> \<not> (interesting \<and> res_FinalVerdict r = VerdictApprove \<and> res_FailedRules r = [])"

fun received :: "writer_event list \<Rightarrow> result list" where
  "received [] = []"
| "received (Recv r # es) = r # received es"
| "received (e # es) = received es"

text \<open>The results accepted but not yet handed to the database.\<close>

definition waiting :: "'db writer \<Rightarrow> result list" where
  "waiting w = (if wr_mode w = Closed then [] else wr_batch w)"

lemma observe_keep: "fst (observe i r s) = kept i r"
  by (simp add: observe_def kept_def Let_def)

lemma flush_chunk:
  assumes "db_laws D stored pending" and "\<forall>r \<in> set rs. timed r"
  shows "\<exists>ok. stored (flush D en n1 n2 rs s) =
           (if ok then fold insert_ignore (map (row_for en) rs) (stored s) else stored s) \<and>
         (db_reliable D \<and> (\<forall>r \<in> set rs. encodable en r) \<longrightarrow> ok)"
proof (cases "db_reliable D \<and> (\<forall>r \<in> set rs. encodable en r)")
  case True
  then have "stored (flush D en n1 n2 rs s) = fold insert_ignore (map (row_for en) rs) (stored s)"
    using assms by (intro flush_reliable) auto
  then show ?thesis by auto
next
  case False
  then show ?thesis using flush_atomic [OF assms, of en n1 n2 s] by auto
qed

text \<open>
  \<open>stores\<close>: the rows of some of the chunks have been stored, in order; of all of them if the
  database and the encoders do not fail.
\<close>

definition stores ::
  "'db writer_cfg \<Rightarrow> ('db \<Rightarrow> db_row list) \<Rightarrow> 'db \<Rightarrow> 'db \<Rightarrow> (result list \<times> bool) list \<Rightarrow> bool" where
  "stores c stored s s' chunks \<longleftrightarrow>
     stored s' = fold insert_ignore
       (map (row_for (wc_enc c)) (concat (map fst (filter snd chunks)))) (stored s) \<and>
     (db_reliable (wc_db c) \<and> (\<forall>r \<in> set (concat (map fst chunks)). encodable (wc_enc c) r) \<longrightarrow>
        list_all snd chunks) \<and>
     (\<forall>ch \<in> set chunks. length (fst ch) \<le> batchSize)"

lemma stores_refl: "stored s' = stored s \<Longrightarrow> stores c stored s s' []"
  by (simp add: stores_def)

lemma stores_trans:
  "stores c stored s s' x \<Longrightarrow> stores c stored s' s'' y \<Longrightarrow> stores c stored s s'' (x @ y)"
  by (auto simp: stores_def)

lemma do_flush_stores:
  assumes "db_laws (wc_db c) stored pending" and "\<forall>r \<in> set (wr_batch w). timed r"
    and "length (wr_batch w) \<le> batchSize"
  shows "\<exists>ok. stores c stored (wr_db w) (wr_db (do_flush c w)) [(wr_batch w, ok)]"
proof -
  obtain ok where ok: "stored (wr_db (do_flush c w)) =
      (if ok then fold insert_ignore (map (row_for (wc_enc c)) (wr_batch w)) (stored (wr_db w)) else stored (wr_db w))"
    "db_reliable (wc_db c) \<and> (\<forall>r \<in> set (wr_batch w). encodable (wc_enc c) r) \<longrightarrow> ok"
    using flush_chunk [OF assms(1,2), of "wc_enc c" "now_at 0 w" "now_at 1 w" "wr_db w"]
    unfolding do_flush_def by auto
  have "stores c stored (wr_db w) (wr_db (do_flush c w)) [(wr_batch w, ok)]"
    using ok assms(3) by (cases ok) (simp_all add: stores_def)
  then show ?thesis ..
qed

lemma do_flush_simps [simp]:
  "wr_batch (do_flush c w) = wr_batch w" "wr_mode (do_flush c w) = wr_mode w"
  "wr_stats (do_flush c w) = wr_stats w" "wr_inflight (do_flush c w) = wr_inflight w"
  "wr_spawned (do_flush c w) = wr_spawned w" "wr_ready (do_flush c w) = wr_ready w"
  by (simp_all add: do_flush_def)

lemma spawn_webhook_simps [simp]:
  "wr_db (spawn_webhook r w) = wr_db w" "wr_batch (spawn_webhook r w) = wr_batch w"
  "wr_mode (spawn_webhook r w) = wr_mode w" "wr_stats (spawn_webhook r w) = wr_stats w"
  by (simp_all add: spawn_webhook_def)

lemma take_result_stores:
  assumes laws: "db_laws (wc_db c) stored pending" and t: "\<forall>r \<in> set (wr_batch w). timed r" "timed r"
    and len: "length (wr_batch w) < batchSize" and tr: "take_result c r w = (k, w')"
  shows "\<exists>chunks. stores c stored (wr_db w) (wr_db w') chunks \<and>
           concat (map fst chunks) @ wr_batch w' = wr_batch w @ (if kept (wc_interesting c) r then [r] else [])"
    and "length (wr_batch w') < batchSize" and "wr_mode w' = wr_mode w" and "k = kept (wc_interesting c) r"
proof -
  obtain k0 st where o: "observe (wc_interesting c) r (wr_stats w) = (k0, st)" by fastforce
  have k0: "k0 = kept (wc_interesting c) r"
    using observe_keep [of "wc_interesting c" r "wr_stats w"] by (simp add: o)
  let ?w1 = "w\<lparr>wr_stats := st, wr_batch := wr_batch w @ [r]\<rparr>"
  have cases3: "(\<not> k0 \<and> w' = w\<lparr>wr_stats := st\<rparr>) \<or>
      (k0 \<and> batchSize \<le> length (wr_batch w) + 1 \<and> w' = resetBatch (do_flush c ?w1)) \<or>
      (k0 \<and> length (wr_batch w) + 1 < batchSize \<and> w' = ?w1)" and k: "k = k0"
    using tr by (cases k0; cases "batchSize \<le> length (wr_batch w) + 1"; simp add: take_result_def Let_def o)+
  have "length (wr_batch w') < batchSize \<and> wr_mode w' = wr_mode w"
    using cases3 len by (elim disjE conjE) (simp_all add: resetBatch_def batchSize_def)
  then show "length (wr_batch w') < batchSize" "wr_mode w' = wr_mode w" by simp_all
  show "k = kept (wc_interesting c) r" by (simp add: k k0)
  from cases3 show "\<exists>chunks. stores c stored (wr_db w) (wr_db w') chunks \<and>
           concat (map fst chunks) @ wr_batch w' = wr_batch w @ (if kept (wc_interesting c) r then [r] else [])"
  proof (elim disjE conjE)
    assume "\<not> k0" "w' = w\<lparr>wr_stats := st\<rparr>"
    with k0 show ?thesis by (intro exI [of _ "[]"]) (simp add: stores_refl)
  next
    assume full: "k0" "batchSize \<le> length (wr_batch w) + 1" and w': "w' = resetBatch (do_flush c ?w1)"
    have "\<exists>ok. stores c stored (wr_db ?w1) (wr_db (do_flush c ?w1)) [(wr_batch ?w1, ok)]"
      by (rule do_flush_stores [OF laws]) (use t len in \<open>auto simp: batchSize_def\<close>)
    then obtain ok where "stores c stored (wr_db w) (wr_db w') [(wr_batch w @ [r], ok)]"
      by (auto simp: w' resetBatch_def)
    moreover have "wr_batch w' = []" by (simp add: w' resetBatch_def)
    ultimately show ?thesis using full(1) k0 by (intro exI [of _ "[(wr_batch w @ [r], ok)]"]) simp
  next
    assume "k0" "w' = ?w1"
    with k0 show ?thesis by (intro exI [of _ "[]"]) (simp add: stores_refl)
  qed
qed

lemma writer_step_stores:
  assumes laws: "db_laws (wc_db c) stored pending" and st: "writer_step c e w = Some w'"
    and t: "\<forall>r \<in> set (wr_batch w). timed r" "\<forall>r \<in> set (received [e]). timed r"
    and len: "length (wr_batch w) < batchSize" and nr: "e \<noteq> RetentionTick"
  shows "(\<exists>chunks. stores c stored (wr_db w) (wr_db w') chunks \<and>
           concat (map fst chunks) @ waiting w' = waiting w @ filter (kept (wc_interesting c)) (received [e])) \<and>
         length (wr_batch w') < batchSize \<and> set (wr_batch w') \<subseteq> set (wr_batch w) \<union> set (received [e])"
proof -
  have close: "stored (wr_db (close_writer c x)) = stored (wr_db x)" for x
    using laws unfolding db_laws_def close_writer_def by (simp) (metis prod.collapse)
  have closing: ?thesis if "w' = close_writer c (do_flush c w)" "wr_mode w \<noteq> Closed" "received [e] = []"
  proof -
    obtain ok where ok: "stores c stored (wr_db w) (wr_db (do_flush c w)) [(wr_batch w, ok)]"
      using do_flush_stores [OF laws t(1)] len by force
    have cl: "stores c stored (wr_db (do_flush c w)) (wr_db w') []"
      by (rule stores_refl) (simp add: that(1) close)
    have "stores c stored (wr_db w) (wr_db w') [(wr_batch w, ok)]"
      using stores_trans [OF ok cl] by simp
    moreover have "waiting w' = []" "wr_batch w' = wr_batch w" by (simp_all add: that(1) waiting_def close_writer_def)
    ultimately show ?thesis using that len by (auto simp: waiting_def intro!: exI [of _ "[(wr_batch w, ok)]"])
  qed
  show ?thesis
  proof (cases e)
    case (Recv r)
    obtain k w1 where tr: "take_result c r w = (k, w1)" by fastforce
    have r: "timed r" using t(2) Recv by simp
    note tk = take_result_stores [OF laws t(1) r len tr]
    have open': "wr_mode w \<noteq> Closed" "w' = w1 \<or> w' = spawn_webhook r w1"
      using st tr by (auto simp: Recv split: writer_mode.splits bool.splits)
    then have eq: "wr_db w' = wr_db w1" "wr_batch w' = wr_batch w1" "wr_mode w' = wr_mode w" using tk(3) by auto
    have "set (wr_batch w1) \<subseteq> set (wr_batch w) \<union> {r}"
      using tr by (auto simp: take_result_def Let_def resetBatch_def split: prod.splits bool.splits if_splits)
    then show ?thesis
      using tk(1,2) open'(1) eq by (auto simp: waiting_def Recv)
  next
    case RecvClosed
    show ?thesis by (rule closing) (use st RecvClosed in \<open>auto split: if_splits\<close>)
  next
    case DrainTimeout
    show ?thesis by (rule closing) (use st DrainTimeout in \<open>auto split: if_splits\<close>)
  next
    case FlushTick
    show ?thesis
    proof (cases "wr_batch w = []")
      case True
      with st FlushTick len show ?thesis
        by (auto split: if_splits intro!: exI [of _ "[]"] stores_refl)
    next
      case False
      with st FlushTick have w': "w' = resetBatch (do_flush c w)" "wr_mode w = Serving" by (auto split: if_splits)
      obtain ok where "stores c stored (wr_db w) (wr_db (do_flush c w)) [(wr_batch w, ok)]"
        using do_flush_stores [OF laws t(1)] len by force
      with w' FlushTick show ?thesis
        by (auto simp: waiting_def resetBatch_def batchSize_def intro!: exI [of _ "[(wr_batch w, ok)]"])
    qed
  next
    case RetentionTick
    with nr show ?thesis by simp
  next
    case CtxDone
    with st len show ?thesis
      by (auto simp: waiting_def split: if_splits intro!: exI [of _ "[]"] stores_refl)
  next
    case WebhookDone
    with st len show ?thesis
      by (auto simp: waiting_def split: if_splits intro!: exI [of _ "[]"] stores_refl)
  qed
qed

lemma received_Cons: "received (e # es) = received [e] @ received es"
  by (cases e) auto

text \<open>A whole run: what was received and kept is stored in chunks or still waiting.\<close>

lemma writer_run_stores:
  assumes laws: "db_laws (wc_db c) stored pending" and "writer_run c es w = Some w'"
    and "\<forall>r \<in> set (wr_batch w). timed r" "\<forall>r \<in> set (received es). timed r"
    and "length (wr_batch w) < batchSize" and "RetentionTick \<notin> set es"
  shows "\<exists>chunks. stores c stored (wr_db w) (wr_db w') chunks \<and>
           concat (map fst chunks) @ waiting w' = waiting w @ filter (kept (wc_interesting c)) (received es)"
  using assms(2-)
proof (induction es arbitrary: w)
  case Nil
  then show ?case by (auto intro!: exI [of _ "[]"] stores_refl)
next
  case (Cons e es)
  obtain w1 where s: "writer_step c e w = Some w1" and r: "writer_run c es w1 = Some w'"
    using Cons.prems(1) by (auto split: option.splits)
  have te: "\<forall>r \<in> set (received [e]). timed r" "\<forall>r \<in> set (received es). timed r"
    using Cons.prems(3) unfolding received_Cons [of e es] by auto
  from writer_step_stores [OF laws s Cons.prems(2) te(1) Cons.prems(4)] Cons.prems(5)
  obtain ch1 where 1: "stores c stored (wr_db w) (wr_db w1) ch1"
    "concat (map fst ch1) @ waiting w1 = waiting w @ filter (kept (wc_interesting c)) (received [e])"
    and b: "length (wr_batch w1) < batchSize" "set (wr_batch w1) \<subseteq> set (wr_batch w) \<union> set (received [e])"
    by auto
  have "\<forall>r \<in> set (wr_batch w1). timed r" using b(2) Cons.prems(2) te(1) by blast
  from Cons.IH [OF r this te(2) b(1)] Cons.prems(5)
  obtain ch2 where 2: "stores c stored (wr_db w1) (wr_db w') ch2"
    "concat (map fst ch2) @ waiting w' = waiting w1 @ filter (kept (wc_interesting c)) (received es)" by auto
  have "concat (map fst (ch1 @ ch2)) @ waiting w' = waiting w @ filter (kept (wc_interesting c)) (received (e # es))"
    unfolding received_Cons [of e es] using 1(2) 2(2) by (metis append.assoc concat_append filter_append map_append)
  with stores_trans [OF 1(1) 2(1)] show ?case by blast
qed

section \<open>Counters and the semaphore\<close>

definition total_results :: "stats \<Rightarrow> int" where
  "total_results s = st_approve s + st_block s + st_review s"

definition stats_of :: "bool \<Rightarrow> result list \<Rightarrow> stats" where
  "stats_of i rs = fold (\<lambda>r s. snd (observe i r s)) rs no_stats"

lemma observe_counts:
  "total_results (snd (observe i r s)) = total_results s + 1"
  "st_skipped (snd (observe i r s)) = st_skipped s + (if kept i r then 0 else 1)"
  "st_errored (snd (observe i r s)) = st_errored s + (if res_FailedRules r = [] then 0 else 1)"
  "st_block (snd (observe i r s)) = st_block s + (if res_FinalVerdict r = VerdictBlock then 1 else 0)"
  "st_review (snd (observe i r s)) = st_review s + (if res_FinalVerdict r = VerdictReview then 1 else 0)"
  by (auto simp: observe_def kept_def total_results_def Let_def verdict_defs)

lemma stats_of_counts:
  "total_results (stats_of i rs) = int (length rs)"
  "st_skipped (stats_of i rs) = int (length (filter (\<lambda>r. \<not> kept i r) rs))"
  "st_errored (stats_of i rs) = int (length (filter (\<lambda>r. res_FailedRules r \<noteq> []) rs))"
  "st_block (stats_of i rs) = int (length (filter (\<lambda>r. res_FinalVerdict r = VerdictBlock) rs))"
  "st_review (stats_of i rs) = int (length (filter (\<lambda>r. res_FinalVerdict r = VerdictReview) rs))"
  by (induction rs rule: rev_induct)
     (simp_all add: stats_of_def observe_counts, simp_all add: total_results_def no_stats_def)

lemma take_result_fields:
  "wr_stats (snd (take_result c r w)) = snd (observe (wc_interesting c) r (wr_stats w))"
  "wr_inflight (snd (take_result c r w)) = wr_inflight w"
  "wr_spawned (snd (take_result c r w)) = wr_spawned w"
  "wr_mode (snd (take_result c r w)) = wr_mode w"
  "fst (take_result c r w) = kept (wc_interesting c) r"
  using observe_keep [of "wc_interesting c" r "wr_stats w"]
  by (auto simp: take_result_def resetBatch_def Let_def split: prod.splits bool.splits)

lemma writer_step_Recv:
  "writer_step c (Recv r) w =
     (if wr_mode w = Closed then None
      else if wr_mode w = Serving \<and> kept (wc_interesting c) r
      then Some (spawn_webhook r (snd (take_result c r w)))
      else Some (snd (take_result c r w)))"
  using take_result_fields(5) [of c r w]
  by (cases "take_result c r w") (auto split: writer_mode.splits bool.splits)

lemma writer_step_stats:
  assumes "writer_step c e w = Some w'"
  shows "wr_stats w' = fold (\<lambda>r s. snd (observe (wc_interesting c) r s)) (received [e]) (wr_stats w)"
proof (cases e)
  case (Recv r)
  with assms show ?thesis
    by (auto simp: writer_step_Recv take_result_fields simp del: writer_step.simps split: if_splits)
qed (use assms in \<open>auto simp: resetBatch_def close_writer_def split: if_splits\<close>)

lemma writer_run_stats:
  "writer_run c es w = Some w' \<Longrightarrow>
     wr_stats w' = fold (\<lambda>r s. snd (observe (wc_interesting c) r s)) (received es) (wr_stats w)"
proof (induction es arbitrary: w)
  case (Cons e es)
  then obtain w1 where s: "writer_step c e w = Some w1" "writer_run c es w1 = Some w'"
    by (auto split: option.splits)
  show ?case unfolding received_Cons [of e es] using Cons.IH [OF s(2)] writer_step_stats [OF s(1)] by simp
qed simp

text \<open>The semaphore bounds the webhooks in flight; a draining writer starts none.\<close>

lemma writer_step_inflight [inv_intros]:
  assumes "writer_step c e w = Some w'" and "wr_inflight w \<le> maxConcurrentWebhooks"
  shows "wr_inflight w' \<le> maxConcurrentWebhooks"
proof (cases e)
  case (Recv r)
  with assms show ?thesis
    by (auto simp: writer_step_Recv spawn_webhook_def take_result_fields simp del: writer_step.simps split: if_splits)
qed (use assms in \<open>auto simp: resetBatch_def close_writer_def split: if_splits\<close>)

lemma writer_run_inflight:
  "writer_run c es w = Some w' \<Longrightarrow> wr_inflight w \<le> maxConcurrentWebhooks \<Longrightarrow> wr_inflight w' \<le> maxConcurrentWebhooks"
  by (induction es arbitrary: w) (auto split: option.splits dest: writer_step_inflight)

lemma writer_step_draining:
  assumes "writer_step c e w = Some w'" and "wr_mode w \<noteq> Serving"
  shows "wr_mode w' \<noteq> Serving" and "wr_spawned w' = wr_spawned w"
proof -
  have "wr_mode w' \<noteq> Serving \<and> wr_spawned w' = wr_spawned w"
  proof (cases e)
    case (Recv r)
    with assms show ?thesis
      by (auto simp: writer_step_Recv take_result_fields simp del: writer_step.simps split: if_splits)
  qed (use assms in \<open>auto simp: close_writer_def split: if_splits\<close>)
  then show "wr_mode w' \<noteq> Serving" and "wr_spawned w' = wr_spawned w" by simp_all
qed

lemma writer_run_draining:
  "writer_run c es w = Some w' \<Longrightarrow> wr_mode w \<noteq> Serving \<Longrightarrow> wr_spawned w' = wr_spawned w"
proof (induction es arbitrary: w)
  case (Cons e es)
  then obtain w1 where s: "writer_step c e w = Some w1" "writer_run c es w1 = Some w'"
    by (auto split: option.splits)
  from Cons.IH [OF s(2)] writer_step_draining [OF s(1) Cons.prems(2)] show ?case by simp
qed simp

section \<open>Webhooks\<close>

text \<open>
  The answers one delivery meets: the request builder's error, and for each attempt the
  client's answer (a transport error or a status) and whether the context ends during the
  pause that follows.
\<close>

record webhook_env =
  wh_marshal :: "result \<Rightarrow> string + bytes"
  wh_build :: "nat \<Rightarrow> string option"
  wh_answer :: "nat \<Rightarrow> string + int"
  wh_cancelled :: "nat \<Rightarrow> bool"

datatype webhook_outcome =
    NoURL
  | WMarshalFailed string
  | WBuildFailed string
  | WDelivered nat
  | WClientError int
  | WCancelled
  | WGaveUp

definition maxAttempts :: nat where "maxAttempts = 3"

text \<open>Milliseconds before the attempt after \<open>attempt\<close>.\<close>

definition backoff :: "nat \<Rightarrow> nat" where
  "backoff attempt = 100 * 2 ^ attempt"

text \<open>The loop, with the pauses it makes; its first result is how it ended.\<close>

function webhook_loop :: "webhook_env \<Rightarrow> nat \<Rightarrow> webhook_outcome \<times> nat list" where
  "webhook_loop E attempt =
     (if attempt \<ge> maxAttempts then (WGaveUp, [])
      else
        (let again =
           (if attempt = maxAttempts - 1 then (WGaveUp, [])
            else if wh_cancelled E attempt then (WCancelled, [backoff attempt])
            else (case webhook_loop E (attempt + 1) of (out, ps) \<Rightarrow> (out, backoff attempt # ps)))
         in case wh_build E attempt of
              Some e \<Rightarrow> (WBuildFailed e, [])
            | None \<Rightarrow>
                (case wh_answer E attempt of
                   Inr code \<Rightarrow>
                     if code < 300 then (WDelivered attempt, [])
                     else if code \<ge> 400 \<and> code < 500 \<and> code \<noteq> 429 then (WClientError code, [])
                     else again
                 | Inl _ \<Rightarrow> again)))"
  by pat_completeness auto
termination by (relation "measure (\<lambda>(E, attempt). maxAttempts - attempt)") (auto simp: maxAttempts_def)

declare webhook_loop.simps [simp del]

definition sendWebhook :: "string \<Rightarrow> webhook_env \<Rightarrow> result \<Rightarrow> webhook_outcome \<times> nat list" where
  "sendWebhook webhookURL E r =
     (if webhookURL = '''' then (NoURL, [])
      else (case wh_marshal E r of
              Inl e \<Rightarrow> (WMarshalFailed e, [])
            | Inr body \<Rightarrow> webhook_loop E 0))"

text \<open>An answer worth another attempt: a transport error, a redirect, 429 or a server error.\<close>

definition retryable :: "string + int \<Rightarrow> bool" where
  "retryable ans \<longleftrightarrow>
     (case ans of
        Inl _ \<Rightarrow> True
      | Inr code \<Rightarrow> \<not> code < 300 \<and> \<not> (code \<ge> 400 \<and> code < 500 \<and> code \<noteq> 429))"

lemma retryable_simps [simp]:
  "retryable (Inl e)"
  "retryable (Inr code) \<longleftrightarrow> \<not> code < 300 \<and> \<not> (code \<ge> 400 \<and> code < 500 \<and> code \<noteq> 429)"
  by (simp_all add: retryable_def)

lemma webhook_loop_retry:
  assumes "retryable (wh_answer E n)" and "wh_build E n = None"
  shows "n < 3 \<Longrightarrow> webhook_loop E n =
    (if n = 2 then (WGaveUp, [])
     else if wh_cancelled E n then (WCancelled, [backoff n])
     else (fst (webhook_loop E (Suc n)), backoff n # snd (webhook_loop E (Suc n))))"
proof -
  obtain out ps where l: "webhook_loop E (Suc n) = (out, ps)" by fastforce
  assume "n < 3"
  then have n: "\<not> n \<ge> maxAttempts" "n = maxAttempts - 1 \<longleftrightarrow> n = 2" by (simp_all add: maxAttempts_def)
  show ?thesis
  proof (cases "wh_answer E n")
    case (Inl e)
    show ?thesis
      using \<open>n < 3\<close> by (subst webhook_loop.simps) (auto simp: maxAttempts_def assms(2) Inl l Let_def)
  next
    case (Inr code)
    then have "\<not> code < 300" "\<not> (code \<ge> 400 \<and> code < 500 \<and> code \<noteq> 429)" using assms(1) by simp_all
    then show ?thesis
      by (subst webhook_loop.simps) (simp only: n assms(2) Inr l Let_def if_False sum.case option.case, simp add: l maxAttempts_def)
  qed
qed

lemma webhook_loop_final:
  assumes "\<not> retryable (wh_answer E n)" and "wh_build E n = None" and "n < 3"
  obtains code where "wh_answer E n = Inr code"
    and "webhook_loop E n = (if code < 300 then WDelivered n else WClientError code, [])"
proof (cases "wh_answer E n")
  case (Inl e)
  with assms show ?thesis by simp
next
  case (Inr code)
  with assms have "code < 300 \<or> (code \<ge> 400 \<and> code < 500 \<and> code \<noteq> 429)" by (simp only: retryable_simps) blast
  then have "webhook_loop E n = (if code < 300 then WDelivered n else WClientError code, [])"
    using assms(2,3) by (subst webhook_loop.simps) (auto simp: maxAttempts_def Inr Let_def)
  with Inr that show ?thesis by blast
qed

lemma webhook_loop_build: "wh_build E n = Some e \<Longrightarrow> n < 3 \<Longrightarrow> webhook_loop E n = (WBuildFailed e, [])"
  by (subst webhook_loop.simps) (simp add: maxAttempts_def Let_def)

lemma webhook_loop_end: "\<not> n < 3 \<Longrightarrow> webhook_loop E n = (WGaveUp, [])"
  by (subst webhook_loop.simps) (simp add: maxAttempts_def)

lemma webhook_loop_delivered:
  "fst (webhook_loop E n) = WDelivered k \<Longrightarrow>
     n \<le> k \<and> k < 3 \<and> (\<exists>code. wh_answer E k = Inr code \<and> code < 300) \<and>
     (\<forall>i. n \<le> i \<longrightarrow> i < k \<longrightarrow> retryable (wh_answer E i))"
proof (induction "3 - n" arbitrary: n)
  case 0
  then show ?case by (simp add: webhook_loop_end)
next
  case (Suc d)
  then have n: "n < 3" "d = 3 - Suc n" by simp_all
  consider (build) e where "wh_build E n = Some e"
    | (retry) "wh_build E n = None" "retryable (wh_answer E n)"
    | (final) "wh_build E n = None" "\<not> retryable (wh_answer E n)" by (cases "wh_build E n") auto
  then show ?case
  proof cases
    case build
    with Suc.prems n(1) show ?thesis by (simp add: webhook_loop_build)
  next
    case retry
    with Suc.prems have k: "fst (webhook_loop E (Suc n)) = WDelivered k"
      by (simp add: webhook_loop_retry [OF retry(2,1) n(1)] split: if_splits)
    note ih = Suc.hyps(1) [OF n(2) k]
    have "retryable (wh_answer E i)" if "n \<le> i" "i < k" for i
      using that ih retry(2) by (cases "i = n") simp_all
    with ih show ?thesis by simp
  next
    case final
    then obtain code where "wh_answer E n = Inr code"
      "webhook_loop E n = (if code < 300 then WDelivered n else WClientError code, [])"
      using webhook_loop_final n(1) by blast
    with Suc.prems n(1) show ?thesis by (auto split: if_splits)
  qed
qed

lemma webhook_loop_gives_up:
  assumes "\<forall>i < 3. retryable (wh_answer E i) \<and> wh_build E i = None" and "\<forall>i < 3. \<not> wh_cancelled E i"
  shows "webhook_loop E 0 = (WGaveUp, [100, 200])"
proof -
  have "webhook_loop E 2 = (WGaveUp, [])" using assms by (subst webhook_loop_retry) auto
  then have "webhook_loop E 1 = (WGaveUp, [200])"
    using assms webhook_loop_retry [of E 1] by (simp add: backoff_def numeral_2_eq_2)
  then show ?thesis using assms webhook_loop_retry [of E 0] by (simp add: backoff_def)
qed

lemma webhook_loop_pauses_step:
  assumes "n < 3"
  shows "snd (webhook_loop E n) = [] \<or> (n < 2 \<and> snd (webhook_loop E n) = [backoff n]) \<or>
         (n < 2 \<and> snd (webhook_loop E n) = backoff n # snd (webhook_loop E (Suc n)))"
proof -
  consider (build) e where "wh_build E n = Some e"
    | (retry) "wh_build E n = None" "retryable (wh_answer E n)"
    | (final) "wh_build E n = None" "\<not> retryable (wh_answer E n)" by (cases "wh_build E n") auto
  then show ?thesis
  proof cases
    case build
    with assms show ?thesis by (simp add: webhook_loop_build)
  next
    case retry
    then show ?thesis using assms by (simp add: webhook_loop_retry)
  next
    case final
    then show ?thesis using assms webhook_loop_final by (metis snd_conv)
  qed
qed

lemma webhook_pauses: "snd (webhook_loop E 0) \<in> {[], [100], [100, 200]}"
proof -
  have "snd (webhook_loop E 2) = []" using webhook_loop_pauses_step [of 2 E] by simp
  then have "snd (webhook_loop E 1) = [] \<or> snd (webhook_loop E 1) = [200]"
    using webhook_loop_pauses_step [of 1 E] by (auto simp: backoff_def numeral_2_eq_2)
  then show ?thesis using webhook_loop_pauses_step [of 0 E] by (auto simp: backoff_def)
qed

section \<open>The trace recorder\<close>

text \<open>
  \<open>tr_file\<close> is the file's content as entries, \<open>None\<close> when there is no file; encoding errors,
  and writes to a file that was closed, are swallowed. Opening for appending keeps what the
  file holds. \<open>close_err\<close> is what closing the file the first time returns.
\<close>

record trace_entry =
  te_Event :: event
  te_Result :: result
  te_SnapshotID :: string
  te_Timestamp :: gotime

record recorder =
  tr_enabled :: bool
  tr_file :: "trace_entry list option"
  tr_closed :: bool

datatype close_error = CloseFailed string | AlreadyClosed

definition NewTraceRecorder :: "bool \<Rightarrow> string + trace_entry list \<Rightarrow> string + recorder" where
  "NewTraceRecorder enabled open_file =
     (if \<not> enabled then Inr \<lparr>tr_enabled = False, tr_file = None, tr_closed = False\<rparr>
      else (case open_file of
              Inl e \<Rightarrow> Inl e
            | Inr content \<Rightarrow> Inr \<lparr>tr_enabled = True, tr_file = Some content, tr_closed = False\<rparr>))"

definition Record :: "(trace_entry \<Rightarrow> bool) \<Rightarrow> gotime \<Rightarrow> event \<Rightarrow> result \<Rightarrow> string \<Rightarrow> recorder \<Rightarrow> recorder" where
  "Record encodes now ev res snapshotID tr =
     (if \<not> tr_enabled tr then tr
      else let entry = \<lparr>te_Event = ev, te_Result = res, te_SnapshotID = snapshotID, te_Timestamp = now\<rparr>
           in tr\<lparr>tr_file := map_option (\<lambda>f. if encodes entry \<and> \<not> tr_closed tr then f @ [entry] else f) (tr_file tr)\<rparr>)"

definition trace_Close :: "string option \<Rightarrow> recorder \<Rightarrow> close_error option \<times> recorder" where
  "trace_Close close_err tr =
     (if \<not> tr_enabled tr \<or> tr_file tr = None then (None, tr)
      else if tr_closed tr then (Some AlreadyClosed, tr)
      else (map_option CloseFailed close_err, tr\<lparr>tr_closed := True\<rparr>))"

text \<open>What was recorded survives closing, and nothing is recorded afterwards.\<close>

lemma trace_Close_keeps:
  "tr_file (snd (trace_Close x tr)) = tr_file tr"
  "tr_enabled tr \<Longrightarrow> tr_file tr = Some f \<Longrightarrow> Record encodes now ev res sid (snd (trace_Close x tr)) = snd (trace_Close x tr)"
  by (auto simp: trace_Close_def Record_def)

lemma Record_disabled: "\<not> tr_enabled tr \<Longrightarrow> Record encodes now ev res sid tr = tr"
  by (simp add: Record_def)

lemma Record_appends:
  "tr_file tr = Some f \<Longrightarrow> \<exists>added. tr_file (Record encodes now ev res sid tr) = Some (f @ added) \<and> length added \<le> 1"
  by (auto simp: Record_def Let_def)

lemma webhook_loop_gave_up:
  assumes "fst (webhook_loop E n) = WGaveUp" and "n < 3"
  shows "retryable (wh_answer E n) \<and> (n < 2 \<longrightarrow> fst (webhook_loop E (Suc n)) = WGaveUp)"
proof -
  consider (build) e where "wh_build E n = Some e"
    | (retry) "wh_build E n = None" "retryable (wh_answer E n)"
    | (final) "wh_build E n = None" "\<not> retryable (wh_answer E n)" by (cases "wh_build E n") auto
  then show ?thesis
  proof cases
    case build
    with assms show ?thesis by (simp add: webhook_loop_build)
  next
    case retry
    with assms show ?thesis by (simp add: webhook_loop_retry split: if_splits)
  next
    case final
    then obtain code where
      "webhook_loop E n = (if code < 300 then WDelivered n else WClientError code, [])"
      using webhook_loop_final assms(2) by blast
    with assms(1) show ?thesis by (auto split: if_splits)
  qed
qed

section \<open>Properties\<close>

text \<open>A database for samples: the committed rows and those of the open transaction.\<close>

definition list_db :: "(db_row list \<times> db_row list) database" where
  "list_db = \<lparr>db_begin = (\<lambda>(s, p). (None, (s, []))), db_prepare = (\<lambda>s. (None, s)),
     db_insert = (\<lambda>row (s, p). (None, (s, p @ [row]))),
     db_commit = (\<lambda>(s, p). (None, (fold insert_ignore p s, []))),
     db_rollback = (\<lambda>(s, p). (s, [])), db_retain = (\<lambda>d s. (None, s)), db_close = (\<lambda>s. (None, s)),
     db_schema = (\<lambda>s. (None, s)), db_memlimit = (\<lambda>s. (None, s))\<rparr>"

lemma list_db_laws: "db_laws list_db fst snd" "db_reliable list_db"
  by (auto simp: list_db_def db_laws_def db_reliable_def)

definition sample_cfg :: "bool \<Rightarrow> (db_row list \<times> db_row list) writer_cfg" where
  "sample_cfg i = \<lparr>wc_db = list_db, wc_enc = \<lparr>en_rules = (\<lambda>_. Inr ''[]''), en_payload = (\<lambda>_. Inr ''{}'')\<rparr>,
     wc_interesting = i\<rparr>"

definition done_result :: "string \<Rightarrow> verdict \<Rightarrow> result" where
  "done_result i v = \<lparr>res_EventID = i, res_EventType = ''post'', res_FinalVerdict = v, res_TriggeredRules = [],
     res_FailedRules = [], res_Payload = [], res_RawPayload = ''{}'', res_LatencyUS = 1, res_ProcessedAt = 1\<rparr>"

lemma done_result_ok: "timed (done_result i v)" "encodable (wc_enc (sample_cfg b)) (done_result i v)"
  by (simp_all add: timed_def zero_time_def encodable_def row_of_def done_result_def sample_cfg_def)

text \<open>What a closed writer has handed to the database, chunk by chunk.\<close>

lemma closed_writer_stores:
  assumes "db_laws (wc_db c) stored pending" and "writer_run c es (fresh_writer db clock) = Some w"
    and "wr_mode w = Closed" and "\<forall>r \<in> set (received es). timed r" and "RetentionTick \<notin> set es"
  shows "\<exists>chunks. stores c stored db (wr_db w) chunks \<and>
    concat (map fst chunks) = filter (kept (wc_interesting c)) (received es)"
proof -
  have "length (wr_batch (fresh_writer db clock)) < batchSize" "\<forall>r \<in> set (wr_batch (fresh_writer db clock)). timed r"
    by (simp_all add: fresh_writer_def batchSize_def)
  from writer_run_stores [OF assms(1,2) this(2) assms(4) this(1) assms(5)] show ?thesis
    by (auto simp: fresh_writer_def waiting_def assms(3))
qed


definition sample_events :: "writer_event list" where
  "sample_events = [Recv (done_result ''1'' VerdictBlock), FlushTick, Recv (done_result ''2'' VerdictApprove),
     Recv (done_result ''1'' VerdictReview), CtxDone, Recv (done_result ''3'' VerdictBlock), DrainTimeout]"

lemma sample_writer_run:
  "\<exists>w. writer_run (sample_cfg True) sample_events (fresh_writer ([], []) []) = Some w \<and> wr_mode w = Closed"
  by (simp add: sample_events_def sample_cfg_def fresh_writer_def take_result_def observe_def done_result_def
      no_stats_def verdict_defs batchSize_def spawn_webhook_def maxConcurrentWebhooks_def resetBatch_def
      do_flush_def close_writer_def Let_def)




text \<open>
  C30: how a webhook ends. At most three attempts are made, with pauses of 100 and 200 ms
  between them; a delivery was answered below 300 after nothing but retryable answers, and
  giving up means that all three answers were retryable.
\<close>

theorem webhook_attempts:
  "snd (sendWebhook url E r) \<in> {[], [100], [100, 200]} \<and>
   (case fst (sendWebhook url E r) of
      WDelivered k \<Rightarrow> k < 3 \<and> (\<exists>code. wh_answer E k = Inr code \<and> code < 300) \<and>
        list_all (\<lambda>i. retryable (wh_answer E i)) [0..<k]
    | WGaveUp \<Rightarrow> list_all (\<lambda>i. retryable (wh_answer E i)) [0..<3]
    | _ \<Rightarrow> True)"
proof -
  have give: "list_all (\<lambda>i. retryable (wh_answer E i)) [0..<3]" if "fst (webhook_loop E 0) = WGaveUp"
    using webhook_loop_gave_up [OF that] webhook_loop_gave_up [of E 1] webhook_loop_gave_up [of E 2]
    by (simp add: upt_rec numeral_3_eq_3 numeral_2_eq_2)
  show ?thesis
  proof (cases "sendWebhook url E r = webhook_loop E 0")
    case True
    show ?thesis
      using webhook_pauses [of E] webhook_loop_delivered [of E 0] give
      unfolding True by (auto simp: list_all_iff split: webhook_outcome.splits)
  next
    case False
    then show ?thesis by (auto simp: sendWebhook_def split: sum.splits if_splits)
  qed
qed

end
