(* ===== verification/Cluster.thy ===== *)
theory Cluster
  imports Prelude
begin

text \<open>
  \<^verbatim>\<open>cluster/router.go\<close>: entity-affinity routing by rendezvous hashing. \<open>NewRouter\<close> and
  \<open>Owner\<close> are pure; \<open>Forward\<close> takes the HTTP transport as a parameter. The lemmas show
  that the 64-bit finaliser is a bijection, so peers with distinct hashes never tie, that
  the owner is the unique maximum and therefore does not depend on the order of the peer
  list, and that losing a peer moves only the keys that peer owned.
\<close>

section \<open>Hashing\<close>

text \<open>\<^verbatim>\<open>fnvSum\<close>: 64-bit FNV-1a (\<^verbatim>\<open>hash/fnv\<close>'s \<^verbatim>\<open>New64a\<close>).\<close>

definition fnvSum :: "string \<Rightarrow> u64" where
  "fnvSum s = fold (\<lambda>c h. (h XOR of_char c) * 1099511628211) s 14695981039346656037"

definition mix64 :: "u64 \<Rightarrow> u64" where
  "mix64 x0 =
     (let x1 = x0 XOR drop_bit 30 x0;
          x2 = x1 * 0xbf58476d1ce4e5b9;
          x3 = x2 XOR drop_bit 27 x2;
          x4 = x3 * 0x94d049bb133111eb
      in x4 XOR drop_bit 31 x4)"

lemma xor_zeroD:
  fixes x y :: u64
  assumes "x XOR y = 0"
  shows "x = y"
proof (rule bit_eqI)
  fix n
  from assms have "bit (x XOR y) n = bit (0 :: u64) n" by simp
  then show "bit x n = bit y n" by (simp add: bit_xor_iff)
qed

lemma xorshift_inj:
  fixes x y :: u64
  assumes k: "0 < k" and eq: "x XOR drop_bit k x = y XOR drop_bit k y"
  shows "x = y"
proof -
  define z where "z = x XOR y"
  have "z XOR drop_bit k z = (x XOR drop_bit k x) XOR (y XOR drop_bit k y)"
    by (simp add: z_def ac_simps)
  also have "\<dots> = 0" by (simp add: eq)
  finally have z: "drop_bit k z = z" by (rule xor_zeroD [symmetric])
  have step: "bit z (n + k) = bit z n" for n
  proof -
    have "bit z n = bit (drop_bit k z) n" by (simp only: z)
    then show ?thesis by (simp add: bit_drop_bit_eq add.commute)
  qed
  have "bit z (n + m * k) = bit z n" for n m
  proof (induction m)
    case (Suc m)
    have "bit z (n + Suc m * k) = bit z (n + m * k + k)" by (simp add: ac_simps)
    with Suc step show ?case by simp
  qed simp
  moreover have "\<not> bit z (n + 64 * k)" for n
    using k by (auto dest!: bit_imp_le_length)
  ultimately have "z = 0" by (auto intro!: bit_eqI)
  then show ?thesis unfolding z_def by (rule xor_zeroD)
qed

lemma odd_mult_inj:
  fixes x y c d :: u64
  assumes "x * c = y * c" and "c * d = 1"
  shows "x = y"
proof -
  from assms(1) have "x * c * d = y * c * d" by simp
  then show ?thesis by (simp add: mult.assoc assms(2))
qed

lemma mix64_inj: "mix64 x = mix64 y \<Longrightarrow> x = y"
proof -
  define f where "f z = (z XOR drop_bit 30 z) * (0xbf58476d1ce4e5b9 :: u64)" for z
  define g where "g z = (z XOR drop_bit 27 z) * (0x94d049bb133111eb :: u64)" for z
  have "f a = f b \<Longrightarrow> a = b" for a b
    unfolding f_def
    by (rule xorshift_inj [of 30], simp, rule odd_mult_inj [where d = "0x96de1b173f119089"],
        assumption, code_simp)
  moreover have "g a = g b \<Longrightarrow> a = b" for a b
    unfolding g_def
    by (rule xorshift_inj [of 27], simp, rule odd_mult_inj [where d = "0x319642b2d24d8ec3"],
        assumption, code_simp)
  moreover assume "mix64 x = mix64 y"
  then have "g (f x) XOR drop_bit 31 (g (f x)) = g (f y) XOR drop_bit 31 (g (f y))"
    by (simp only: mix64_def Let_def f_def g_def)
  then have "g (f x) = g (f y)" by (rule xorshift_inj [rotated]) simp
  ultimately show ?thesis by blast
qed

section \<open>The router\<close>

record router =
  r_self :: string
  r_peers :: "string list"

datatype router_error = EmptyPeerList | SelfNotInPeers string "string list"

definition normalize_url :: "string \<Rightarrow> string" where
  "normalize_url u = trim_right (CHR ''/'') u"

definition NewRouter :: "string \<Rightarrow> string list \<Rightarrow> router_error + router" where
  "NewRouter self0 peers =
     (if peers = [] then Inl EmptyPeerList
      else let self = normalize_url self0;
               normalized = map normalize_url peers
           in if self \<notin> set normalized then Inl (SelfNotInPeers self peers)
              else Inr \<lparr>r_self = self, r_peers = normalized\<rparr>)"

definition score :: "string \<Rightarrow> string \<Rightarrow> u64" where
  "score p key = mix64 (fnvSum p XOR fnvSum key)"

text \<open>The loop of \<^verbatim>\<open>Owner\<close>: the best peer and its score so far, over the remaining peers.\<close>

fun owner_loop :: "string \<Rightarrow> string list \<Rightarrow> string \<Rightarrow> u64 \<Rightarrow> string" where
  "owner_loop key [] best bestScore = best"
| "owner_loop key (p # ps) best bestScore =
     (if best = '''' \<or> score p key > bestScore
      then owner_loop key ps p (score p key)
      else owner_loop key ps best bestScore)"

definition Owner :: "router \<Rightarrow> string \<Rightarrow> string \<times> bool" where
  "Owner r key = (let best = owner_loop key (r_peers r) '''' 0 in (best, best = r_self r))"

section \<open>Forwarding\<close>

text \<open>
  The request \<^verbatim>\<open>Forward\<close> builds, and what the HTTP client (a parameter) answers: a
  transport error, or the status of a response. \<open>build\<close> is \<^verbatim>\<open>http.NewRequestWithContext\<close>'s
  check of the URL.
\<close>

record request =
  rq_url :: string
  rq_body :: bytes
  rq_contentType :: string
  rq_forwarded :: string

datatype fwd_error =
    BuildError string
  | TransportError string
  | StatusError string int

definition forward_url :: "string \<Rightarrow> bool \<Rightarrow> string" where
  "forward_url peer batch = peer @ ''/events'' @ (if batch then ''/batch'' else '''')"

definition forward_request :: "string \<Rightarrow> bytes \<Rightarrow> bool \<Rightarrow> request" where
  "forward_request peer body batch =
     \<lparr>rq_url = forward_url peer batch, rq_body = body,
      rq_contentType = ''application/json'', rq_forwarded = ''1''\<rparr>"

definition Forward ::
  "(string \<Rightarrow> string option) \<Rightarrow> (request \<Rightarrow> string + int) \<Rightarrow> string \<Rightarrow> bytes \<Rightarrow> bool
     \<Rightarrow> fwd_error option" where
  "Forward build do_http peer body batch =
     (case build (forward_url peer batch) of
        Some e \<Rightarrow> Some (BuildError e)
      | None \<Rightarrow>
          (case do_http (forward_request peer body batch) of
             Inl e \<Rightarrow> Some (TransportError e)
           | Inr code \<Rightarrow> if code \<ge> 300 then Some (StatusError peer code) else None))"

text \<open>
  The methods of the error types this package returns, as an interface query sees them:
  \<^verbatim>\<open>*StatusError\<close> declares \<^verbatim>\<open>Error\<close> and nothing else (its status is the field
  \<^verbatim>\<open>Code\<close>), so an \<^verbatim>\<open>errors.As\<close> for \<^verbatim>\<open>interface{ StatusCode() int }\<close> finds no match in any of them.
\<close>

fun method_StatusCode :: "fwd_error \<Rightarrow> int option" where
  "method_StatusCode (BuildError e) = None"
| "method_StatusCode (TransportError e) = None"
| "method_StatusCode (StatusError peer code) = None"

section \<open>Construction\<close>

lemma NewRouter_self:
  "NewRouter s ps = Inr r \<Longrightarrow> r_self r \<in> set (r_peers r)"
  by (auto simp: NewRouter_def Let_def split: if_splits)

lemma normalize_url_slash [simp]: "normalize_url (u @ ''/'') = normalize_url u"
  by (simp add: normalize_url_def)

section \<open>Ownership\<close>

text \<open>The best score only grows, and the result is a peer whose score nothing exceeds.\<close>

lemma owner_loop_in: "owner_loop key ps b s \<in> insert b (set ps)"
  by (induction key ps b s rule: owner_loop.induct) auto

lemma owner_loop_max:
  assumes "b \<noteq> ''''" and "'''' \<notin> set ps" and "s = score b key"
  shows "\<forall>p \<in> insert b (set ps). score p key \<le> score (owner_loop key ps b s) key"
  using assms
proof (induction key ps b s rule: owner_loop.induct)
  case (2 key p ps best bestScore)
  show ?case
  proof (cases "best = '''' \<or> score p key > bestScore")
    case True
    with "2.prems" have IH: "\<forall>q \<in> insert p (set ps).
        score q key \<le> score (owner_loop key ps p (score p key)) key"
      using "2.IH"(1) by auto
    moreover have "score best key \<le> score p key"
      using True "2.prems" by auto
    ultimately show ?thesis using True by (auto intro: order_trans)
  next
    case False
    with "2.prems" have "\<forall>q \<in> insert best (set ps).
        score q key \<le> score (owner_loop key ps best bestScore) key"
      using "2.IH"(2) by auto
    moreover have "score p key \<le> score best key"
      using False "2.prems" by auto
    ultimately show ?thesis using False by (auto intro: order_trans)
  qed
qed simp

definition valid_peers :: "string list \<Rightarrow> bool" where
  "valid_peers ps \<longleftrightarrow> ps \<noteq> [] \<and> '''' \<notin> set ps"

lemma Owner_in: "valid_peers (r_peers r) \<Longrightarrow> fst (Owner r key) \<in> set (r_peers r)"
proof (cases "r_peers r")
  case (Cons p ps)
  then show ?thesis
    using owner_loop_in[of key ps p "score p key"] by (simp add: Owner_def Let_def)
qed (simp add: valid_peers_def)

lemma Owner_max:
  assumes "valid_peers (r_peers r)" and "p \<in> set (r_peers r)"
  shows "score p key \<le> score (fst (Owner r key)) key"
proof (cases "r_peers r")
  case (Cons q qs)
  with assms(1) have "\<forall>p \<in> insert q (set qs).
      score p key \<le> score (owner_loop key qs q (score q key)) key"
    by (intro owner_loop_max) (auto simp: valid_peers_def)
  with Cons assms(2) show ?thesis by (auto simp: Owner_def Let_def)
qed (use assms in \<open>simp add: valid_peers_def\<close>)

text \<open>Peers with distinct hashes never tie, whatever the key.\<close>

lemma score_inj: "score p key = score q key \<Longrightarrow> fnvSum p = fnvSum q"
proof -
  assume "score p key = score q key"
  then have "fnvSum p XOR fnvSum key = fnvSum q XOR fnvSum key"
    unfolding score_def by (rule mix64_inj)
  then have "(fnvSum p XOR fnvSum key) XOR fnvSum key = (fnvSum q XOR fnvSum key) XOR fnvSum key"
    by simp
  then show ?thesis by (simp add: xor.assoc)
qed

definition distinct_hashes :: "string list \<Rightarrow> bool" where
  "distinct_hashes ps \<longleftrightarrow> (\<forall>p \<in> set ps. \<forall>q \<in> set ps. fnvSum p = fnvSum q \<longrightarrow> p = q)"

lemma Owner_unique:
  assumes "valid_peers (r_peers r)" and "distinct_hashes (r_peers r)"
    and "p \<in> set (r_peers r)" and "\<forall>q \<in> set (r_peers r). score q key \<le> score p key"
  shows "fst (Owner r key) = p"
proof -
  have "score (fst (Owner r key)) key \<le> score p key"
    using assms Owner_in by blast
  moreover have "score p key \<le> score (fst (Owner r key)) key"
    using assms by (intro Owner_max)
  ultimately have "score (fst (Owner r key)) key = score p key" by simp
  then have "fnvSum (fst (Owner r key)) = fnvSum p" by (rule score_inj)
  with assms Owner_in[of r key] show ?thesis
    by (auto simp: distinct_hashes_def)
qed

lemma Owner_set_eq:
  assumes "valid_peers (r_peers r)" and "distinct_hashes (r_peers r)"
    and "set (r_peers r') = set (r_peers r)"
  shows "fst (Owner r' key) = fst (Owner r key)"
proof -
  have v': "valid_peers (r_peers r')" and d': "distinct_hashes (r_peers r')"
    using assms by (auto simp: valid_peers_def distinct_hashes_def)
  have "fst (Owner r key) \<in> set (r_peers r')"
    using assms Owner_in by blast
  moreover have "\<forall>q \<in> set (r_peers r'). score q key \<le> score (fst (Owner r key)) key"
    using assms(3) Owner_max [OF assms(1)] by blast
  ultimately show ?thesis by (rule Owner_unique [OF v' d'])
qed

lemma Owner_remove:
  assumes "valid_peers (r_peers r)" and "distinct_hashes (r_peers r)"
    and "set (r_peers r') = set (r_peers r) - {p}"
    and "fst (Owner r key) \<noteq> p"
  shows "fst (Owner r' key) = fst (Owner r key)"
proof -
  have mem: "fst (Owner r key) \<in> set (r_peers r')"
    using assms Owner_in by blast
  then have "r_peers r' \<noteq> []" by auto
  moreover have "'''' \<notin> set (r_peers r')"
    using assms(1) by (simp add: assms(3) valid_peers_def)
  ultimately have v': "valid_peers (r_peers r')" by (simp add: valid_peers_def)
  have d': "distinct_hashes (r_peers r')"
    using assms(2) by (simp add: assms(3) distinct_hashes_def)
  have "\<forall>q \<in> set (r_peers r'). score q key \<le> score (fst (Owner r key)) key"
    using assms(3) Owner_max [OF assms(1)] by blast
  with mem show ?thesis by (rule Owner_unique [OF v' d'])
qed

section \<open>The forwarding contract\<close>

lemma Forward_ok_iff:
  "Forward build do_http peer body batch = None \<longleftrightarrow>
     build (forward_url peer batch) = None \<and>
     (\<exists>code. do_http (forward_request peer body batch) = Inr code \<and> code < 300)"
  by (auto simp: Forward_def split: option.splits sum.splits if_splits)

lemma method_StatusCode_None [simp]: "method_StatusCode e = None"
  by (cases e) simp_all

section \<open>Properties\<close>

text \<open>
  Pods that list the same peers, in whatever order, agree on the owner of every key, and
  the owner is the peer with the highest score.
\<close>

lemma owner_agreement:
  assumes "valid_peers (r_peers r)" and "distinct_hashes (r_peers r)"
    and "set (r_peers r') = set (r_peers r)"
  shows "fst (Owner r' key) = fst (Owner r key) \<and> fst (Owner r key) \<in> set (r_peers r) \<and>
    (\<forall>q \<in> set (r_peers r). score q key \<le> score (fst (Owner r key)) key)"
  using Owner_set_eq [OF assms] Owner_in [OF assms(1)] Owner_max [OF assms(1)] by blast

definition two_pods :: router where
  "two_pods = \<lparr>r_self = ''a'', r_peers = [''a'', ''b'']\<rparr>"

lemma two_pods_ok: "valid_peers (r_peers two_pods)" "distinct_hashes (r_peers two_pods)"
  by (simp add: two_pods_def valid_peers_def) (simp add: two_pods_def distinct_hashes_def, code_simp)

lemma owner_agreement_witness:
  "fst (Owner \<lparr>r_self = ''b'', r_peers = [''b'', ''a'']\<rparr> ''k'') = fst (Owner two_pods ''k'')"
  using owner_agreement [OF two_pods_ok, of "\<lparr>r_self = ''b'', r_peers = [''b'', ''a'']\<rparr>" "''k''"]
  by (auto simp: two_pods_def)



text \<open>
  C24: when a peer leaves, only the keys it owned move.
\<close>

theorem owner_minimal_disruption:
  assumes "valid_peers (r_peers r)" and "distinct_hashes (r_peers r)"
    and "set (r_peers r') = set (r_peers r) - {p}" and "fst (Owner r key) \<noteq> p"
  shows "fst (Owner r' key) = fst (Owner r key)"
  by (rule Owner_remove [OF assms])

definition three_pods :: router where
  "three_pods = \<lparr>r_self = ''a'', r_peers = [''a'', ''b'', ''c'']\<rparr>"

lemma three_pods_ok: "valid_peers (r_peers three_pods)" "distinct_hashes (r_peers three_pods)"
  by (simp add: three_pods_def valid_peers_def) (simp add: three_pods_def distinct_hashes_def, code_simp)

theorem owner_minimal_disruption_witness:
  "Owner three_pods ''k'' = (''a'', True) \<and>
   fst (Owner \<lparr>r_self = ''a'', r_peers = [''a'', ''b'']\<rparr> ''k'') = ''a''"
proof -
  have k: "Owner three_pods ''k'' = (''a'', True)" by code_simp
  have "fst (Owner \<lparr>r_self = ''a'', r_peers = [''a'', ''b'']\<rparr> ''k'') = fst (Owner three_pods ''k'')"
    by (rule owner_minimal_disruption [OF three_pods_ok, where p = "''c''"])
       (simp_all add: k, auto simp: three_pods_def)
  with k show ?thesis by simp
qed

end
