(* ===== verification/Text.thy ===== *)
theory Text
  imports Prelude
begin

text \<open>
  Text output shared by the reports and the metrics: decimal integers, counting the runes of a
  UTF-8 string, and the padding of \<^verbatim>\<open>fmt\<close>'s field widths, which count runes.
\<close>

section \<open>Integers\<close>

definition dec_int :: "int \<Rightarrow> string" where
  "dec_int i = (if i < 0 then ''-'' @ dec_nat (nat (- i)) else dec_nat (nat i))"

lemma dec_nat_no_minus: "CHR ''-'' \<notin> set (dec_nat n)"
  using dec_nat_chars [of n] by auto

lemma minus_dec_nat [simp]: "CHR ''-'' # s \<noteq> dec_nat n" "dec_nat n \<noteq> CHR ''-'' # s"
  using dec_nat_no_minus [of n] by (metis list.set_intros(1))+

lemma dec_int_inj: "dec_int i = dec_int j \<Longrightarrow> i = j"
  by (auto simp: dec_int_def dest!: dec_nat_inj split: if_splits)

section \<open>Runes\<close>

text \<open>\<^verbatim>\<open>utf8.RuneCountInString\<close>: each maximal valid encoding is one rune, any other byte one.\<close>

definition byte_in :: "char \<Rightarrow> nat \<Rightarrow> nat \<Rightarrow> bool" where
  "byte_in c lo hi \<longleftrightarrow> lo \<le> of_char c \<and> of_char c \<le> (hi :: nat)"

definition rune_len :: "bytes \<Rightarrow> nat" where
  "rune_len s =
     (case s of
        b0 # b1 # rest \<Rightarrow>
          if byte_in b0 0xC2 0xDF \<and> byte_in b1 0x80 0xBF then 2
          else (case rest of
            b2 # rest' \<Rightarrow>
              if byte_in b2 0x80 0xBF \<and>
                 ((byte_in b0 0xE0 0xE0 \<and> byte_in b1 0xA0 0xBF) \<or>
                  ((byte_in b0 0xE1 0xEC \<or> byte_in b0 0xEE 0xEF) \<and> byte_in b1 0x80 0xBF) \<or>
                  (byte_in b0 0xED 0xED \<and> byte_in b1 0x80 0x9F)) then 3
              else (case rest' of
                b3 # _ \<Rightarrow>
                  if byte_in b2 0x80 0xBF \<and> byte_in b3 0x80 0xBF \<and>
                     ((byte_in b0 0xF0 0xF0 \<and> byte_in b1 0x90 0xBF) \<or>
                      (byte_in b0 0xF1 0xF3 \<and> byte_in b1 0x80 0xBF) \<or>
                      (byte_in b0 0xF4 0xF4 \<and> byte_in b1 0x80 0x8F)) then 4 else 1
              | [] \<Rightarrow> 1)
          | [] \<Rightarrow> 1)
      | _ \<Rightarrow> 1)"

lemma rune_len_pos [simp]: "0 < rune_len s"
  by (simp add: rune_len_def split: list.splits)

function RuneCount :: "bytes \<Rightarrow> nat" where
  "RuneCount s = (if s = [] then 0 else Suc (RuneCount (drop (rune_len s) s)))"
  by pat_completeness auto
termination by (relation "measure length") auto

declare RuneCount.simps [simp del]

lemma RuneCount_le: "RuneCount s \<le> length s"
proof (induction s rule: RuneCount.induct)
  case (1 s)
  show ?case
  proof (cases "s = []")
    case False
    with 1 have "RuneCount (drop (rune_len s) s) \<le> length s - rune_len s" by simp
    moreover have "0 < rune_len s" "0 < length s" using False by simp_all
    ultimately have "Suc (RuneCount (drop (rune_len s) s)) \<le> length s" by linarith
    with False show ?thesis by (subst RuneCount.simps) simp
  qed (subst RuneCount.simps, simp)
qed

lemma rune_len_ascii: "of_char c < (128 :: nat) \<Longrightarrow> rune_len (c # s) = 1"
  by (auto simp: rune_len_def byte_in_def split: list.splits)

lemma RuneCount_ascii: "\<forall>c \<in> set s. of_char c < (128 :: nat) \<Longrightarrow> RuneCount s = length s"
proof (induction s)
  case (Cons c s)
  then show ?case by (subst RuneCount.simps) (simp add: rune_len_ascii)
qed (subst RuneCount.simps, simp)

section \<open>Field widths\<close>

text \<open>\<^verbatim>\<open>%-8s\<close> pads with spaces on the right, \<^verbatim>\<open>%4.1f\<close> on the left; longer texts are not cut.\<close>

definition pad_right :: "nat \<Rightarrow> string \<Rightarrow> string" where
  "pad_right w s = s @ replicate (w - RuneCount s) CHR '' ''"

definition pad_left :: "nat \<Rightarrow> string \<Rightarrow> string" where
  "pad_left w s = replicate (w - RuneCount s) CHR '' '' @ s"

lemma length_pad: "length (pad_right w s) \<ge> w" "length (pad_left w s) \<ge> w"
  using RuneCount_le [of s] by (simp_all add: pad_right_def pad_left_def)

text \<open>What a program prints, line by line.\<close>

definition LF :: char where "LF = char_of (10 :: nat)"

definition print_lines :: "string list \<Rightarrow> string" where
  "print_lines ls = concat (map (\<lambda>l. l @ [LF]) ls)"

end
