(* ===== verification/Ingest.thy ===== *)
theory Ingest
  imports Types Cluster Text
begin

text \<open>
  \<^verbatim>\<open>ingest/server.go\<close>: the HTTP front door. Requests and responses are records; the JSON
  decoder, the RFC 3339 parser, the UUID source and the clock are the parameters of
  \<open>parse_env\<close>; the channel to the workers is a bounded queue from which a concurrent consumer
  takes events between sends. The router is an interface (\<open>router_iface\<close>), its contract the
  locale \<open>routing\<close>, interpreted on the cluster router. The lemmas account for every line of
  a batch, show that forwarding is one hop and goes to owners, and what a client may conclude
  from a status.
\<close>

section \<open>Interfaces\<close>

record parse_env =
  pe_unmarshal :: "bytes \<Rightarrow> string + payload"
  pe_rfc3339 :: "string \<Rightarrow> string + gotime"
  pe_uuid :: "nat \<Rightarrow> string + string"
  pe_now :: "nat \<Rightarrow> gotime"

text \<open>
  \<open>ri_Status\<close> is what \<^verbatim>\<open>errors.As\<close> finds when asked for a \<^verbatim>\<open>StatusCode\<close> method in an error of
  this router.
\<close>

record 'e router_iface =
  ri_Owner :: "string \<Rightarrow> string \<times> bool"
  ri_Forward :: "string \<Rightarrow> bytes \<Rightarrow> bool \<Rightarrow> 'e option"
  ri_Status :: "'e \<Rightarrow> int option"

record 'e server =
  sv_maxBytes :: int
  sv_routingField :: string
  sv_router :: "'e router_iface option"

definition maxBatchBytes :: nat where "maxBatchBytes = 8388608"

definition NewServer :: "int \<Rightarrow> 'e server" where
  "NewServer maxBytes = \<lparr>sv_maxBytes = maxBytes, sv_routingField = ''entity_id'', sv_router = None\<rparr>"

definition SetRoutingField :: "string \<Rightarrow> 'e server \<Rightarrow> 'e server" where
  "SetRoutingField field s = (if field \<noteq> '''' then s\<lparr>sv_routingField := field\<rparr> else s)"

definition SetRouter :: "'e router_iface \<Rightarrow> 'e server \<Rightarrow> 'e server" where
  "SetRouter r s = s\<lparr>sv_router := Some r\<rparr>"

section \<open>Parsing\<close>

datatype parse_error =
    InvalidJSON string
  | BadEventType
  | MissingTimestamp
  | BadTimestamp
  | EventIDTooLong
  | UuidFailed string

definition string_field :: "payload \<Rightarrow> string \<Rightarrow> string option" where
  "string_field m k = (case map_of m k of Some (AString s) \<Rightarrow> Some s | _ \<Rightarrow> None)"

definition parseEvent :: "parse_env \<Rightarrow> string \<Rightarrow> nat \<Rightarrow> bytes \<Rightarrow> parse_error + event" where
  "parseEvent env routingField n raw =
     (case pe_unmarshal env raw of
        Inl e \<Rightarrow> Inl (InvalidJSON e)
      | Inr payload \<Rightarrow>
     (case string_field payload ''event_type'' of
        None \<Rightarrow> Inl BadEventType
      | Some eventType \<Rightarrow>
     if eventType = '''' then Inl BadEventType else
     (case string_field payload ''timestamp'' of
        None \<Rightarrow> Inl MissingTimestamp
      | Some timestampStr \<Rightarrow>
     (case pe_rfc3339 env timestampStr of
        Inl e \<Rightarrow> Inl BadTimestamp
      | Inr ts \<Rightarrow>
     (let idStr = (case string_field payload ''event_id'' of None \<Rightarrow> '''' | Some s \<Rightarrow> s) in
      if length idStr > 256 then Inl EventIDTooLong
      else
        (case (if idStr = '''' then pe_uuid env n else Inr idStr) of
           Inl e \<Rightarrow> Inl (UuidFailed e)
         | Inr eventID \<Rightarrow>
             Inr \<lparr>ev_EventID = eventID, ev_EventType = eventType,
                  ev_EntityID = (case string_field payload routingField of
                                   Some v \<Rightarrow> if v \<noteq> '''' then v else eventID
                                 | None \<Rightarrow> eventID),
                  ev_Timestamp = ts, ev_Payload = payload, ev_RawJSON = raw,
                  ev_ReceivedAt = pe_now env n\<rparr>))))))"

section \<open>The queue\<close>

text \<open>
  \<open>ig_queue\<close> is the channel's buffer, \<open>ig_taken\<close> what the workers have received from it;
  \<open>ig_forwards\<close> logs the calls of \<^verbatim>\<open>Forward\<close>; the two counters index the observations of
  parses and sends.
\<close>

record ingest =
  ig_queue :: "event list"
  ig_cap :: nat
  ig_taken :: "event list"
  ig_forwards :: "(string \<times> bytes \<times> bool) list"
  ig_parses :: nat
  ig_sends :: nat

definition enqueue :: "(nat \<Rightarrow> nat) \<Rightarrow> event \<Rightarrow> ingest \<Rightarrow> bool \<times> ingest" where
  "enqueue drain ev st =
     (let k = drain (ig_sends st);
          st1 = st\<lparr>ig_taken := ig_taken st @ take k (ig_queue st), ig_queue := drop k (ig_queue st),
                   ig_sends := Suc (ig_sends st)\<rparr>
      in if length (ig_queue st1) < ig_cap st1
         then (True, st1\<lparr>ig_queue := ig_queue st1 @ [ev]\<rparr>)
         else (False, st1))"

text \<open>All events ever accepted, in order.\<close>

definition delivered :: "ingest \<Rightarrow> event list" where
  "delivered st = ig_taken st @ ig_queue st"

definition peerStatus :: "'e router_iface \<Rightarrow> 'e \<Rightarrow> int option" where
  "peerStatus R err = ri_Status R err"

definition forward_log :: "string \<Rightarrow> bytes \<Rightarrow> bool \<Rightarrow> ingest \<Rightarrow> ingest" where
  "forward_log peer body batch st = st\<lparr>ig_forwards := ig_forwards st @ [(peer, body, batch)]\<rparr>"

section \<open>Requests and responses\<close>

text \<open>A request body is what the client sends, and whether the connection breaks after it.\<close>

record http_request =
  hr_contentType :: string
  hr_forwarded :: string
  hr_body :: bytes
  hr_broken :: bool

record batchResponse =
  br_Accepted :: int
  br_Forwarded :: int
  br_Rejected :: int

datatype http_body =
    NoBody
  | PayloadTooLarge
  | ReadBodyFailed
  | InvalidEvent parse_error
  | PeerRejected int
  | ServerBusy
  | BadContentType
  | BatchCounts batchResponse
  | NotFound
  | MethodNotAllowed

type_synonym http_response = "int \<times> http_body"

datatype read_end = EOF | TooLarge | ReadFailed

text \<open>\<^verbatim>\<open>http.MaxBytesReader\<close>: the bytes that can be read, and how reading ends.\<close>

definition MaxBytesReader :: "int \<Rightarrow> http_request \<Rightarrow> bytes \<times> read_end" where
  "MaxBytesReader limit r =
     (if int (length (hr_body r)) > limit then (take (nat limit) (hr_body r), TooLarge)
      else (hr_body r, if hr_broken r then ReadFailed else EOF))"

definition contentTypeOK :: "http_request \<Rightarrow> bool" where
  "contentTypeOK r \<longleftrightarrow> hr_contentType r = '''' \<or> has_prefix (hr_contentType r) ''application/json''"

text \<open>The peer an event must be forwarded to, if any.\<close>

definition route :: "'e server \<Rightarrow> bool \<Rightarrow> event \<Rightarrow> ('e router_iface \<times> string) option" where
  "route sv forwarded ev =
     (case sv_router sv of
        None \<Rightarrow> None
      | Some R \<Rightarrow>
          if forwarded then None
          else (case ri_Owner R (ev_EntityID ev) of (peer, self) \<Rightarrow> if self then None else Some (R, peer)))"

definition accept_local :: "(nat \<Rightarrow> nat) \<Rightarrow> event \<Rightarrow> ingest \<Rightarrow> http_response \<times> ingest" where
  "accept_local drain ev st =
     (case enqueue drain ev st of
        (True, st') \<Rightarrow> ((202, NoBody), st')
      | (False, st') \<Rightarrow> ((429, ServerBusy), st'))"

definition handleEvent ::
  "parse_env \<Rightarrow> (nat \<Rightarrow> nat) \<Rightarrow> 'e server \<Rightarrow> http_request \<Rightarrow> ingest \<Rightarrow> http_response \<times> ingest" where
  "handleEvent env drain sv r st =
     (if \<not> contentTypeOK r then ((415, BadContentType), st)
      else (case MaxBytesReader (sv_maxBytes sv) r of
        (_, TooLarge) \<Rightarrow> ((413, PayloadTooLarge), st)
      | (_, ReadFailed) \<Rightarrow> ((400, ReadBodyFailed), st)
      | (raw, EOF) \<Rightarrow>
          (let st1 = st\<lparr>ig_parses := Suc (ig_parses st)\<rparr> in
           case parseEvent env (sv_routingField sv) (ig_parses st) raw of
             Inl e \<Rightarrow> ((400, InvalidEvent e), st1)
           | Inr ev \<Rightarrow>
               (case route sv (hr_forwarded r \<noteq> '''') ev of
                  None \<Rightarrow> accept_local drain ev st1
                | Some (R, peer) \<Rightarrow>
                    (let st2 = forward_log peer raw False st1 in
                     case ri_Forward R peer raw False of
                       None \<Rightarrow> ((202, NoBody), st2)
                     | Some err \<Rightarrow>
                         (case peerStatus R err of
                            Some code \<Rightarrow> ((if code = 429 then 429 else 502, PeerRejected code), st2)
                          | None \<Rightarrow> accept_local drain ev st2))))))"

section \<open>Lines\<close>

text \<open>
  \<^verbatim>\<open>bytes.TrimSpace\<close> removes Unicode white space at both ends; \<open>space_seqs\<close> lists its
  UTF-8 encodings.
\<close>

definition space_codes :: "nat list list" where
  "space_codes =
     [[9], [10], [11], [12], [13], [32], [0xC2, 0x85], [0xC2, 0xA0], [0xE1, 0x9A, 0x80],
      [0xE2, 0x80, 0xA8], [0xE2, 0x80, 0xA9], [0xE2, 0x80, 0xAF], [0xE2, 0x81, 0x9F], [0xE3, 0x80, 0x80]]
     @ map (\<lambda>k. [0xE2, 0x80, 0x80 + k]) [0..<11]"

definition space_seqs :: "bytes list" where
  "space_seqs = map (map char_of) space_codes"

fun strip_prefix :: "bytes list \<Rightarrow> bytes \<Rightarrow> bytes option" where
  "strip_prefix [] s = None"
| "strip_prefix (p # ps) s =
     (if p \<noteq> [] \<and> has_prefix s p then Some (drop (length p) s) else strip_prefix ps s)"

lemma strip_prefix_shorter: "strip_prefix ps s = Some s' \<Longrightarrow> length s' < length s"
  by (induction ps) (auto simp: has_prefix_iff split: if_splits)

function trim_seqs :: "bytes list \<Rightarrow> bytes \<Rightarrow> bytes" where
  "trim_seqs ps s = (case strip_prefix ps s of None \<Rightarrow> s | Some s' \<Rightarrow> trim_seqs ps s')"
  by pat_completeness auto
termination by (relation "measure (\<lambda>(ps, s). length s)") (auto dest: strip_prefix_shorter)

declare trim_seqs.simps [simp del]

definition TrimSpace :: "bytes \<Rightarrow> bytes" where
  "TrimSpace s = rev (trim_seqs (map rev space_seqs) (rev (trim_seqs space_seqs s)))"

text \<open>\<^verbatim>\<open>ReadBytes\<close>: a line with its delimiter, or what is left without one.\<close>

fun ReadBytes :: "bytes \<Rightarrow> bytes \<times> bytes \<times> bool" where
  "ReadBytes [] = ([], [], False)"
| "ReadBytes (c # cs) =
     (if c = LF then ([c], cs, True)
      else (case ReadBytes cs of (line, rest, found) \<Rightarrow> (c # line, rest, found)))"

lemma ReadBytes_shorter: "ReadBytes s = (line, rest, True) \<Longrightarrow> length rest < length s"
  by (induction s arbitrary: line) (fastforce split: if_splits prod.splits)+

section \<open>Batches\<close>

record remoteGroup =
  rg_raws :: "bytes list"
  rg_events :: "event list"

record batch =
  b_resp :: batchResponse
  b_overloaded :: bool
  b_remote :: "remoteGroup strmap"
  b_ingest :: ingest

definition reject :: "int \<Rightarrow> batch \<Rightarrow> batch" where
  "reject n b = b\<lparr>b_resp := (b_resp b)\<lparr>br_Rejected := br_Rejected (b_resp b) + n\<rparr>\<rparr>"

text \<open>Offer an event to the workers and count what happened.\<close>

definition batch_enqueue :: "(nat \<Rightarrow> nat) \<Rightarrow> event \<Rightarrow> batch \<Rightarrow> batch" where
  "batch_enqueue drain ev b =
     (case enqueue drain ev (b_ingest b) of
        (True, st) \<Rightarrow>
          b\<lparr>b_ingest := st, b_resp := (b_resp b)\<lparr>br_Accepted := br_Accepted (b_resp b) + 1\<rparr>\<rparr>
      | (False, st) \<Rightarrow>
          (reject 1 b)\<lparr>b_ingest := st, b_overloaded := True\<rparr>)"

text \<open>Stage a line for its owner; a missing group is created empty.\<close>

definition stage :: "string \<Rightarrow> bytes \<Rightarrow> event \<Rightarrow> remoteGroup strmap \<Rightarrow> remoteGroup strmap" where
  "stage peer raw ev remote =
     (let g = (case map_of remote peer of None \<Rightarrow> \<lparr>rg_raws = [], rg_events = []\<rparr> | Some g \<Rightarrow> g)
      in alist_upd remote peer
           (g\<lparr>rg_raws := rg_raws g @ [raw], rg_events := rg_events g @ [ev]\<rparr>))"

definition batchLine ::
  "parse_env \<Rightarrow> (nat \<Rightarrow> nat) \<Rightarrow> 'e server \<Rightarrow> bool \<Rightarrow> bytes \<Rightarrow> batch \<Rightarrow> batch" where
  "batchLine env drain sv forwarded line b =
     (if line = [] then b
      else if int (length line) > sv_maxBytes sv then reject 1 b
      else if b_overloaded b then reject 1 b
      else
        (let st = b_ingest b;
             b1 = b\<lparr>b_ingest := st\<lparr>ig_parses := Suc (ig_parses st)\<rparr>\<rparr> in
         case parseEvent env (sv_routingField sv) (ig_parses st) line of
           Inl e \<Rightarrow> reject 1 b1
         | Inr ev \<Rightarrow>
             (case route sv forwarded ev of
                Some (R, peer) \<Rightarrow> b1\<lparr>b_remote := stage peer line ev (b_remote b1)\<rparr>
              | None \<Rightarrow> batch_enqueue drain ev b1)))"

text \<open>The read loop; its second result is \<^verbatim>\<open>readStatus\<close>.\<close>

function batch_read ::
  "parse_env \<Rightarrow> (nat \<Rightarrow> nat) \<Rightarrow> 'e server \<Rightarrow> bool \<Rightarrow> bytes \<Rightarrow> read_end \<Rightarrow> batch \<Rightarrow> batch \<times> int" where
  "batch_read env drain sv forwarded rest e b =
     (case ReadBytes rest of
        (line, rest', True) \<Rightarrow>
          batch_read env drain sv forwarded rest' e (batchLine env drain sv forwarded (TrimSpace line) b)
      | (line, _, False) \<Rightarrow>
          (case e of
             EOF \<Rightarrow> (batchLine env drain sv forwarded (TrimSpace line) b, 0)
           | TooLarge \<Rightarrow> (b, 413)
           | ReadFailed \<Rightarrow> (b, 400)))"
  by pat_completeness auto
termination
  by (relation "measure (\<lambda>(env, drain, sv, forwarded, rest, e, b). length rest)")
     (auto dest: ReadBytes_shorter [OF sym])

declare batch_read.simps [simp del]

text \<open>The forward of one group, and the loop over the groups in the order the map yields them.\<close>

definition forward_group ::
  "(nat \<Rightarrow> nat) \<Rightarrow> 'e router_iface \<Rightarrow> string \<times> remoteGroup \<Rightarrow> batch \<Rightarrow> batch" where
  "forward_group drain R pg b =
     (let peer = fst pg; g = snd pg; body = join_with LF (rg_raws g);
          b1 = b\<lparr>b_ingest := forward_log peer body True (b_ingest b)\<rparr> in
      case ri_Forward R peer body True of
        None \<Rightarrow> b1\<lparr>b_resp := (b_resp b1)\<lparr>br_Forwarded := br_Forwarded (b_resp b1) + int (length (rg_raws g))\<rparr>\<rparr>
      | Some err \<Rightarrow>
          (case peerStatus R err of
             Some code \<Rightarrow>
               (let b2 = reject (int (length (rg_raws g))) b1
                in if code = 429 then b2\<lparr>b_overloaded := True\<rparr> else b2)
           | None \<Rightarrow> fold (batch_enqueue drain) (rg_events g) b1))"

definition new_batch :: "ingest \<Rightarrow> batch" where
  "new_batch st = \<lparr>b_resp = \<lparr>br_Accepted = 0, br_Forwarded = 0, br_Rejected = 0\<rparr>,
                   b_overloaded = False, b_remote = [], b_ingest = st\<rparr>"

definition handleBatch ::
  "parse_env \<Rightarrow> (nat \<Rightarrow> nat) \<Rightarrow> (remoteGroup strmap \<Rightarrow> remoteGroup strmap) \<Rightarrow> 'e server \<Rightarrow> http_request
     \<Rightarrow> ingest \<Rightarrow> http_response \<times> ingest" where
  "handleBatch env drain map_order sv r st =
     (if \<not> contentTypeOK r then ((415, BadContentType), st)
      else
        (let (body, e) = MaxBytesReader (int maxBatchBytes) r;
             (b, readStatus) = batch_read env drain sv (hr_forwarded r \<noteq> '''') body e (new_batch st);
             b' = (case sv_router sv of
                     None \<Rightarrow> b
                   | Some R \<Rightarrow> fold (forward_group drain R) (map_order (b_remote b)) b);
             status = (if readStatus \<noteq> 0 then readStatus else if b_overloaded b' then 429 else 202)
         in ((status, BatchCounts (b_resp b')), b_ingest b')))"

text \<open>
  \<^verbatim>\<open>Handler\<close>: the multiplexer dispatches on the cleaned path, then on the method.
\<close>

definition Handler ::
  "parse_env \<Rightarrow> (nat \<Rightarrow> nat) \<Rightarrow> (remoteGroup strmap \<Rightarrow> remoteGroup strmap) \<Rightarrow> 'e server
     \<Rightarrow> string \<Rightarrow> string \<Rightarrow> http_request \<Rightarrow> ingest \<Rightarrow> http_response \<times> ingest" where
  "Handler env drain map_order sv method path r st =
     (if path = ''/events'' then
        (if method = ''POST'' then handleEvent env drain sv r st else ((405, MethodNotAllowed), st))
      else if path = ''/events/batch'' then
        (if method = ''POST'' then handleBatch env drain map_order sv r st else ((405, MethodNotAllowed), st))
      else ((404, NotFound), st))"

section \<open>Facts on lines\<close>

lemma strip_prefix_suffix: "strip_prefix ps s = Some s' \<Longrightarrow> suffix s' s"
  by (induction ps) (auto simp: has_prefix_iff suffix_def split: if_splits)

lemma trim_seqs_suffix: "suffix (trim_seqs ps s) s"
proof (induction ps s rule: trim_seqs.induct)
  case (1 ps s)
  show ?case
  proof (cases "strip_prefix ps s")
    case (Some s')
    with 1 strip_prefix_suffix [OF Some] show ?thesis
      by (subst trim_seqs.simps) (simp add: suffix_order.order_trans)
  qed (subst trim_seqs.simps, simp)
qed

lemma trim_seqs_stuck: "strip_prefix ps (trim_seqs ps s) = None"
proof (induction ps s rule: trim_seqs.induct)
  case (1 ps s)
  then show ?case by (cases "strip_prefix ps s") (subst trim_seqs.simps, simp)+
qed

lemma strip_prefix_None: "strip_prefix ps s = None \<Longrightarrow> p \<in> set ps \<Longrightarrow> p \<noteq> [] \<Longrightarrow> \<not> has_prefix s p"
  by (induction ps) (auto split: if_splits)

lemma LF_space: "[LF] \<in> set space_seqs"
  by (simp add: space_seqs_def space_codes_def LF_def)

lemma ReadBytes_line:
  "ReadBytes s = (line, rest, found) \<Longrightarrow>
     (if found then \<exists>l. line = l @ [LF] \<and> LF \<notin> set l \<and> s = line @ rest else LF \<notin> set line \<and> line = s \<and> rest = [])"
  by (induction s arbitrary: line rest) (fastforce split: if_splits prod.splits)+

text \<open>A trimmed line has no newline in it.\<close>

lemma TrimSpace_no_LF:
  assumes "LF \<notin> set (butlast line)"
  shows "LF \<notin> set (TrimSpace line)"
proof
  let ?a = "trim_seqs space_seqs line"
  let ?t = "trim_seqs (map rev space_seqs) (rev ?a)"
  assume "LF \<in> set (TrimSpace line)"
  then have in_t: "LF \<in> set ?t" by (simp add: TrimSpace_def)
  obtain x where a: "line = x @ ?a" using trim_seqs_suffix [of space_seqs line] by (auto simp: suffix_def)
  obtain y where t: "rev ?a = y @ ?t"
    using trim_seqs_suffix [of "map rev space_seqs" "rev ?a"] by (auto simp: suffix_def)
  then have a2: "?a = rev ?t @ rev y" by (metis rev_append rev_rev_ident)
  then have "line = x @ rev ?t @ rev y" using a by simp
  moreover obtain c cs where tc: "?t = c # cs" using in_t by (cases ?t) auto
  ultimately have l: "line = (x @ rev cs) @ c # rev y" by simp
  have "\<not> has_prefix ?t (rev [LF])"
    by (rule strip_prefix_None [OF trim_seqs_stuck]) (use LF_space in \<open>auto simp: image_iff\<close>)
  then have "c \<noteq> LF" by (simp add: tc has_prefix_def)
  with in_t tc have "LF \<in> set cs" by auto
  then have "LF \<in> set (butlast line)" unfolding l by (simp add: butlast_append)
  with assms show False ..
qed

text \<open>The trimmed lines the read loop hands on, and the status it ends with.\<close>

function read_lines :: "bytes \<Rightarrow> read_end \<Rightarrow> bytes list" where
  "read_lines rest e =
     (case ReadBytes rest of
        (line, rest', True) \<Rightarrow> TrimSpace line # read_lines rest' e
      | (line, _, False) \<Rightarrow> (case e of EOF \<Rightarrow> [TrimSpace line] | _ \<Rightarrow> []))"
  by pat_completeness auto
termination by (relation "measure (\<lambda>(rest, e). length rest)") (auto dest: ReadBytes_shorter [OF sym])

declare read_lines.simps [simp del]

fun end_status :: "read_end \<Rightarrow> int" where
  "end_status EOF = 0"
| "end_status TooLarge = 413"
| "end_status ReadFailed = 400"

lemma batch_read_fold:
  "batch_read env drain sv fwd rest e b =
     (fold (batchLine env drain sv fwd) (read_lines rest e) b, end_status e)"
proof (induction rest e arbitrary: b rule: read_lines.induct)
  case (1 rest e)
  obtain line rest' found where r: "ReadBytes rest = (line, rest', found)" by (cases "ReadBytes rest") auto
  show ?case
  proof (cases found)
    case True
    with r 1 show ?thesis by (subst batch_read.simps, subst read_lines.simps) simp
  next
    case False
    with r show ?thesis by (subst batch_read.simps, subst read_lines.simps) (cases e; simp)
  qed
qed

lemma read_lines_no_LF: "line \<in> set (read_lines rest e) \<Longrightarrow> LF \<notin> set line"
proof (induction rest e rule: read_lines.induct)
  case (1 rest e)
  obtain line0 rest' found where r: "ReadBytes rest = (line0, rest', found)" by (cases "ReadBytes rest") auto
  have nl: "LF \<notin> set (butlast line0)"
    using ReadBytes_line [OF r] by (cases found) (auto dest: in_set_butlastD)
  show ?case
  proof (cases found)
    case True
    from 1(2) have "line = TrimSpace line0 \<or> line \<in> set (read_lines rest' e)"
      by (subst (asm) read_lines.simps) (simp add: r True)
    then show ?thesis using 1(1) [OF r [symmetric]] True TrimSpace_no_LF [OF nl] r by auto
  next
    case False
    from 1(2) have "line = TrimSpace line0"
      by (subst (asm) read_lines.simps) (simp add: r False split: read_end.splits)
    then show ?thesis using TrimSpace_no_LF [OF nl] by simp
  qed
qed

section \<open>The queue and the router contract\<close>

lemma enqueue_delivered:
  assumes "enqueue drain ev st = (ok, st')"
  shows "delivered st' = delivered st @ (if ok then [ev] else [])"
    and "ig_forwards st' = ig_forwards st" and "ig_cap st' = ig_cap st"
    and "length (ig_queue st) \<le> ig_cap st \<Longrightarrow> length (ig_queue st') \<le> ig_cap st"
  using assms by (auto simp: enqueue_def delivered_def Let_def split: if_splits)

lemma forward_log_simps [simp]:
  "delivered (forward_log p body bt st) = delivered st"
  "ig_forwards (forward_log p body bt st) = ig_forwards st @ [(p, body, bt)]"
  "ig_cap (forward_log p body bt st) = ig_cap st" "ig_queue (forward_log p body bt st) = ig_queue st"
  by (simp_all add: forward_log_def delivered_def)

lemma parses_simps [simp]: "delivered (st\<lparr>ig_parses := n\<rparr>) = delivered st"
  by (simp add: delivered_def)

text \<open>What the server relies on: a router names itself exactly when it says the key is its own.\<close>

locale routing =
  fixes R :: "'e router_iface" and self :: string
  assumes owner_self: "ri_Owner R key = (peer, own) \<Longrightarrow> own \<longleftrightarrow> peer = self"
begin

lemma route_not_self: "sv_router sv = Some R \<Longrightarrow> route sv fwd ev = Some (R', peer) \<Longrightarrow> peer \<noteq> self"
  using owner_self by (auto simp: route_def split: if_splits prod.splits)

lemma route_None_self:
  "sv_router sv = Some R \<Longrightarrow> route sv False ev = None \<Longrightarrow> fst (ri_Owner R (ev_EntityID ev)) = self"
  using owner_self [of "ev_EntityID ev"] by (auto simp: route_def split: if_splits prod.splits)

end

text \<open>The cluster router as the server's interface.\<close>

definition cluster_iface ::
  "router \<Rightarrow> (string \<Rightarrow> string option) \<Rightarrow> (request \<Rightarrow> string + int) \<Rightarrow> fwd_error router_iface" where
  "cluster_iface r build do_http =
     \<lparr>ri_Owner = Owner r, ri_Forward = Forward build do_http, ri_Status = method_StatusCode\<rparr>"

interpretation cluster: routing "cluster_iface r build do_http" "r_self r"
  by unfold_locales (auto simp: cluster_iface_def Owner_def Let_def)

lemma route_Some:
  "route sv fwd ev = Some (R, peer) \<Longrightarrow>
     sv_router sv = Some R \<and> \<not> fwd \<and> ri_Owner R (ev_EntityID ev) = (peer, False)"
  by (auto simp: route_def split: option.splits if_splits prod.splits)

lemma parseEvent_raw: "parseEvent env rf n raw = Inr ev \<Longrightarrow> ev_RawJSON ev = raw"
  by (auto simp: parseEvent_def Let_def split: sum.splits option.splits if_splits)

lemma string_field_Some: "string_field m k = Some s \<longleftrightarrow> map_of m k = Some (AString s)"
  by (auto simp: string_field_def split: option.splits goval.splits)

lemma parseEvent_Inr:
  assumes "parseEvent env rf n raw = Inr ev"
  obtains payload et tss ts idStr eid where
    "pe_unmarshal env raw = Inr payload" "string_field payload ''event_type'' = Some et" "et \<noteq> ''''"
    "string_field payload ''timestamp'' = Some tss" "pe_rfc3339 env tss = Inr ts"
    "idStr = (case string_field payload ''event_id'' of None \<Rightarrow> '''' | Some s \<Rightarrow> s)"
    "length idStr \<le> 256" "(if idStr = '''' then pe_uuid env n else Inr idStr) = Inr eid"
    "ev = \<lparr>ev_EventID = eid, ev_EventType = et,
           ev_EntityID = (case string_field payload rf of
                            Some v \<Rightarrow> if v \<noteq> '''' then v else eid | None \<Rightarrow> eid),
           ev_Timestamp = ts, ev_Payload = payload, ev_RawJSON = raw, ev_ReceivedAt = pe_now env n\<rparr>"
proof -
  obtain payload where 1: "pe_unmarshal env raw = Inr payload"
    using assms by (cases "pe_unmarshal env raw") (auto simp: parseEvent_def)
  obtain et where 2: "string_field payload ''event_type'' = Some et" "et \<noteq> ''''"
    using assms 1
    by (cases "string_field payload ''event_type''"; simp add: parseEvent_def split: if_splits)
  obtain tss where 3: "string_field payload ''timestamp'' = Some tss"
    using assms 1 2 by (cases "string_field payload ''timestamp''") (simp_all add: parseEvent_def)
  obtain ts where 4: "pe_rfc3339 env tss = Inr ts"
    using assms 1 2 3 by (cases "pe_rfc3339 env tss") (simp_all add: parseEvent_def)
  define idStr where "idStr = (case string_field payload ''event_id'' of None \<Rightarrow> '''' | Some s \<Rightarrow> s)"
  note d = parseEvent_def Let_def idStr_def [symmetric] 1 2 3 4
  have 5: "length idStr \<le> 256"
    using assms by (simp add: d split: if_splits)
  obtain eid where 6: "(if idStr = '''' then pe_uuid env n else Inr idStr) = Inr eid"
    using assms 5 by (cases "if idStr = '''' then pe_uuid env n else Inr idStr") (simp_all add: d)
  have 7: "ev = \<lparr>ev_EventID = eid, ev_EventType = et,
           ev_EntityID = (case string_field payload rf of
                            Some v \<Rightarrow> if v \<noteq> '''' then v else eid | None \<Rightarrow> eid),
           ev_Timestamp = ts, ev_Payload = payload, ev_RawJSON = raw, ev_ReceivedAt = pe_now env n\<rparr>"
    using assms 5 6 by (simp add: d)
  show ?thesis by (rule that [OF 1 2 3 4 idStr_def 5 6 7])
qed

lemma parseEvent_fields:
  assumes "parseEvent env rf n raw = Inr ev"
  shows "pe_unmarshal env raw = Inr (ev_Payload ev)" and "ev_RawJSON ev = raw"
    and "ev_EventType ev \<noteq> ''''"
    and "map_of (ev_Payload ev) ''event_type'' = Some (AString (ev_EventType ev))"
    and "\<exists>ts. map_of (ev_Payload ev) ''timestamp'' = Some (AString ts) \<and> pe_rfc3339 env ts = Inr (ev_Timestamp ev)"
  by (rule parseEvent_Inr [OF assms]; simp add: string_field_Some)+

lemma parseEvent_id:
  assumes "parseEvent env rf n raw = Inr ev"
  shows "length (ev_EventID ev) \<le> 256 \<or> pe_uuid env n = Inr (ev_EventID ev)"
    and "pe_uuid env n \<noteq> Inr '''' \<Longrightarrow> ev_EventID ev \<noteq> ''''"
  by (rule parseEvent_Inr [OF assms]; fastforce split: if_splits)+

lemma parseEvent_entity:
  assumes "parseEvent env rf n raw = Inr ev"
  shows "ev_EntityID ev = (case map_of (ev_Payload ev) rf of
           Some (AString v) \<Rightarrow> if v \<noteq> '''' then v else ev_EventID ev | _ \<Rightarrow> ev_EventID ev)"
  by (rule parseEvent_Inr [OF assms]) (simp add: string_field_def split: option.splits goval.splits)

section \<open>Lines are conserved\<close>

definition staged :: "remoteGroup strmap \<Rightarrow> bytes list" where
  "staged remote = concat (map (\<lambda>pg. rg_raws (snd pg)) remote)"

text \<open>
  A well-formed group for a peer: nonempty, its events parsed from its lines, all owned by
  that peer, no line empty, too long or broken.
\<close>

definition group_ok :: "parse_env \<Rightarrow> 'e server \<Rightarrow> string \<times> remoteGroup \<Rightarrow> bool" where
  "group_ok env sv pg \<longleftrightarrow>
     rg_raws (snd pg) \<noteq> [] \<and> map ev_RawJSON (rg_events (snd pg)) = rg_raws (snd pg) \<and>
     (\<forall>ev \<in> set (rg_events (snd pg)).
        (\<exists>n. parseEvent env (sv_routingField sv) n (ev_RawJSON ev) = Inr ev) \<and>
        (\<exists>R. sv_router sv = Some R \<and> ri_Owner R (ev_EntityID ev) = (fst pg, False)) \<and>
        ev_RawJSON ev \<noteq> [] \<and> LF \<notin> set (ev_RawJSON ev) \<and> int (length (ev_RawJSON ev)) \<le> sv_maxBytes sv)"

lemma stage_staged:
  "distinct (map fst remote) \<Longrightarrow> mset (staged (stage peer raw ev remote)) = add_mset raw (mset (staged remote))"
proof (induction remote)
  case Nil
  then show ?case by (simp add: stage_def staged_def)
next
  case (Cons pg remote)
  obtain p g where pg: "pg = (p, g)" by (cases pg)
  show ?case
  proof (cases "p = peer")
    case True
    then show ?thesis by (simp add: pg stage_def staged_def Let_def)
  next
    case False
    then have "stage peer raw ev (pg # remote) = pg # stage peer raw ev remote"
      by (simp add: pg stage_def Let_def)
    with Cons show ?thesis by (simp add: staged_def)
  qed
qed

lemma stage_ok:
  assumes "\<forall>pg \<in> set remote. group_ok env sv pg"
    and "parseEvent env (sv_routingField sv) n raw = Inr ev"
    and "route sv fwd ev = Some (R, peer)"
    and "raw \<noteq> []" "LF \<notin> set raw" "int (length raw) \<le> sv_maxBytes sv"
  shows "\<forall>pg \<in> set (stage peer raw ev remote). group_ok env sv pg"
proof -
  have raw: "ev_RawJSON ev = raw" by (rule parseEvent_raw [OF assms(2)])
  define g where "g = (case map_of remote peer of None \<Rightarrow> \<lparr>rg_raws = [], rg_events = []\<rparr> | Some g \<Rightarrow> g)"
  have g: "map ev_RawJSON (rg_events g) = rg_raws g \<and> (\<forall>e \<in> set (rg_events g).
        (\<exists>n. parseEvent env (sv_routingField sv) n (ev_RawJSON e) = Inr e) \<and>
        (\<exists>R. sv_router sv = Some R \<and> ri_Owner R (ev_EntityID e) = (peer, False)) \<and>
        ev_RawJSON e \<noteq> [] \<and> LF \<notin> set (ev_RawJSON e) \<and> int (length (ev_RawJSON e)) \<le> sv_maxBytes sv)"
  proof (cases "map_of remote peer")
    case None
    then show ?thesis by (simp add: g_def)
  next
    case (Some g')
    then have "group_ok env sv (peer, g')" using assms(1) map_of_SomeD by fastforce
    with Some show ?thesis by (simp add: g_def group_ok_def)
  qed
  have "group_ok env sv (peer, g\<lparr>rg_raws := rg_raws g @ [raw], rg_events := rg_events g @ [ev]\<rparr>)"
    using g assms(2,4-6) route_Some [OF assms(3)] raw by (auto simp: group_ok_def)
  then show ?thesis
    using assms(1) set_alist_upd [of remote peer] unfolding stage_def Let_def g_def [symmetric] by blast
qed

text \<open>
  The invariant of the read loop started on \<open>st0\<close>, after \<open>lines\<close>: every line that is not
  blank has been enqueued, staged or rejected, and the counts say how many.
\<close>

definition batch_inv ::
  "parse_env \<Rightarrow> 'e server \<Rightarrow> bool \<Rightarrow> ingest \<Rightarrow> bytes list \<Rightarrow> batch \<Rightarrow> event list \<Rightarrow> bytes list \<Rightarrow> bool" where
  "batch_inv env sv fwd st0 lines b new rej \<longleftrightarrow>
     delivered (b_ingest b) = delivered st0 @ new \<and>
     mset (filter (\<lambda>l. l \<noteq> []) lines) = mset (map ev_RawJSON new) + mset (staged (b_remote b)) + mset rej \<and>
     br_Accepted (b_resp b) = int (length new) \<and> br_Rejected (b_resp b) = int (length rej) \<and>
     br_Forwarded (b_resp b) = 0 \<and> ig_forwards (b_ingest b) = ig_forwards st0 \<and>
     distinct (map fst (b_remote b)) \<and> (\<forall>pg \<in> set (b_remote b). group_ok env sv pg) \<and>
     (b_remote b \<noteq> [] \<longrightarrow> sv_router sv \<noteq> None \<and> \<not> fwd) \<and>
     (\<forall>ev \<in> set new. (\<exists>n. parseEvent env (sv_routingField sv) n (ev_RawJSON ev) = Inr ev) \<and> route sv fwd ev = None)"

lemma batch_inv_new: "batch_inv env sv fwd st [] (new_batch st) [] []"
  by (simp add: batch_inv_def new_batch_def staged_def)

lemma batch_inv_reject:
  "batch_inv env sv fwd st0 lines b new rej \<Longrightarrow> line \<noteq> [] \<Longrightarrow>
     batch_inv env sv fwd st0 (lines @ [line]) (reject 1 b) new (rej @ [line])"
  by (simp add: batch_inv_def reject_def)

lemma batch_inv_parse:
  "batch_inv env sv fwd st0 lines b new rej \<Longrightarrow>
     batch_inv env sv fwd st0 lines (b\<lparr>b_ingest := (b_ingest b)\<lparr>ig_parses := n\<rparr>\<rparr>) new rej"
  by (simp add: batch_inv_def)

lemma batch_inv_enqueue:
  assumes "batch_inv env sv fwd st0 lines b new rej" and "line \<noteq> []"
    and "parseEvent env (sv_routingField sv) n line = Inr ev" and "route sv fwd ev = None"
  shows "\<exists>new' rej'. batch_inv env sv fwd st0 (lines @ [line]) (batch_enqueue drain ev b) new' rej'"
proof -
  have raw: "ev_RawJSON ev = line" by (rule parseEvent_raw [OF assms(3)])
  obtain ok st' where e: "enqueue drain ev (b_ingest b) = (ok, st')" by fastforce
  note d = enqueue_delivered [OF e]
  show ?thesis
  proof (cases ok)
    case True
    have "batch_inv env sv fwd st0 (lines @ [line]) (batch_enqueue drain ev b) (new @ [ev]) rej"
      using assms d raw True e by (auto simp: batch_inv_def batch_enqueue_def)
    then show ?thesis by blast
  next
    case False
    have "batch_inv env sv fwd st0 (lines @ [line]) (batch_enqueue drain ev b) new (rej @ [line])"
      using assms d raw False e by (simp add: batch_inv_def batch_enqueue_def reject_def)
    then show ?thesis by blast
  qed
qed

lemma batch_inv_stage:
  assumes "batch_inv env sv fwd st0 lines b new rej" and "line \<noteq> []" "LF \<notin> set line"
    and "int (length line) \<le> sv_maxBytes sv"
    and "parseEvent env (sv_routingField sv) n line = Inr ev" and "route sv fwd ev = Some (R, peer)"
  shows "batch_inv env sv fwd st0 (lines @ [line]) (b\<lparr>b_remote := stage peer line ev (b_remote b)\<rparr>) new rej"
proof -
  have "\<forall>pg \<in> set (stage peer line ev (b_remote b)). group_ok env sv pg"
    using assms by (intro stage_ok) (auto simp: batch_inv_def)
  moreover have "mset (staged (stage peer line ev (b_remote b))) = add_mset line (mset (staged (b_remote b)))"
    using assms(1) by (intro stage_staged) (simp add: batch_inv_def)
  moreover have "distinct (map fst (stage peer line ev (b_remote b)))"
    using assms(1) by (simp add: batch_inv_def stage_def Let_def)
  ultimately show ?thesis
    using assms(1,2) route_Some [OF assms(6)] by (simp add: batch_inv_def)
qed

lemma batchLine_inv [inv_intros]:
  assumes inv: "batch_inv env sv fwd st0 lines b new rej" and lf: "LF \<notin> set line"
  shows "\<exists>new' rej'. batch_inv env sv fwd st0 (lines @ [line]) (batchLine env drain sv fwd line b) new' rej'"
proof (cases "line = []")
  case True
  have "batch_inv env sv fwd st0 (lines @ [line]) b new rej" using inv True by (simp add: batch_inv_def)
  with True show ?thesis by (auto simp: batchLine_def)
next
  case False
  let ?p = "parseEvent env (sv_routingField sv) (ig_parses (b_ingest b)) line"
  let ?b1 = "b\<lparr>b_ingest := (b_ingest b)\<lparr>ig_parses := Suc (ig_parses (b_ingest b))\<rparr>\<rparr>"
  have b1: "batch_inv env sv fwd st0 lines ?b1 new rej" by (rule batch_inv_parse [OF inv])
  consider (big) "int (length line) > sv_maxBytes sv \<or> b_overloaded b"
    | (bad) e where "int (length line) \<le> sv_maxBytes sv" "\<not> b_overloaded b" "?p = Inl e"
    | (good) ev where "int (length line) \<le> sv_maxBytes sv" "\<not> b_overloaded b" "?p = Inr ev"
    by (cases ?p; cases "int (length line) \<le> sv_maxBytes sv"; cases "b_overloaded b") auto
  then show ?thesis
  proof cases
    case big
    then have "batchLine env drain sv fwd line b = reject 1 b" using False by (auto simp: batchLine_def)
    with batch_inv_reject [OF inv False] show ?thesis by auto
  next
    case bad
    then have "batchLine env drain sv fwd line b = reject 1 ?b1" using False by (simp add: batchLine_def Let_def)
    with batch_inv_reject [OF b1 False] show ?thesis by auto
  next
    case good
    show ?thesis
    proof (cases "route sv fwd ev")
      case None
      with good False have "batchLine env drain sv fwd line b = batch_enqueue drain ev ?b1"
        by (simp add: batchLine_def Let_def)
      with batch_inv_enqueue [OF b1 False good(3) None] show ?thesis by simp
    next
      case (Some Rp)
      obtain R peer where Rp: "Rp = (R, peer)" by (cases Rp)
      with Some good False have "batchLine env drain sv fwd line b = ?b1\<lparr>b_remote := stage peer line ev (b_remote ?b1)\<rparr>"
        by (simp add: batchLine_def Let_def)
      with batch_inv_stage [OF b1 False lf good(1,3)] Some Rp show ?thesis by auto
    qed
  qed
qed

lemma batch_fold_inv:
  "batch_inv env sv fwd st0 lines0 b new rej \<Longrightarrow> \<forall>l \<in> set lines. LF \<notin> set l \<Longrightarrow>
     \<exists>new' rej'. batch_inv env sv fwd st0 (lines0 @ lines) (fold (batchLine env drain sv fwd) lines b) new' rej'"
proof (induction lines arbitrary: lines0 b new rej)
  case (Cons l lines)
  obtain new1 rej1 where "batch_inv env sv fwd st0 (lines0 @ [l]) (batchLine env drain sv fwd l b) new1 rej1"
    using batchLine_inv [OF Cons.prems(1)] Cons.prems(2) by (metis list.set_intros(1))
  from Cons.IH [OF this] Cons.prems(2) show ?case by auto
qed auto

text \<open>The forwarding phase, group by group.\<close>

text \<open>What a phase adds to a batch: events enqueued, lines rejected, lines sent, calls of \<^verbatim>\<open>Forward\<close>.\<close>

definition adds ::
  "batch \<Rightarrow> batch \<Rightarrow> event list \<Rightarrow> bytes list \<Rightarrow> bytes list \<Rightarrow> (string \<times> bytes \<times> bool) list \<Rightarrow> bool" where
  "adds b b' new rej sent calls \<longleftrightarrow>
     delivered (b_ingest b') = delivered (b_ingest b) @ new \<and>
     br_Accepted (b_resp b') = br_Accepted (b_resp b) + int (length new) \<and>
     br_Rejected (b_resp b') = br_Rejected (b_resp b) + int (length rej) \<and>
     br_Forwarded (b_resp b') = br_Forwarded (b_resp b) + int (length sent) \<and>
     ig_forwards (b_ingest b') = ig_forwards (b_ingest b) @ calls"

lemma adds_trans:
  "adds b b' n r s c \<Longrightarrow> adds b' b'' n' r' s' c' \<Longrightarrow> adds b b'' (n @ n') (r @ r') (s @ s') (c @ c')"
  by (simp add: adds_def)

lemma adds_refl: "adds b b [] [] [] []"
  by (simp add: adds_def)

lemma batch_enqueue_adds:
  "\<exists>new rej. adds b (batch_enqueue drain ev b) new rej [] [] \<and> set new \<subseteq> {ev} \<and>
     mset (map ev_RawJSON new) + mset rej = {#ev_RawJSON ev#}"
proof -
  obtain ok st' where e: "enqueue drain ev (b_ingest b) = (ok, st')" by fastforce
  note d = enqueue_delivered [OF e]
  show ?thesis
  proof (cases ok)
    case True
    show ?thesis by (rule exI [of _ "[ev]"], rule exI [of _ "[]"])
        (simp add: adds_def batch_enqueue_def e True d)
  next
    case False
    show ?thesis by (rule exI [of _ "[]"], rule exI [of _ "[ev_RawJSON ev]"])
        (simp add: adds_def batch_enqueue_def e False d reject_def)
  qed
qed

lemma fold_enqueue_adds:
  "\<exists>new rej. adds b (fold (batch_enqueue drain) evs b) new rej [] [] \<and> set new \<subseteq> set evs \<and>
     mset (map ev_RawJSON new) + mset rej = mset (map ev_RawJSON evs)"
proof (induction evs arbitrary: b)
  case Nil
  show ?case by (rule exI [of _ "[]"], rule exI [of _ "[]"]) (simp add: adds_refl)
next
  case (Cons ev evs)
  obtain n1 r1 where 1: "adds b (batch_enqueue drain ev b) n1 r1 [] []" "set n1 \<subseteq> {ev}"
    "mset (map ev_RawJSON n1) + mset r1 = {#ev_RawJSON ev#}" using batch_enqueue_adds by blast
  obtain n2 r2 where 2: "adds (batch_enqueue drain ev b) (fold (batch_enqueue drain) evs (batch_enqueue drain ev b)) n2 r2 [] []"
    "set n2 \<subseteq> set evs" "mset (map ev_RawJSON n2) + mset r2 = mset (map ev_RawJSON evs)" using Cons.IH by blast
  have "adds b (fold (batch_enqueue drain) (ev # evs) b) (n1 @ n2) (r1 @ r2) [] []"
    using adds_trans [OF 1(1) 2(1)] by simp
  moreover have "set (n1 @ n2) \<subseteq> set (ev # evs)" using 1(2) 2(2) by auto
  moreover have "mset (map ev_RawJSON (n1 @ n2)) + mset (r1 @ r2) =
      (mset (map ev_RawJSON n1) + mset r1) + (mset (map ev_RawJSON n2) + mset r2)" by simp
  then have "mset (map ev_RawJSON (n1 @ n2)) + mset (r1 @ r2) = mset (map ev_RawJSON (ev # evs))"
    unfolding 1(3) 2(3) by simp
  ultimately show ?case by blast
qed

definition group_call :: "string \<times> remoteGroup \<Rightarrow> string \<times> bytes \<times> bool" where
  "group_call pg = (fst pg, join_with LF (rg_raws (snd pg)), True)"

definition sent_ok :: "'e router_iface \<Rightarrow> string \<times> remoteGroup \<Rightarrow> bool" where
  "sent_ok R pg \<longleftrightarrow> ri_Forward R (fst pg) (join_with LF (rg_raws (snd pg))) True = None"

lemma forward_group_adds:
  assumes "map ev_RawJSON (rg_events (snd pg)) = rg_raws (snd pg)"
  shows "\<exists>new rej. adds b (forward_group drain R pg b) new rej
             (if sent_ok R pg then rg_raws (snd pg) else []) [group_call pg] \<and>
           set new \<subseteq> set (rg_events (snd pg)) \<and>
           mset (map ev_RawJSON new) + mset rej + mset (if sent_ok R pg then rg_raws (snd pg) else [])
             = mset (rg_raws (snd pg))"
proof -
  let ?raws = "rg_raws (snd pg)" and ?fwd = "ri_Forward R (fst pg) (join_with LF (rg_raws (snd pg))) True"
  let ?b1 = "b\<lparr>b_ingest := forward_log (fst pg) (join_with LF ?raws) True (b_ingest b)\<rparr>"
  have b1: "adds b ?b1 [] [] [] [group_call pg]" by (simp add: adds_def group_call_def)
  consider (sent) "?fwd = None"
    | (refused) err code where "?fwd = Some err" "peerStatus R err = Some code"
    | (failed) err where "?fwd = Some err" "peerStatus R err = None"
    by (cases ?fwd) auto
  then show ?thesis
  proof cases
    case sent
    then have "adds b (forward_group drain R pg b) [] [] ?raws [group_call pg]"
      by (simp add: forward_group_def Let_def adds_def group_call_def)
    with sent show ?thesis by (intro exI [of _ "[]"]) (simp add: sent_ok_def)
  next
    case refused
    then have "adds b (forward_group drain R pg b) [] ?raws [] [group_call pg]"
      by (simp add: forward_group_def Let_def adds_def reject_def group_call_def)
    with refused show ?thesis by (intro exI [of _ "[]"] exI [of _ ?raws]) (simp add: sent_ok_def)
  next
    case failed
    obtain new rej where f: "adds ?b1 (fold (batch_enqueue drain) (rg_events (snd pg)) ?b1) new rej [] []"
      "set new \<subseteq> set (rg_events (snd pg))"
      "mset (map ev_RawJSON new) + mset rej = mset (map ev_RawJSON (rg_events (snd pg)))"
      using fold_enqueue_adds by blast
    have "forward_group drain R pg b = fold (batch_enqueue drain) (rg_events (snd pg)) ?b1"
      using failed by (simp add: forward_group_def Let_def)
    with adds_trans [OF b1 f(1)] have "adds b (forward_group drain R pg b) new rej [] [group_call pg]" by simp
    with failed f(2,3) show ?thesis
      by (intro exI [of _ new] exI [of _ rej]) (simp add: sent_ok_def assms del: mset_map)
  qed
qed

lemma forward_groups_adds:
  assumes "\<forall>pg \<in> set gs. map ev_RawJSON (rg_events (snd pg)) = rg_raws (snd pg)"
  shows "\<exists>new rej. adds b (fold (forward_group drain R) gs b) new rej
             (staged (filter (sent_ok R) gs)) (map group_call gs) \<and>
           set new \<subseteq> (\<Union>pg \<in> set gs. set (rg_events (snd pg))) \<and>
           mset (map ev_RawJSON new) + mset rej + mset (staged (filter (sent_ok R) gs)) = mset (staged gs)"
  using assms
proof (induction gs arbitrary: b)
  case Nil
  show ?case by (rule exI [of _ "[]"], rule exI [of _ "[]"]) (simp add: adds_refl staged_def)
next
  case (Cons pg gs)
  let ?s = "if sent_ok R pg then rg_raws (snd pg) else []"
  obtain n1 r1 where 1: "adds b (forward_group drain R pg b) n1 r1 ?s [group_call pg]"
    "set n1 \<subseteq> set (rg_events (snd pg))"
    "mset (map ev_RawJSON n1) + mset r1 + mset ?s = mset (rg_raws (snd pg))"
    using forward_group_adds Cons.prems by (metis list.set_intros(1))
  obtain n2 r2 where 2: "adds (forward_group drain R pg b) (fold (forward_group drain R) gs (forward_group drain R pg b))
        n2 r2 (staged (filter (sent_ok R) gs)) (map group_call gs)"
    "set n2 \<subseteq> (\<Union>pg \<in> set gs. set (rg_events (snd pg)))"
    "mset (map ev_RawJSON n2) + mset r2 + mset (staged (filter (sent_ok R) gs)) = mset (staged gs)"
    using Cons.IH Cons.prems by (metis list.set_intros(2))
  have s: "staged (filter (sent_ok R) (pg # gs)) = ?s @ staged (filter (sent_ok R) gs)"
    by (simp add: staged_def)
  have "adds b (fold (forward_group drain R) (pg # gs) b) (n1 @ n2) (r1 @ r2)
      (staged (filter (sent_ok R) (pg # gs))) (map group_call (pg # gs))"
    using adds_trans [OF 1(1) 2(1)] unfolding s by simp
  moreover have "set (n1 @ n2) \<subseteq> (\<Union>pg \<in> set (pg # gs). set (rg_events (snd pg)))" using 1(2) 2(2) by auto
  moreover have "mset (map ev_RawJSON (n1 @ n2)) + mset (r1 @ r2) + mset (staged (filter (sent_ok R) (pg # gs)))
      = (mset (map ev_RawJSON n1) + mset r1 + mset ?s)
        + (mset (map ev_RawJSON n2) + mset r2 + mset (staged (filter (sent_ok R) gs)))"
    unfolding s by simp
  then have "mset (map ev_RawJSON (n1 @ n2)) + mset (r1 @ r2) + mset (staged (filter (sent_ok R) (pg # gs)))
      = mset (staged (pg # gs))"
    unfolding 1(3) 2(3) by (simp add: staged_def)
  ultimately show ?case by blast
qed

text \<open>The whole request: every line that is not blank ends up in exactly one of three places.\<close>

lemma handleBatch_conserves:
  assumes ct: "contentTypeOK r" and mo: "\<And>m. mset (map_order m) = mset m"
  shows "\<exists>counts status st' new rej sent gs.
     handleBatch env drain map_order sv r st = ((status, BatchCounts counts), st') \<and>
     delivered st' = delivered st @ new \<and>
     mset (filter (\<lambda>l. l \<noteq> []) (case MaxBytesReader (int maxBatchBytes) r of (body, e) \<Rightarrow> read_lines body e))
       = mset (map ev_RawJSON new) + mset rej + mset sent \<and>
     br_Accepted counts = int (length new) \<and> br_Rejected counts = int (length rej) \<and>
     br_Forwarded counts = int (length sent) \<and>
     ig_forwards st' = ig_forwards st @ map group_call gs \<and>
     distinct (map fst gs) \<and> (\<forall>pg \<in> set gs. group_ok env sv pg) \<and>
     (gs \<noteq> [] \<longrightarrow> sv_router sv \<noteq> None \<and> hr_forwarded r = '''') \<and>
     (\<forall>ev \<in> set new. \<exists>n. parseEvent env (sv_routingField sv) n (ev_RawJSON ev) = Inr ev) \<and>
     (\<forall>R. sv_router sv = Some R \<longrightarrow> sent = staged (filter (sent_ok R) gs))"
proof -
  obtain body e where m: "MaxBytesReader (int maxBatchBytes) r = (body, e)" by fastforce
  let ?fwd = "hr_forwarded r \<noteq> ''''" and ?lines = "read_lines body e"
  let ?b = "fold (batchLine env drain sv ?fwd) ?lines (new_batch st)"
  obtain n1 r1 where inv0: "batch_inv env sv ?fwd st ?lines ?b n1 r1"
    using batch_fold_inv [OF batch_inv_new, of ?lines] read_lines_no_LF by fastforce
  define b where "b = ?b"
  from inv0 have inv: "delivered (b_ingest b) = delivered st @ n1"
    "mset (filter (\<lambda>l. l \<noteq> []) ?lines) = mset (map ev_RawJSON n1) + mset (staged (b_remote b)) + mset r1"
    "br_Accepted (b_resp b) = int (length n1)" "br_Rejected (b_resp b) = int (length r1)"
    "br_Forwarded (b_resp b) = 0" "ig_forwards (b_ingest b) = ig_forwards st"
    "distinct (map fst (b_remote b))" "\<forall>pg \<in> set (b_remote b). group_ok env sv pg"
    "b_remote b \<noteq> [] \<longrightarrow> sv_router sv \<noteq> None \<and> \<not> ?fwd"
    "\<forall>ev \<in> set n1. \<exists>n. parseEvent env (sv_routingField sv) n (ev_RawJSON ev) = Inr ev"
    unfolding batch_inv_def b_def [symmetric] by blast+
  define gs where "gs = (case sv_router sv of None \<Rightarrow> [] | Some R \<Rightarrow> map_order (b_remote b))"
  have gs: "mset gs = mset (b_remote b)"
    using inv(9) mo by (cases "sv_router sv") (auto simp: gs_def)
  then have set_gs: "set gs = set (b_remote b)" by (metis set_mset_mset)
  have dist: "distinct (map fst gs)"
  proof -
    have "mset (map fst gs) = mset (map fst (b_remote b))" using gs by simp
    then have "distinct (map fst gs) = distinct (map fst (b_remote b))" by (rule mset_eq_imp_distinct_iff)
    with inv(7) show ?thesis by simp
  qed
  have ok: "\<forall>pg \<in> set gs. group_ok env sv pg" using inv(8) set_gs by simp
  have stg: "mset (staged gs) = mset (staged (b_remote b))"
  proof -
    have "mset (staged l) = (\<Sum>pg \<in># mset l. mset (rg_raws (snd pg)))" for l
      by (induction l) (simp_all add: staged_def)
    then show ?thesis by (simp add: gs)
  qed
  define b' where "b' = (case sv_router sv of None \<Rightarrow> b | Some R \<Rightarrow> fold (forward_group drain R) (map_order (b_remote b)) b)"
  have "\<exists>n2 r2 sent. adds b b' n2 r2 sent (map group_call gs) \<and>
          (\<forall>ev \<in> set n2. \<exists>n. parseEvent env (sv_routingField sv) n (ev_RawJSON ev) = Inr ev) \<and>
          mset (map ev_RawJSON n2) + mset r2 + mset sent = mset (staged gs) \<and>
          (\<forall>R. sv_router sv = Some R \<longrightarrow> sent = staged (filter (sent_ok R) gs))"
  proof (cases "sv_router sv")
    case None
    show ?thesis
      by (rule exI [of _ "[]"], rule exI [of _ "[]"], rule exI [of _ "[]"])
         (simp add: b'_def gs_def None adds_refl staged_def)
  next
    case (Some R)
    have g: "gs = map_order (b_remote b)" by (simp add: gs_def Some)
    have "\<forall>pg \<in> set gs. map ev_RawJSON (rg_events (snd pg)) = rg_raws (snd pg)"
      using ok by (simp add: group_ok_def)
    from forward_groups_adds [OF this, of b drain R] obtain n2 r2 where f:
      "adds b b' n2 r2 (staged (filter (sent_ok R) gs)) (map group_call gs)"
      "set n2 \<subseteq> (\<Union>pg \<in> set gs. set (rg_events (snd pg)))"
      "mset (map ev_RawJSON n2) + mset r2 + mset (staged (filter (sent_ok R) gs)) = mset (staged gs)"
      by (auto simp: b'_def Some g)
    moreover have "\<forall>ev \<in> set n2. \<exists>n. parseEvent env (sv_routingField sv) n (ev_RawJSON ev) = Inr ev"
      using f(2) ok by (fastforce simp: group_ok_def)
    ultimately show ?thesis using Some by auto
  qed
  then obtain n2 r2 sent where p2: "adds b b' n2 r2 sent (map group_call gs)"
    "\<forall>ev \<in> set n2. \<exists>n. parseEvent env (sv_routingField sv) n (ev_RawJSON ev) = Inr ev"
    "mset (map ev_RawJSON n2) + mset r2 + mset sent = mset (staged gs)"
    "\<forall>R. sv_router sv = Some R \<longrightarrow> sent = staged (filter (sent_ok R) gs)" by blast
  have res: "handleBatch env drain map_order sv r st =
      ((if end_status e \<noteq> 0 then end_status e else if b_overloaded b' then 429 else 202,
        BatchCounts (b_resp b')), b_ingest b')"
    unfolding handleBatch_def m batch_read_fold prod.case Let_def b_def [symmetric] b'_def [symmetric]
    using ct by simp
  have cons: "mset (filter (\<lambda>l. l \<noteq> []) ?lines) = mset (map ev_RawJSON (n1 @ n2)) + mset (r1 @ r2) + mset sent"
  proof -
    have "mset (filter (\<lambda>l. l \<noteq> []) ?lines) = mset (map ev_RawJSON n1) + mset (staged gs) + mset r1"
      using inv(2) stg by simp
    then show ?thesis unfolding p2(3) [symmetric] by simp
  qed
  show ?thesis
    by (rule exI [of _ "b_resp b'"], rule exI, rule exI [of _ "b_ingest b'"], rule exI [of _ "n1 @ n2"],
        rule exI [of _ "r1 @ r2"], rule exI [of _ sent], rule exI [of _ gs], intro conjI, rule res)
       (use inv p2 cons dist ok set_gs in \<open>auto simp: adds_def m\<close>)
qed

text \<open>A forwarded body splits back into the staged lines.\<close>

lemma group_body_split:
  assumes "group_ok env sv pg"
  shows "split_on LF (join_with LF (rg_raws (snd pg))) = rg_raws (snd pg)"
proof (rule split_join)
  show "rg_raws (snd pg) \<noteq> []" using assms by (simp add: group_ok_def)
  show "\<forall>xs \<in> set (rg_raws (snd pg)). LF \<notin> set xs"
  proof
    fix xs
    assume "xs \<in> set (rg_raws (snd pg))"
    moreover have "rg_raws (snd pg) = map ev_RawJSON (rg_events (snd pg))"
      using assms by (simp add: group_ok_def)
    ultimately obtain ev where "ev \<in> set (rg_events (snd pg))" "xs = ev_RawJSON ev" by auto
    with assms show "LF \<notin> set xs" by (simp add: group_ok_def)
  qed
qed

section \<open>Single events\<close>

lemma accept_local_result:
  assumes "accept_local drain ev st = (resp, st')"
  shows "resp = (202, NoBody) \<and> delivered st' = delivered st @ [ev] \<or>
         resp = (429, ServerBusy) \<and> delivered st' = delivered st"
    and "ig_forwards st' = ig_forwards st"
  using assms enqueue_delivered
  by (auto simp: accept_local_def split: prod.splits bool.splits)

text \<open>The four outcomes of a request that carries a valid event.\<close>

lemma handleEvent_valid:
  assumes "contentTypeOK r" and "MaxBytesReader (sv_maxBytes sv) r = (raw, EOF)"
    and "parseEvent env (sv_routingField sv) (ig_parses st) raw = Inr ev"
  shows "handleEvent env drain sv r st =
     (let st1 = st\<lparr>ig_parses := Suc (ig_parses st)\<rparr> in
      case route sv (hr_forwarded r \<noteq> '''') ev of
        None \<Rightarrow> accept_local drain ev st1
      | Some (R, peer) \<Rightarrow>
          (let st2 = forward_log peer raw False st1 in
           case ri_Forward R peer raw False of
             None \<Rightarrow> ((202, NoBody), st2)
           | Some err \<Rightarrow>
               (case peerStatus R err of
                  Some code \<Rightarrow> ((if code = 429 then 429 else 502, PeerRejected code), st2)
                | None \<Rightarrow> accept_local drain ev st2)))"
  using assms by (simp add: handleEvent_def Let_def)

text \<open>
  The delivery of a request: either its event joins the queue, or one forward of its bytes
  to the owner succeeded, or nothing was accepted; the status tells which.
\<close>

lemma handleEvent_cases:
  assumes "handleEvent env drain sv r st = ((status, body), st')"
  obtains
    (queued) ev where "status = 202" "delivered st' = delivered st @ [ev]"
      "parseEvent env (sv_routingField sv) (ig_parses st) (hr_body r) = Inr ev"
  | (forwarded) ev R peer where "status = 202" "delivered st' = delivered st"
      "parseEvent env (sv_routingField sv) (ig_parses st) (hr_body r) = Inr ev"
      "ig_forwards st' = ig_forwards st @ [(peer, hr_body r, False)]"
      "sv_router sv = Some R" "ri_Owner R (ev_EntityID ev) = (peer, False)"
      "ri_Forward R peer (hr_body r) False = None" "hr_forwarded r = ''''"
  | (refused) "status \<in> {400, 413, 415, 429, 502}" "delivered st' = delivered st"
proof (cases "contentTypeOK r \<and> snd (MaxBytesReader (sv_maxBytes sv) r) = EOF")
  case False
  then have "status \<in> {400, 413, 415, 429, 502} \<and> delivered st' = delivered st"
    using assms by (auto simp: handleEvent_def split: if_splits prod.splits read_end.splits)
  then show ?thesis using refused by blast
next
  case True
  then have m: "MaxBytesReader (sv_maxBytes sv) r = (hr_body r, EOF)"
    by (auto simp: MaxBytesReader_def split: if_splits)
  show ?thesis
  proof (cases "parseEvent env (sv_routingField sv) (ig_parses st) (hr_body r)")
    case (Inl e)
    then show ?thesis using refused assms True m by (auto simp: handleEvent_def Let_def)
  next
    case (Inr ev)
    note h = handleEvent_valid [OF conjunct1 [OF True] m Inr, of drain, unfolded assms Let_def]
    let ?st1 = "st\<lparr>ig_parses := Suc (ig_parses st)\<rparr>"
    have loc: thesis if "accept_local drain ev st2 = ((status, body), st')" "delivered st2 = delivered st" for st2
      using accept_local_result(1) [OF that(1)] that(2) queued [OF _ _ Inr] refused by auto
    show ?thesis
    proof (cases "route sv (hr_forwarded r \<noteq> '''') ev")
      case None
      with h have "accept_local drain ev ?st1 = ((status, body), st')" by simp
      then show ?thesis by (rule loc) simp
    next
      case (Some Rp)
      obtain R peer where Rp: "Rp = (R, peer)" by (cases Rp)
      note rt = route_Some [OF Some [unfolded Rp]]
      let ?st2 = "forward_log peer (hr_body r) False ?st1"
      consider (ok) "ri_Forward R peer (hr_body r) False = None"
        | (no) err code where "ri_Forward R peer (hr_body r) False = Some err" "peerStatus R err = Some code"
        | (dead) err where "ri_Forward R peer (hr_body r) False = Some err" "peerStatus R err = None"
        by (cases "ri_Forward R peer (hr_body r) False") auto
      then show ?thesis
      proof cases
        case ok
        with h Some Rp have e: "status = 202" "st' = ?st2" by simp_all
        show ?thesis by (rule forwarded [OF e(1) _ Inr]) (use rt ok e(2) in auto)
      next
        case no
        with h Some Rp have e: "status = (if code = 429 then 429 else 502)" "st' = ?st2" by simp_all
        show ?thesis by (rule refused) (use e in auto)
      next
        case dead
        with h Some Rp have "accept_local drain ev ?st2 = ((status, body), st')" by simp
        then show ?thesis by (rule loc) simp
      qed
    qed
  qed
qed

text \<open>One hop: a request that carries the header is never forwarded again.\<close>

lemma handleEvent_one_hop:
  assumes "hr_forwarded r \<noteq> ''''"
  shows "ig_forwards (snd (handleEvent env drain sv r st)) = ig_forwards st"
proof -
  have "route sv True ev = None" for ev by (simp add: route_def split: option.splits)
  then show ?thesis
    using assms accept_local_result(2) [OF surjective_pairing]
    by (auto simp: handleEvent_def Let_def split: prod.splits read_end.splits sum.splits)
qed

lemma peer_refusal_respected:
  assumes "contentTypeOK r" and "MaxBytesReader (sv_maxBytes sv) r = (raw, EOF)"
    and "parseEvent env (sv_routingField sv) (ig_parses st) raw = Inr ev"
    and "route sv (hr_forwarded r \<noteq> '''') ev = Some (R, peer)"
    and "ri_Forward R peer raw False = Some err" and "ri_Status R err = Some code"
  shows "fst (handleEvent env drain sv r st) = (if code = 429 then 429 else 502, PeerRejected code)"
    and "delivered (snd (handleEvent env drain sv r st)) = delivered st"
  using assms by (simp_all add: handleEvent_valid Let_def peerStatus_def)

section \<open>The server on the cluster router\<close>

text \<open>
  The router of the same program never shows a status to the server: its errors have no
  \<^verbatim>\<open>StatusCode\<close> method. So a refusal by the owner is handled as a transport failure.
\<close>

lemma cluster_no_status: "ri_Status (cluster_iface r build do_http) err = None"
  by (cases err) (simp_all add: cluster_iface_def)

lemma cluster_refusal_local:
  assumes "contentTypeOK rq" and "MaxBytesReader (sv_maxBytes sv) rq = (raw, EOF)"
    and "parseEvent env (sv_routingField sv) (ig_parses st) raw = Inr ev"
    and "route sv (hr_forwarded rq \<noteq> '''') ev = Some (cluster_iface r build do_http, peer)"
    and "build (forward_url peer False) = None"
    and "do_http (forward_request peer raw False) = Inr code" and "code \<ge> 300"
  shows "handleEvent env drain sv rq st =
     accept_local drain ev (forward_log peer raw False (st\<lparr>ig_parses := Suc (ig_parses st)\<rparr>))"
  using assms
  by (simp add: handleEvent_valid Let_def peerStatus_def cluster_iface_def Forward_def)

lemma cluster_batch_refusal_local:
  assumes "Forward build do_http (fst pg) (join_with LF (rg_raws (snd pg))) True = Some err"
  shows "forward_group drain (cluster_iface r build do_http) pg b =
     fold (batch_enqueue drain) (rg_events (snd pg))
       (b\<lparr>b_ingest := forward_log (fst pg) (join_with LF (rg_raws (snd pg))) True (b_ingest b)\<rparr>)"
  using assms by (cases err) (simp_all add: forward_group_def Let_def peerStatus_def cluster_iface_def)

section \<open>Properties\<close>

text \<open>A decoder for samples: the body is the event's id, and its entity.\<close>

definition sample_parse :: parse_env where
  "sample_parse = \<lparr>pe_unmarshal = (\<lambda>raw. if raw = [] then Inl ''empty''
       else Inr [(''event_type'', AString ''post''), (''timestamp'', AString ''t''),
                 (''event_id'', AString raw), (''entity_id'', AString raw)]),
     pe_rfc3339 = (\<lambda>s. Inr 0), pe_uuid = (\<lambda>n. Inr ''uuid''), pe_now = (\<lambda>n. 0)\<rparr>"

definition sample_ingest :: "nat \<Rightarrow> ingest" where
  "sample_ingest cap = \<lparr>ig_queue = [], ig_cap = cap, ig_taken = [], ig_forwards = [], ig_parses = 0, ig_sends = 0\<rparr>"

definition sample_request :: "bytes \<Rightarrow> http_request" where
  "sample_request body = \<lparr>hr_contentType = ''application/json'', hr_forwarded = '''', hr_body = body, hr_broken = False\<rparr>"

definition parsed :: "string \<Rightarrow> event" where
  "parsed s = \<lparr>ev_EventID = s, ev_EventType = ''post'', ev_EntityID = s, ev_Timestamp = 0,
     ev_Payload = [(''event_type'', AString ''post''), (''timestamp'', AString ''t''),
                   (''event_id'', AString s), (''entity_id'', AString s)],
     ev_RawJSON = s, ev_ReceivedAt = 0\<rparr>"

lemma sample_parsed:
  "s \<noteq> [] \<Longrightarrow> length s \<le> 256 \<Longrightarrow> parseEvent sample_parse ''entity_id'' n s = Inr (parsed s)"
  by (simp add: parseEvent_def sample_parse_def string_field_def parsed_def)




definition lf_lines :: bytes where "lf_lines = ''e1'' @ [LF] @ [LF] @ ''e2''"


text \<open>
  C16: what a client may conclude from the status of a single event: 202 means that the event
  was enqueued or that the owner of its entity accepted exactly these bytes; any other status
  means that it was not enqueued. A forwarded request is never forwarded again.
\<close>

theorem event_status_truthful:
  assumes "handleEvent env drain sv r st = ((status, body), st')"
  shows "(status = 202 \<and> (\<exists>ev. parseEvent env (sv_routingField sv) (ig_parses st) (hr_body r) = Inr ev \<and>
           (delivered st' = delivered st @ [ev] \<or>
            delivered st' = delivered st \<and> hr_forwarded r = '''' \<and>
            (\<exists>R peer. sv_router sv = Some R \<and> ri_Owner R (ev_EntityID ev) = (peer, False) \<and>
               ri_Forward R peer (hr_body r) False = None \<and>
               ig_forwards st' = ig_forwards st @ [(peer, hr_body r, False)]))) \<or>
         status \<in> {400, 413, 415, 429, 502} \<and> delivered st' = delivered st) \<and>
    (hr_forwarded r = '''' \<or> ig_forwards st' = ig_forwards st)"
proof -
  have hop: "hr_forwarded r = '''' \<or> ig_forwards st' = ig_forwards st"
    using handleEvent_one_hop [of r env drain sv st] assms by auto
  from assms show ?thesis
  proof (cases rule: handleEvent_cases)
    case (queued ev)
    with hop show ?thesis by blast
  next
    case (forwarded ev R peer)
    with hop show ?thesis by blast
  next
    case refused
    with hop show ?thesis by blast
  qed
qed

lemma sample_accepts:
  "handleEvent sample_parse (\<lambda>_. 0) (NewServer 100 :: unit server) (sample_request ''e1'') (sample_ingest 1)
     = ((202, NoBody), (sample_ingest 1)\<lparr>ig_queue := [parsed ''e1''], ig_parses := 1, ig_sends := 1\<rparr>)"
  by (simp add: handleEvent_def contentTypeOK_def sample_request_def has_prefix_def MaxBytesReader_def
      NewServer_def sample_ingest_def sample_parsed route_def accept_local_def enqueue_def)

theorem event_status_truthful_witness:
  "\<exists>ev. parseEvent sample_parse ''entity_id'' 0 ''e1'' = Inr ev \<and>
     delivered ((sample_ingest 1)\<lparr>ig_queue := [parsed ''e1''], ig_parses := 1, ig_sends := 1\<rparr>) = [ev]"
  using event_status_truthful [OF sample_accepts]
  by (auto simp: NewServer_def sample_request_def sample_ingest_def delivered_def)

text \<open>
  C29: a refusal by the owning peer is not passed on to the client: since the router's status
  error carries no \<^verbatim>\<open>StatusCode\<close> method, an answer such as 429 from the owner is treated like an
  unreachable peer, and the event is processed on the pod that does not own its entity.
\<close>

theorem owner_refusal_processed_locally:
  assumes "contentTypeOK rq" and "MaxBytesReader (sv_maxBytes sv) rq = (raw, EOF)"
    and "parseEvent env (sv_routingField sv) (ig_parses st) raw = Inr ev"
    and "route sv (hr_forwarded rq \<noteq> '''') ev = Some (cluster_iface r build do_http, peer)"
    and "build (forward_url peer False) = None"
    and "do_http (forward_request peer raw False) = Inr code" and "code \<ge> 300"
  shows "handleEvent env drain sv rq st =
       accept_local drain ev (forward_log peer raw False (st\<lparr>ig_parses := Suc (ig_parses st)\<rparr>)) \<and>
    peer \<noteq> r_self r"
  using cluster_refusal_local [OF assms] cluster.route_not_self [of sv r build do_http] assms(4)
    route_Some [OF assms(4)] by simp

definition refusing_server :: "fwd_error server" where
  "refusing_server = SetRouter (cluster_iface two_pods (\<lambda>_. None) (\<lambda>_. Inr 429)) (NewServer 100)"

theorem owner_refusal_processed_locally_witness:
  "fst (handleEvent sample_parse (\<lambda>_. 0) refusing_server (sample_request ''u:x'') (sample_ingest 1)) = (202, NoBody)"
proof -
  have own: "Owner two_pods ''u:x'' = (''b'', False)" by code_simp
  have "handleEvent sample_parse (\<lambda>_. 0) refusing_server (sample_request ''u:x'') (sample_ingest 1) =
      accept_local (\<lambda>_. 0) (parsed ''u:x'') (forward_log ''b'' ''u:x'' False
        ((sample_ingest 1)\<lparr>ig_parses := Suc (ig_parses (sample_ingest 1))\<rparr>)) \<and> ''b'' \<noteq> r_self two_pods"
    by (rule owner_refusal_processed_locally [where build = "\<lambda>_. None" and do_http = "\<lambda>_. Inr 429" and code = 429])
       (simp_all add: refusing_server_def SetRouter_def NewServer_def sample_request_def contentTypeOK_def
          has_prefix_def MaxBytesReader_def sample_parsed route_def, simp add: cluster_iface_def parsed_def own)
  then show ?thesis
    by (simp add: accept_local_def enqueue_def sample_ingest_def forward_log_def)
qed

end
