(* ===== verification/Reloader.thy ===== *)
theory Reloader
  imports Compiler
begin

text \<open>
  \<^verbatim>\<open>rules/reloader.go\<close>: the content hash of the rules directory, the reload that publishes
  a snapshot only when the content changed, and the watch loop as a step function on its
  select events. The directory is read twice by a reload (once to hash, once to compile), so
  \<open>doReload\<close> takes the two views. The lemmas show that the hashed stream determines the
  files, that a failed or unnecessary reload leaves the published snapshot alone, that a
  snapshot is always a well-formed one, and, when the two views agree, that the published
  rules are those of the directory.
\<close>

section \<open>Hashing the directory\<close>

text \<open>One file as it enters the hash: \<^verbatim>\<open>name NUL length NUL data\<close>.\<close>

definition nul :: char where "nul = char_of (0 :: nat)"

definition hash_entry :: "string \<times> bytes \<Rightarrow> bytes" where
  "hash_entry f = fst f @ [nul] @ dec_nat (length (snd f)) @ [nul] @ snd f"

definition hash_stream :: "(string \<times> bytes) list \<Rightarrow> bytes" where
  "hash_stream fs = concat (map hash_entry fs)"

text \<open>The reads of \<open>hashDir\<close> in name order; the first failing read ends it.\<close>

fun read_all :: "(string \<times> (string + bytes)) list \<Rightarrow> string + (string \<times> bytes) list" where
  "read_all [] = Inr []"
| "read_all ((name, Inl e) # fs) = Inl e"
| "read_all ((name, Inr data) # fs) =
     (case read_all fs of Inl e \<Rightarrow> Inl e | Inr rs \<Rightarrow> Inr ((name, data) # rs))"

definition hashDir :: "(bytes \<Rightarrow> bytes) \<Rightarrow> dir \<Rightarrow> string + string" where
  "hashDir sha d =
     (case d_glob d of
        Some e \<Rightarrow> Inl e
      | None \<Rightarrow>
          (case read_all (sort_key fst (d_files d)) of
             Inl e \<Rightarrow> Inl e
           | Inr fs \<Rightarrow> Inr (hex_encode (sha (hash_stream fs)))))"

section \<open>The reloader\<close>

text \<open>
  \<open>rl_reloadCh\<close> tells whether the one-slot signal channel holds a token. The snapshot pointer
  is shared with the workers, which only load it.
\<close>

record reloader =
  rl_compiler :: compiler
  rl_snapshot :: "snapshot option"
  rl_reloadCh :: bool
  rl_lastHash :: string
  rl_Ready :: bool

text \<open>What a reload takes from the process: the interpreter, the hash, the sort.\<close>

record reload_env =
  re_init :: front_end
  re_sha :: "bytes \<Rightarrow> bytes"
  re_sort :: "rule list \<Rightarrow> rule list"

text \<open>One reading of the environment: the directory as hashed and as compiled, UUID and clock.\<close>

record reload_obs =
  ob_hash :: dir
  ob_comp :: dir
  ob_uuid :: "string + string"
  ob_now :: gotime

definition compile_obs ::
  "reload_env \<Rightarrow> reload_obs \<Rightarrow> compiler \<Rightarrow> (compile_error + snapshot) \<times> compiler" where
  "compile_obs e ob c =
     CompileDir (re_init e) (re_sha e) (re_sort e) (ob_uuid ob) (ob_now ob) (ob_comp ob) c"

definition NewReloader ::
  "reload_env \<Rightarrow> reload_obs \<Rightarrow> compiler \<Rightarrow> compile_error + reloader" where
  "NewReloader e ob c =
     (let h = hashDir (re_sha e) (ob_hash ob) in
      case compile_obs e ob c of
        (Inl err, c') \<Rightarrow> Inl err
      | (Inr snap, c') \<Rightarrow>
          Inr \<lparr>rl_compiler = c', rl_snapshot = Some snap, rl_reloadCh = False,
               rl_lastHash = (case h of Inl _ \<Rightarrow> '''' | Inr x \<Rightarrow> x), rl_Ready = True\<rparr>)"

definition doReload :: "reload_env \<Rightarrow> reload_obs \<Rightarrow> reloader \<Rightarrow> reloader" where
  "doReload e ob r =
     (let h = hashDir (re_sha e) (ob_hash ob) in
      if h = Inr (rl_lastHash r) then r
      else
        (case compile_obs e ob (rl_compiler r) of
           (Inl err, c') \<Rightarrow> r\<lparr>rl_compiler := c'\<rparr>
         | (Inr snap, c') \<Rightarrow>
             r\<lparr>rl_compiler := c',
               rl_lastHash := (case h of Inl _ \<Rightarrow> rl_lastHash r | Inr x \<Rightarrow> x),
               rl_snapshot := Some snap, rl_Ready := True\<rparr>))"

text \<open>\<^verbatim>\<open>Reload()\<close>: a non-blocking send on the one-slot channel.\<close>

definition Reload :: "reloader \<Rightarrow> reloader" where
  "Reload r = r\<lparr>rl_reloadCh := True\<rparr>"

section \<open>The watch loop\<close>

record run_state =
  rn_reloader :: reloader
  rn_watcher :: bool
  rn_debounce :: bool
  rn_done :: bool

text \<open>The select cases of \<^verbatim>\<open>Run\<close>; \<open>FsEvent ok\<close> and \<open>FsError ok\<close> carry the receive's second result.\<close>

datatype run_event =
    CtxDone
  | ReloadSignal reload_obs
  | PollTick reload_obs
  | DebounceFires reload_obs
  | FsEvent bool
  | FsError bool

definition run_init :: "bool \<Rightarrow> reloader \<Rightarrow> run_state" where
  "run_init watching r = \<lparr>rn_reloader = r, rn_watcher = watching, rn_debounce = False, rn_done = False\<rparr>"

text \<open>One iteration; \<open>None\<close> when the chosen case is not ready in this state.\<close>

fun run_step :: "reload_env \<Rightarrow> run_state \<Rightarrow> run_event \<Rightarrow> run_state option" where
  "run_step e s CtxDone = (if rn_done s then None else Some (s\<lparr>rn_done := True\<rparr>))"
| "run_step e s (ReloadSignal ob) =
     (if rn_done s \<or> \<not> rl_reloadCh (rn_reloader s) then None
      else Some (s\<lparr>rn_reloader := doReload e ob ((rn_reloader s)\<lparr>rl_reloadCh := False\<rparr>)\<rparr>))"
| "run_step e s (PollTick ob) =
     (if rn_done s then None else Some (s\<lparr>rn_reloader := doReload e ob (rn_reloader s)\<rparr>))"
| "run_step e s (DebounceFires ob) =
     (if rn_done s \<or> \<not> rn_debounce s then None
      else Some (s\<lparr>rn_debounce := False, rn_reloader := doReload e ob (rn_reloader s)\<rparr>))"
| "run_step e s (FsEvent ok) =
     (if rn_done s \<or> \<not> rn_watcher s then None
      else if \<not> ok then Some (s\<lparr>rn_watcher := False\<rparr>)
      else Some (s\<lparr>rn_debounce := True\<rparr>))"
| "run_step e s (FsError ok) =
     (if rn_done s \<or> \<not> rn_watcher s then None
      else if \<not> ok then Some (s\<lparr>rn_watcher := False\<rparr>)
      else Some s)"

text \<open>A run of the process: iterations of the loop, interleaved with calls of \<^verbatim>\<open>Reload()\<close>.\<close>

inductive reloader_run :: "reload_env \<Rightarrow> run_state \<Rightarrow> run_state \<Rightarrow> bool" for e where
  run_refl: "reloader_run e s s"
| run_loop: "reloader_run e s t \<Longrightarrow> run_step e t ev = Some u \<Longrightarrow> reloader_run e s u"
| run_signal: "reloader_run e s t \<Longrightarrow>
    reloader_run e s (t\<lparr>rn_reloader := Reload (rn_reloader t)\<rparr>)"

section \<open>The hashed stream determines the files\<close>

lemma append_nul_inj:
  "nul \<notin> set xs \<Longrightarrow> nul \<notin> set ys \<Longrightarrow> xs @ nul # u = ys @ nul # v \<Longrightarrow> xs = ys \<and> u = v"
proof (induction xs arbitrary: ys)
  case Nil
  then show ?case by (cases ys) auto
next
  case (Cons x xs)
  then show ?case by (cases ys) auto
qed

lemma nul_char: "nul = CHR 0x00"
  by (simp add: nul_def char_of_def)

lemma dec_nat_nul: "nul \<notin> set (dec_nat n)"
  using dec_nat_chars [of n] by (force simp: nul_def)

lemma hash_entry_inj:
  assumes "nul \<notin> set (fst f)" and "nul \<notin> set (fst g)"
    and "hash_entry f @ u = hash_entry g @ v"
  shows "f = g \<and> u = v"
proof -
  from assms(3) have "fst f @ nul # (dec_nat (length (snd f)) @ nul # (snd f @ u))
      = fst g @ nul # (dec_nat (length (snd g)) @ nul # (snd g @ v))"
    by (simp add: hash_entry_def)
  from append_nul_inj [OF assms(1,2) this]
  have n: "fst f = fst g" and "dec_nat (length (snd f)) @ nul # (snd f @ u)
      = dec_nat (length (snd g)) @ nul # (snd g @ v)" by auto
  from append_nul_inj [OF dec_nat_nul dec_nat_nul this(2)]
  have "length (snd f) = length (snd g)" and "snd f @ u = snd g @ v"
    by (auto dest: dec_nat_inj)
  with n show ?thesis by (auto simp: prod_eq_iff)
qed

lemma hash_stream_inj:
  assumes "\<forall>f \<in> set fs. nul \<notin> set (fst f)" and "\<forall>g \<in> set gs. nul \<notin> set (fst g)"
    and "hash_stream fs = hash_stream gs"
  shows "fs = gs"
  using assms
proof (induction fs arbitrary: gs)
  case Nil
  then show ?case by (cases gs) (auto simp: hash_stream_def hash_entry_def)
next
  case (Cons f fs)
  then obtain g gs' where g: "gs = g # gs'"
    by (cases gs) (auto simp: hash_stream_def hash_entry_def)
  with Cons.prems have "hash_entry f @ hash_stream fs = hash_entry g @ hash_stream gs'"
    by (simp add: hash_stream_def)
  then have eq: "f = g \<and> hash_stream fs = hash_stream gs'"
    by (rule hash_entry_inj [rotated 2]) (use Cons.prems g in simp_all)
  then have "fs = gs'"
    by (intro Cons.IH) (use Cons.prems g in simp_all)
  with eq g show ?case by simp
qed

lemma read_all_Inr: "read_all fs = Inr rs \<longleftrightarrow> fs = map (\<lambda>(n, d). (n, Inr d)) rs"
proof
  show "read_all fs = Inr rs \<Longrightarrow> fs = map (\<lambda>(n, d). (n, Inr d)) rs"
    by (induction fs arbitrary: rs rule: read_all.induct) (auto split: sum.splits)
  show "fs = map (\<lambda>(n, d). (n, Inr d)) rs \<Longrightarrow> read_all fs = Inr rs"
    by (induction rs arbitrary: fs) (auto split: sum.splits)
qed

text \<open>
  With a collision-free hash and file names without NUL, equal directory hashes mean equal
  directories, whatever order the files were listed in.
\<close>

definition names_ok :: "dir \<Rightarrow> bool" where
  "names_ok d \<longleftrightarrow> list_all (\<lambda>f. nul \<notin> set (fst f)) (d_files d)"

lemma hashDir_inj:
  assumes "inj sha" and "names_ok d" and "names_ok d'"
    and "hashDir sha d = Inr h" and "hashDir sha d' = Inr h"
  shows "mset (d_files d) = mset (d_files d')"
proof -
  have rd: "\<exists>fs. sort_key fst (d_files d) = map (\<lambda>(n, x). (n, Inr x)) fs \<and>
      h = hex_encode (sha (hash_stream fs)) \<and> (\<forall>f \<in> set fs. nul \<notin> set (fst f))"
    if "hashDir sha d = Inr h" "names_ok d" for d
  proof -
    from that(1) obtain fs where fs: "sort_key fst (d_files d) = map (\<lambda>(n, x). (n, Inr x)) fs"
      "h = hex_encode (sha (hash_stream fs))"
      by (auto simp: hashDir_def read_all_Inr split: option.splits sum.splits)
    have "\<forall>f \<in> set (sort_key fst (d_files d)). nul \<notin> set (fst f)"
      using that(2) by (simp add: names_ok_def list_all_iff)
    then have "\<forall>f \<in> set fs. nul \<notin> set (fst f)"
      unfolding fs(1) by force
    with fs show ?thesis by blast
  qed
  from rd [OF assms(4,2)] obtain fs where fs: "sort_key fst (d_files d) = map (\<lambda>(n, x). (n, Inr x)) fs"
    "h = hex_encode (sha (hash_stream fs))" "\<forall>f \<in> set fs. nul \<notin> set (fst f)" by blast
  from rd [OF assms(5,3)] obtain gs where gs: "sort_key fst (d_files d') = map (\<lambda>(n, x). (n, Inr x)) gs"
    "h = hex_encode (sha (hash_stream gs))" "\<forall>f \<in> set gs. nul \<notin> set (fst f)" by blast
  from fs(2) gs(2) assms(1) have "hash_stream fs = hash_stream gs"
    by (auto dest: hex_encode_inj simp: inj_eq)
  then have "fs = gs" using fs(3) gs(3) by (intro hash_stream_inj)
  with fs(1) gs(1) show ?thesis by (metis mset_sort)
qed

section \<open>What a reload does to the published snapshot\<close>

lemma doReload_same_hash:
  "hashDir (re_sha e) (ob_hash ob) = Inr (rl_lastHash r) \<Longrightarrow> doReload e ob r = r"
  by (simp add: doReload_def Let_def)

lemma doReload_failed:
  "fst (compile_obs e ob (rl_compiler r)) = Inl err \<Longrightarrow>
     \<exists>c. doReload e ob r = r\<lparr>rl_compiler := c\<rparr>"
proof -
  assume "fst (compile_obs e ob (rl_compiler r)) = Inl err"
  then obtain c' where "compile_obs e ob (rl_compiler r) = (Inl err, c')"
    by (cases "compile_obs e ob (rl_compiler r)") auto
  then have "doReload e ob r = r \<or> doReload e ob r = r\<lparr>rl_compiler := c'\<rparr>"
    by (simp add: doReload_def Let_def)
  then show ?thesis
  proof
    assume "doReload e ob r = r"
    then have "doReload e ob r = r\<lparr>rl_compiler := rl_compiler r\<rparr>" by simp
    then show ?thesis by blast
  qed blast
qed

text \<open>A well-formed snapshot: what the executor relies on.\<close>

definition snapshot_ok :: "snapshot \<Rightarrow> bool" where
  "snapshot_ok s \<longleftrightarrow>
     distinct (map rule_RuleID (snap_Rules s)) \<and> by_priority (snap_Rules s) \<and>
     list_all (\<lambda>r. list_all wf_pred (rule_Match r)) (snap_Rules s) \<and>
     (\<exists>s0. s = buildIndex s0)"

definition env_ok :: "reload_env \<Rightarrow> bool" where
  "env_ok e \<longleftrightarrow> priority_sort (re_sort e)"

text \<open>The reloader invariant: it is ready, its cache is sound, its snapshot well formed.\<close>

definition reloader_ok :: "reload_env \<Rightarrow> reloader \<Rightarrow> bool" where
  "reloader_ok e r \<longleftrightarrow>
     cache_ok (re_init e) (re_sha e) (rl_compiler r) \<and> rl_Ready r \<and>
     (\<exists>s. rl_snapshot r = Some s \<and> snapshot_ok s)"

lemma compile_obs_cache:
  "cache_ok (re_init e) (re_sha e) c \<Longrightarrow> compile_obs e ob c = (res, c') \<Longrightarrow>
     cache_ok (re_init e) (re_sha e) c'"
  unfolding compile_obs_def by (rule CompileDir_ok)

lemma compile_obs_snapshot:
  assumes "env_ok e" and "cache_ok (re_init e) (re_sha e) c"
    and run: "compile_obs e ob c = (Inr s, c')"
  shows "snapshot_ok s"
proof -
  have so: "priority_sort (re_sort e)" using assms(1) by (simp add: env_ok_def)
  from run have run': "CompileDir (re_init e) (re_sha e) (re_sort e) (ob_uuid ob) (ob_now ob)
      (ob_comp ob) c = (Inr s, c')" by (simp add: compile_obs_def)
  have "\<exists>s0. s = buildIndex s0" using run' by (rule CompileDir_Inr) blast
  with priority_sort.CompileDir_snapshot [OF so assms(2) run'] show ?thesis
    by (simp add: snapshot_ok_def list_all_iff)
qed

lemma NewReloader_ok:
  assumes "env_ok e" and "cache_ok (re_init e) (re_sha e) c" and "NewReloader e ob c = Inr r"
  shows "reloader_ok e r"
proof -
  from assms(3) obtain s c' where "compile_obs e ob c = (Inr s, c')"
    and r: "rl_compiler r = c'" "rl_snapshot r = Some s" "rl_Ready r"
    by (auto simp: NewReloader_def Let_def split: prod.splits sum.splits)
  with assms(1,2) show ?thesis
    by (simp add: reloader_ok_def compile_obs_cache compile_obs_snapshot)
qed

lemma NewReloader_hash:
  "NewReloader e ob c = Inr r \<Longrightarrow> hashDir (re_sha e) (ob_hash ob) = Inr h \<Longrightarrow> rl_lastHash r = h"
  by (auto simp: NewReloader_def Let_def split: prod.splits sum.splits)

lemma doReload_ok [inv_intros]:
  assumes "env_ok e" and ok: "reloader_ok e r"
  shows "reloader_ok e (doReload e ob r)"
proof (cases "compile_obs e ob (rl_compiler r)")
  case (Pair res c')
  have c: "cache_ok (re_init e) (re_sha e) (rl_compiler r)"
    using ok by (simp add: reloader_ok_def)
  with Pair have c': "cache_ok (re_init e) (re_sha e) c'" by (auto intro: compile_obs_cache)
  show ?thesis
  proof (cases res)
    case (Inl err)
    with Pair c' ok show ?thesis by (simp add: doReload_def Let_def reloader_ok_def)
  next
    case (Inr s)
    with Pair c assms(1) have "snapshot_ok s" by (auto intro: compile_obs_snapshot)
    with Inr Pair c' ok show ?thesis by (simp add: doReload_def Let_def reloader_ok_def)
  qed
qed

lemma reloader_ok_signal [inv_intros, simp]:
  "reloader_ok e (r\<lparr>rl_reloadCh := b\<rparr>) = reloader_ok e r"
  by (simp add: reloader_ok_def)

lemma run_step_ok:
  assumes "env_ok e" and "reloader_ok e (rn_reloader s)" and "run_step e s ev = Some t"
  shows "reloader_ok e (rn_reloader t)"
  using assms(3) doReload_ok [OF assms(1)] assms(2)
  by (cases ev) (auto split: if_splits)

lemma reloader_run_ok:
  assumes "env_ok e" and "reloader_run e s t" and "reloader_ok e (rn_reloader s)"
  shows "reloader_ok e (rn_reloader t)"
  using assms(2,3)
proof (induction rule: reloader_run.induct)
  case (run_loop s t ev u)
  then show ?case using assms(1) by (auto intro: run_step_ok)
qed (simp_all add: Reload_def)

section \<open>The published rules are those of the directory\<close>

text \<open>
  A snapshot reflects a directory when its rules, up to the addresses of their counters, are
  what compiling each file without any cache yields. The hypotheses on the environment: the
  hash has no collisions, and whether a source compiles, and to which globals, does not
  depend on the name of its file.
\<close>

definition reflects :: "reload_env \<Rightarrow> dir \<Rightarrow> snapshot \<Rightarrow> bool" where
  "reflects e d s \<longleftrightarrow>
     image_mset (Inr \<circ> strip) (mset (snap_Rules s)) =
     image_mset (compile_plain (re_init e)) (mset (d_files d))"

definition env_ideal :: "reload_env \<Rightarrow> bool" where
  "env_ideal e \<longleftrightarrow> env_ok e \<and> inj (re_sha e) \<and> (\<forall>f f' src. re_init e f src = re_init e f' src)"

lemma compile_obs_reflects:
  assumes e: "env_ideal e" and ok: "cache_ok (re_init e) (re_sha e) c"
    and run: "compile_obs e ob c = (Inr s, c')"
  shows "reflects e (ob_comp ob) s"
proof -
  from run have "CompileDir (re_init e) (re_sha e) (re_sort e) (ob_uuid ob) (ob_now ob)
      (ob_comp ob) c = (Inr s, c')" by (simp add: compile_obs_def)
  then obtain compiled c1 sid where
    f: "compile_files (re_init e) (re_sha e) (d_files (ob_comp ob)) c = (map Inr compiled, c1)"
    and s: "s = buildIndex \<lparr>snap_ID = sid, snap_Rules = re_sort e (map fst compiled),
           snap_LoadedAt = ob_now ob, snap_byType = None, snap_wildcard = []\<rparr>"
    by (rule CompileDir_Inr)
  have "map outcome (map Inr compiled) = map (compile_plain (re_init e)) (d_files (ob_comp ob))"
    using compile_files_transparent [OF ok, of "d_files (ob_comp ob)"] e f
    by (simp add: env_ideal_def)
  moreover have "map outcome (map Inr compiled) = map (Inr \<circ> strip) (map fst compiled)"
    by (simp add: outcome_def)
  ultimately have "mset (map (Inr \<circ> strip) (map fst compiled))
      = mset (map (compile_plain (re_init e)) (d_files (ob_comp ob)))" by metis
  then have "image_mset (Inr \<circ> strip) (mset (map fst compiled))
      = image_mset (compile_plain (re_init e)) (mset (d_files (ob_comp ob)))"
    by (simp only: mset_map)
  moreover have "mset (snap_Rules s) = mset (map fst compiled)"
    using e by (simp add: s env_ideal_def env_ok_def priority_sort.sort_mset)
  ultimately show ?thesis by (simp add: reflects_def)
qed

lemma read_all_readable:
  "\<forall>f \<in> set fs. \<exists>x. snd f = Inr x \<Longrightarrow> \<exists>rs. read_all fs = Inr rs"
  by (induction fs rule: read_all.induct) (auto split: sum.splits)

text \<open>A directory that compiles can be hashed.\<close>

lemma compile_obs_hashable:
  assumes "compile_obs e ob c = (Inr s, c')"
  shows "\<exists>h. hashDir sha (ob_comp ob) = Inr h"
proof -
  from assms have run: "CompileDir (re_init e) (re_sha e) (re_sort e) (ob_uuid ob) (ob_now ob)
      (ob_comp ob) c = (Inr s, c')" by (simp add: compile_obs_def)
  then have glob: "d_glob (ob_comp ob) = None" by (rule CompileDir_Inr)
  have "\<forall>f \<in> set (sort_key fst (d_files (ob_comp ob))). \<exists>x. snd f = Inr x"
  proof (rule ccontr)
    assume "\<not> ?thesis"
    then obtain n err where "(n, Inl err) \<in> set (d_files (ob_comp ob))"
      by (auto) (metis sumE)
    from CompileDir_read_error [OF this, of "re_init e" "re_sha e" "re_sort e" "ob_uuid ob" "ob_now ob" c]
    show False using run by simp
  qed
  then obtain rs where "read_all (sort_key fst (d_files (ob_comp ob))) = Inr rs"
    using read_all_readable by blast
  then show ?thesis by (auto simp: hashDir_def glob)
qed

text \<open>What the recorded hash promises: any directory with that hash is the one published.\<close>

definition synced :: "reload_env \<Rightarrow> reloader \<Rightarrow> bool" where
  "synced e r \<longleftrightarrow>
     (\<forall>d. names_ok d \<and> hashDir (re_sha e) d = Inr (rl_lastHash r) \<longrightarrow>
        (\<exists>s. rl_snapshot r = Some s \<and> reflects e d s))"

lemma synced_after_compile:
  assumes e: "env_ideal e" and ok: "cache_ok (re_init e) (re_sha e) c"
    and view: "ob_comp ob = ob_hash ob" "names_ok (ob_hash ob)"
    and run: "compile_obs e ob c = (Inr s, c')"
    and r: "rl_snapshot r = Some s" "hashDir (re_sha e) (ob_hash ob) = Inr (rl_lastHash r)"
  shows "synced e r"
  unfolding synced_def
proof (intro allI impI)
  fix d assume d: "names_ok d \<and> hashDir (re_sha e) d = Inr (rl_lastHash r)"
  have "mset (d_files d) = mset (d_files (ob_hash ob))"
    by (rule hashDir_inj [of "re_sha e"]) (use e d view r in \<open>auto simp: env_ideal_def\<close>)
  moreover have "reflects e (ob_hash ob) s"
    using compile_obs_reflects [OF e ok run] view by simp
  ultimately show "\<exists>s. rl_snapshot r = Some s \<and> reflects e d s"
    using r(1) by (simp add: reflects_def)
qed

lemma NewReloader_synced:
  assumes e: "env_ideal e" and ok: "cache_ok (re_init e) (re_sha e) c"
    and view: "ob_comp ob = ob_hash ob" "names_ok (ob_hash ob)"
    and new: "NewReloader e ob c = Inr r"
  shows "synced e r"
proof -
  obtain s c' where run: "compile_obs e ob c = (Inr s, c')"
    using new by (auto simp: NewReloader_def Let_def split: prod.splits sum.splits)
  obtain h where "hashDir (re_sha e) (ob_hash ob) = Inr h"
    using compile_obs_hashable [OF run] view by metis
  with new run have "rl_snapshot r = Some s" "hashDir (re_sha e) (ob_hash ob) = Inr (rl_lastHash r)"
    by (auto simp: NewReloader_def Let_def)
  with e ok view run show ?thesis by (rule synced_after_compile)
qed

lemma doReload_synced [inv_intros]:
  assumes e: "env_ideal e" and ok: "reloader_ok e r" and sy: "synced e r"
    and view: "ob_comp ob = ob_hash ob" "names_ok (ob_hash ob)"
  shows "synced e (doReload e ob r)"
    and "fst (compile_obs e ob (rl_compiler r)) = Inr s \<Longrightarrow>
      \<exists>s'. rl_snapshot (doReload e ob r) = Some s' \<and> reflects e (ob_hash ob) s'"
proof -
  have both: "synced e (doReload e ob r) \<and> ((\<exists>s. fst (compile_obs e ob (rl_compiler r)) = Inr s) \<longrightarrow>
      (\<exists>s'. rl_snapshot (doReload e ob r) = Some s' \<and> reflects e (ob_hash ob) s'))"
  proof (cases "hashDir (re_sha e) (ob_hash ob) = Inr (rl_lastHash r)")
    case True
    then show ?thesis using sy view by (simp add: doReload_same_hash synced_def)
  next
    case False
    have c: "cache_ok (re_init e) (re_sha e) (rl_compiler r)"
      using ok by (simp add: reloader_ok_def)
    obtain res c' where run: "compile_obs e ob (rl_compiler r) = (res, c')" by fastforce
    show ?thesis
    proof (cases res)
      case (Inl err)
      with run False sy show ?thesis by (simp add: doReload_def Let_def synced_def)
    next
      case (Inr s)
      note run' = run [unfolded Inr]
      obtain h where h: "hashDir (re_sha e) (ob_hash ob) = Inr h"
        using compile_obs_hashable [OF run'] view by metis
      have r': "rl_snapshot (doReload e ob r) = Some s" "rl_lastHash (doReload e ob r) = h"
        using run' False h by (auto simp: doReload_def Let_def)
      then have "synced e (doReload e ob r)"
        using h by (intro synced_after_compile [OF e c view run']) simp_all
      moreover have "reflects e (ob_hash ob) s"
        using compile_obs_reflects [OF e c run'] view by simp
      ultimately show ?thesis using r' by simp
    qed
  qed
  then show "synced e (doReload e ob r)" by blast
  from both show "fst (compile_obs e ob (rl_compiler r)) = Inr s \<Longrightarrow>
      \<exists>s'. rl_snapshot (doReload e ob r) = Some s' \<and> reflects e (ob_hash ob) s'" by blast
qed

text \<open>
  When the directory changes between the two readings and later changes back, the recorded
  hash is that of the current content while the published rules are those of the transient
  one; no later reload repairs it.
\<close>

lemma doReload_stale:
  assumes h: "hashDir (re_sha e) (ob_hash ob) = Inr h" and ne: "h \<noteq> rl_lastHash r"
    and run: "compile_obs e ob (rl_compiler r) = (Inr s, c')"
    and later: "ob_hash ob' = ob_hash ob"
  shows "doReload e ob' (doReload e ob r) = doReload e ob r"
    and "rl_snapshot (doReload e ob r) = Some s"
  using assms by (auto simp: doReload_def Let_def)

section \<open>Properties\<close>

text \<open>
  C25: the directory hash identifies the content: for a collision-free digest and file names
  without NUL, two directories with the same hash hold the same files, whatever the order
  in which they were listed.
\<close>

theorem hash_identifies_directory:
  assumes "inj sha" and "names_ok d" and "names_ok d'"
    and "hashDir sha d = Inr h" and "hashDir sha d' = Inr h"
  shows "mset (d_files d) = mset (d_files d')"
  using assms by (rule hashDir_inj)

theorem hash_identifies_directory_witness:
  "mset (d_files (sample_dir [''a'', ''b''])) = mset (d_files (sample_dir [''b'', ''a'']))"
proof (rule hash_identifies_directory [of id _ _ "hex_encode (hash_stream [(''a.star'', ''a''), (''b.star'', ''b'')])"])
  have s: "sort_key fst (d_files (sample_dir [''a'', ''b''])) = d_files (sample_dir [''a'', ''b''])"
    "sort_key fst (d_files (sample_dir [''b'', ''a''])) = d_files (sample_dir [''a'', ''b''])"
    by (simp_all add: sample_dir_def list_less_def)
  show "hashDir id (sample_dir [''a'', ''b'']) = Inr (hex_encode (hash_stream [(''a.star'', ''a''), (''b.star'', ''b'')]))"
    "hashDir id (sample_dir [''b'', ''a'']) = Inr (hex_encode (hash_stream [(''a.star'', ''a''), (''b.star'', ''b'')]))"
    by (simp_all add: hashDir_def s) (simp_all add: sample_dir_def)
qed (simp_all add: names_ok_def sample_dir_def nul_char)

definition sample_env :: reload_env where
  "sample_env = \<lparr>re_init = sample_init, re_sha = id, re_sort = sort_by_priority\<rparr>"

definition sample_obs :: "bytes list \<Rightarrow> bytes list \<Rightarrow> reload_obs" where
  "sample_obs hashed built = \<lparr>ob_hash = sample_dir hashed, ob_comp = sample_dir built,
     ob_uuid = Inr ''s1'', ob_now = 0\<rparr>"

lemma sample_env_ideal: "env_ideal sample_env" "env_ok sample_env"
  by (simp_all add: sample_env_def env_ideal_def env_ok_def sample_init_def ps.priority_sort_axioms)

lemma fresh_compiler_ok: "cache_ok init sha fresh_compiler"
  by (simp add: fresh_compiler_def cache_ok_empty)

definition sample_reloader :: reloader where
  "sample_reloader = (case NewReloader sample_env (sample_obs [''p1''] [''p1'']) fresh_compiler of Inr r \<Rightarrow> r)"

lemma sample_NewReloader:
  "NewReloader sample_env (sample_obs [''p1''] [''p1'']) fresh_compiler = Inr sample_reloader"
  by (simp add: sample_reloader_def NewReloader_def compile_obs_def sample_env_def sample_obs_def
      sample_compile_defs)

text \<open>
  Once started, the server always has a well-formed snapshot and stays ready: whatever
  the watch loop sees (signals, polls, file events, directories that do not compile), the
  published rules have unique ids, are in priority order and indexed, and never make the
  prefilter panic.
\<close>

lemma reloader_always_serves:
  assumes "env_ok e" and "cache_ok (re_init e) (re_sha e) c" and "NewReloader e ob c = Inr r"
    and "reloader_run e (run_init watching r) t"
  shows "rl_Ready (rn_reloader t) \<and> (\<exists>s. rl_snapshot (rn_reloader t) = Some s \<and> snapshot_ok s)"
proof -
  have "reloader_ok e (rn_reloader (run_init watching r))"
    using NewReloader_ok [OF assms(1-3)] by (simp add: run_init_def)
  from reloader_run_ok [OF assms(1,4) this] show ?thesis by (simp add: reloader_ok_def)
qed

lemma reloader_always_serves_witness:
  "\<exists>t. run_step sample_env (run_init True sample_reloader) (PollTick (sample_obs [''*2''] [[]])) = Some t \<and>
     rl_Ready (rn_reloader t) \<and> rl_snapshot (rn_reloader t) \<noteq> None"
proof -
  obtain t where t: "run_step sample_env (run_init True sample_reloader) (PollTick (sample_obs [''*2''] [[]])) = Some t"
    by (simp add: run_init_def)
  have "reloader_run sample_env (run_init True sample_reloader) t"
    by (rule run_loop [OF run_refl t])
  from reloader_always_serves [OF sample_env_ideal(2) fresh_compiler_ok sample_NewReloader this] t
  show ?thesis by auto
qed



end
