(* ===== verification/Pipeline.thy ===== *)
theory Pipeline
  imports Config Pool Writer Ingest Reloader
begin

text \<open>
  \<^verbatim>\<open>main.go\<close>: how the parts are wired together, the admin endpoints, and the shutdown
  sequence. The wiring is a function from a configuration to the parts' own constructors; the
  running program is a transition system over the two channels, the HTTP handlers, the
  workers and the writer, in which the main goroutine walks through its shutdown steps. The
  lemmas show that events are conserved, that a shutdown within its budgets evaluates every
  event under a live context, and that a drain can always go on to its end.
\<close>

section \<open>Wiring\<close>

definition maxEventBytes :: int where "maxEventBytes = 262144"
definition eventChanCap :: nat where "eventChanCap = 100"
definition resultChanCap :: nat where "resultChanCap = 100"
definition eventTimeout :: duration where "eventTimeout = 5000000000"
definition shutdownTimeout :: duration where "shutdownTimeout = 10000000000"

text \<open>Why \<^verbatim>\<open>main\<close> exits before it serves, in the order in which it looks.\<close>

datatype startup_error =
    BadConfig config_error
  | BadRules compile_error
  | BadDatabase writer_error
  | BadCluster router_error

record 'db wiring =
  wi_reloader :: reloader
  wi_writer :: "'db writer"
  wi_interesting :: bool
  wi_workers :: int
  wi_server :: "fwd_error server"
  wi_router :: "router option"
  wi_affinity :: bool

text \<open>
  The rules directory and the database are opened by the parts' own constructors, given as
  functions of the configured paths; \<open>iface\<close> gives a router its HTTP client.
\<close>

definition wire ::
  "(string \<Rightarrow> compile_error + reloader) \<Rightarrow> (string \<Rightarrow> writer_error \<times> 'db option + 'db writer)
     \<Rightarrow> (router \<Rightarrow> fwd_error router_iface) \<Rightarrow> config_error + config \<Rightarrow> startup_error + 'db wiring" where
  "wire new_reloader new_writer iface loaded =
     (case loaded of
        Inl e \<Rightarrow> Inl (BadConfig e)
      | Inr cfg \<Rightarrow>
     (case new_reloader (cf_RulesDir cfg) of
        Inl e \<Rightarrow> Inl (BadRules e)
      | Inr rl \<Rightarrow>
     (case new_writer (cf_DuckDBPath cfg) of
        Inl (e, _) \<Rightarrow> Inl (BadDatabase e)
      | Inr wr \<Rightarrow>
          (let w = \<lparr>wi_reloader = rl, wi_writer = wr, wi_interesting = (cf_Emit cfg = ''interesting''),
                    wi_workers = cf_Workers cfg,
                    wi_server = SetRoutingField (cf_RoutingField cfg) (NewServer maxEventBytes),
                    wi_router = None, wi_affinity = False\<rparr>
           in if length (cf_ClusterPeers cfg) > 0
              then (case NewRouter (cf_ClusterSelf cfg) (cf_ClusterPeers cfg) of
                      Inl e \<Rightarrow> Inl (BadCluster e)
                    | Inr r \<Rightarrow> Inr (w\<lparr>wi_server := SetRouter (iface r) (wi_server w), wi_router := Some r,
                                     wi_affinity := True\<rparr>))
              else Inr w))))"

lemma wire_Inr:
  assumes "wire nr nw iface loaded = Inr w"
  obtains cfg where "loaded = Inr cfg" and "nr (cf_RulesDir cfg) = Inr (wi_reloader w)"
    and "nw (cf_DuckDBPath cfg) = Inr (wi_writer w)" and "wi_workers w = cf_Workers cfg"
    and "wi_interesting w \<longleftrightarrow> cf_Emit cfg = ''interesting''"
    and "sv_routingField (wi_server w) = (if cf_RoutingField cfg = '''' then ''entity_id'' else cf_RoutingField cfg)"
    and "sv_router (wi_server w) = map_option iface (wi_router w)"
  using assms
  by (auto simp: wire_def Let_def SetRoutingField_def NewServer_def SetRouter_def split: if_splits sum.splits)

text \<open>Counter keys are restricted exactly in cluster mode, where this process is a peer.\<close>

lemma wire_cluster:
  assumes "wire nr nw iface (Inr cfg) = Inr w"
  shows "wi_affinity w \<longleftrightarrow> wi_router w \<noteq> None" and "wi_router w \<noteq> None \<longleftrightarrow> cf_ClusterPeers cfg \<noteq> []"
    and "wi_router w = Some r \<Longrightarrow> r_self r \<in> set (r_peers r)"
  using assms NewRouter_self
  by (auto simp: wire_def Let_def split: if_splits sum.splits)

section \<open>Admin endpoints\<close>

definition admin_health :: "int \<times> string" where "admin_health = (200, ''ok'')"

definition admin_ready :: "bool \<Rightarrow> bool \<Rightarrow> int \<times> string" where
  "admin_ready reloaderReady writerReady =
     (if reloaderReady \<and> writerReady then (200, ''ok'') else (503, ''not ready''))"

record rule_info =
  ri_RuleID :: string
  ri_EventType :: string
  ri_Priority :: int
  ri_Prefiltered :: int
  ri_Evals :: int
  ri_AvgUS :: int
  ri_Slow :: bool

definition rule_info_of :: "(nat \<Rightarrow> int) \<Rightarrow> (nat \<Rightarrow> rule_stats) \<Rightarrow> duration \<Rightarrow> rule \<Rightarrow> rule_info" where
  "rule_info_of prefiltered stats slowThreshold r =
     (let ewma = EWMA (stats (rule_Stats r)) in
      \<lparr>ri_RuleID = rule_RuleID r, ri_EventType = rule_EventType r, ri_Priority = rule_Priority r,
       ri_Prefiltered = prefiltered (rule_Prefiltered r), ri_Evals = Evals (stats (rule_Stats r)),
       ri_AvgUS = go_div ewma 1000, ri_Slow = (slowThreshold > 0 \<and> ewma > slowThreshold)\<rparr>)"

text \<open>The snapshot's identity, rule count and per-rule statistics, or 503 without a snapshot.\<close>

definition admin_rules ::
  "snapshot option \<Rightarrow> (nat \<Rightarrow> int) \<Rightarrow> (nat \<Rightarrow> rule_stats) \<Rightarrow> int + string \<times> nat \<times> gotime \<times> rule_info list" where
  "admin_rules snapo prefiltered stats =
     (case snapo of
        None \<Rightarrow> Inl 503
      | Some snap \<Rightarrow>
          (let slowThreshold = SlowRuleThreshold (map (\<lambda>r. stats (rule_Stats r)) (snap_Rules snap))
           in Inr (snap_ID snap, length (snap_Rules snap), snap_LoadedAt snap,
                   map (rule_info_of prefiltered stats slowThreshold) (snap_Rules snap))))"

text \<open>The metrics in Prometheus text format, sorted by name.\<close>

definition admin_metrics :: "Writer.stats \<Rightarrow> string" where
  "admin_metrics s =
     (let ps = WriterStats s; names = sort (map fst ps) in
      print_lines (map (\<lambda>name. ''fruitfly_'' @ name @ '' '' @
                     dec_int (case map_of ps name of None \<Rightarrow> 0 | Some v \<Rightarrow> v)) names))"

section \<open>The multiplexer\<close>

text \<open>
  The routes of \<^verbatim>\<open>main\<close>: the ingest handler gets \<^verbatim>\<open>/events\<close> and everything below it, the admin
  handlers one path each, and a pattern for \<^verbatim>\<open>GET\<close> serves \<^verbatim>\<open>HEAD\<close> too. The state a request can
  change is the reloader's and the ingest server's.
\<close>

datatype answer =
    TextAnswer int string
  | RulesAnswer "string \<times> nat \<times> gotime \<times> rule_info list"
  | EventAnswer http_response

definition on_method :: "string list \<Rightarrow> string \<Rightarrow> answer \<Rightarrow> answer" where
  "on_method methods method a = (if method \<in> set methods then a else TextAnswer 405 ''Method Not Allowed'')"

definition main_mux ::
  "(string \<Rightarrow> string \<Rightarrow> ingest \<Rightarrow> http_response \<times> ingest) \<Rightarrow> bool \<Rightarrow> Writer.stats \<Rightarrow> (nat \<Rightarrow> int) \<Rightarrow> (nat \<Rightarrow> rule_stats)
     \<Rightarrow> string \<Rightarrow> string \<Rightarrow> reloader \<times> ingest \<Rightarrow> answer \<times> reloader \<times> ingest" where
  "main_mux ingestHandler writerReady writerStats prefiltered stats method path s =
     (case s of (rl, ig) \<Rightarrow>
      if path = ''/events'' \<or> has_prefix path ''/events/'' then
        (case ingestHandler method path ig of (resp, ig') \<Rightarrow> (EventAnswer resp, rl, ig'))
      else if path = ''/admin/health'' then
        (on_method [''GET'', ''HEAD''] method (case admin_health of (c, t) \<Rightarrow> TextAnswer c t), rl, ig)
      else if path = ''/admin/ready'' then
        (on_method [''GET'', ''HEAD''] method (case admin_ready (rl_Ready rl) writerReady of (c, t) \<Rightarrow> TextAnswer c t), rl, ig)
      else if path = ''/admin/rules'' then
        (on_method [''GET'', ''HEAD''] method
           (case admin_rules (rl_snapshot rl) prefiltered stats of
              Inl c \<Rightarrow> TextAnswer c ''no snapshot loaded'' | Inr info \<Rightarrow> RulesAnswer info), rl, ig)
      else if path = ''/admin/rules/reload'' then
        (on_method [''POST''] method (TextAnswer 202 ''reload triggered''),
         if method = ''POST'' then Reload rl else rl, ig)
      else if path = ''/admin/metrics'' then
        (on_method [''GET'', ''HEAD''] method (TextAnswer 200 (admin_metrics writerStats)), rl, ig)
      else (TextAnswer 404 ''404 page not found'', rl, ig))"

text \<open>No request outside \<^verbatim>\<open>/events\<close> touches the pipeline, and the only admin request with an effect
  asks for a reload.\<close>

lemma main_mux_admin:
  assumes "main_mux h wr ws pre st method path (rl, ig) = (a, rl', ig')" and "\<not> has_prefix path ''/events''"
  shows "ig' = ig \<and> (rl' = rl \<or> method = ''POST'' \<and> path = ''/admin/rules/reload'' \<and> rl' = Reload rl \<and>
    a = TextAnswer 202 ''reload triggered'')"
proof -
  have "path \<noteq> ''/events''" "\<not> has_prefix path ''/events/''"
    using assms(2) by (auto simp: has_prefix_iff)
  with assms(1) show ?thesis by (auto simp: main_mux_def on_method_def split: if_splits)
qed

text \<open>A process is reported ready exactly when both its reloader and its writer are.\<close>

lemma main_mux_ready:
  "fst (main_mux h wready ws pre st ''GET'' ''/admin/ready'' (rl, ig)) = TextAnswer 200 ''ok'' \<longleftrightarrow> rl_Ready rl \<and> wready"
  by (simp add: main_mux_def on_method_def admin_ready_def has_prefix_def)

section \<open>The running program\<close>

text \<open>
  The main goroutine: serving; in \<^verbatim>\<open>srv.Shutdown\<close>; past it (with whether it timed out);
  waiting for the pool after \<open>close(eventChan)\<close>; after the forced cancellation; waiting for the
  writer; finished.
\<close>

datatype main_stage =
    MainServing | ShuttingDown | PastShutdown | WaitPool | ForcedWait | WaitWriter | Exited

text \<open>
  \<open>pi_handlers\<close> counts the HTTP handlers that are running; \<open>pi_busy\<close> holds the events inside
  a worker and whether their evaluation began under a cancelled context. \<open>pi_accepted\<close> and
  \<open>pi_output\<close> log the events that entered \<^verbatim>\<open>eventChan\<close> and the results the writer received.
\<close>

record 'e pipe =
  pi_stage :: main_stage
  pi_handlers :: nat
  pi_events :: "'e list"
  pi_eventsClosed :: bool
  pi_busy :: "('e \<times> bool) list"
  pi_results :: "('e \<times> bool) list"
  pi_resultsClosed :: bool
  pi_writerDone :: bool
  pi_cancelled :: bool
  pi_timedOut :: bool
  pi_accepted :: "'e list"
  pi_output :: "('e \<times> bool) list"
  pi_panics :: nat

definition pi_init :: "'e pipe" where
  "pi_init = \<lparr>pi_stage = MainServing, pi_handlers = 0, pi_events = [], pi_eventsClosed = False,
     pi_busy = [], pi_results = [], pi_resultsClosed = False, pi_writerDone = False,
     pi_cancelled = False, pi_timedOut = False, pi_accepted = [], pi_output = [], pi_panics = 0\<rparr>"

text \<open>
  A send on a closed channel panics, in a \<^verbatim>\<open>select\<close> with a default too; the HTTP server
  recovers the panic of a handler. A batch handler sends many events before it returns. A
  connection accepted before the shutdown may still deliver a request during it, and after it
  when \<^verbatim>\<open>srv.Shutdown\<close> gave up. The number of workers is \<open>n\<close>.
\<close>

inductive pi_step :: "nat \<Rightarrow> 'e pipe \<Rightarrow> 'e pipe \<Rightarrow> bool" for n :: nat where
  request:
    "pi_stage s = MainServing \<or> pi_stage s = ShuttingDown \<Longrightarrow>
     pi_step n s (s\<lparr>pi_handlers := Suc (pi_handlers s)\<rparr>)"
| late_request: "pi_timedOut s \<Longrightarrow> pi_step n s (s\<lparr>pi_handlers := Suc (pi_handlers s)\<rparr>)"
| handler_done: "pi_handlers s = Suc h \<Longrightarrow> pi_step n s (s\<lparr>pi_handlers := h\<rparr>)"
| handler_send:
    "pi_handlers s = Suc h \<Longrightarrow> \<not> pi_eventsClosed s \<Longrightarrow> length (pi_events s) < eventChanCap \<Longrightarrow>
     pi_step n s (s\<lparr>pi_handlers := h, pi_events := pi_events s @ [e], pi_accepted := pi_accepted s @ [e]\<rparr>)"
| batch_send:
    "pi_handlers s > 0 \<Longrightarrow> \<not> pi_eventsClosed s \<Longrightarrow> length (pi_events s) < eventChanCap \<Longrightarrow>
     pi_step n s (s\<lparr>pi_events := pi_events s @ [e], pi_accepted := pi_accepted s @ [e]\<rparr>)"
| handler_panic:
    "pi_handlers s = Suc h \<Longrightarrow> pi_eventsClosed s \<Longrightarrow>
     pi_step n s (s\<lparr>pi_handlers := h, pi_panics := Suc (pi_panics s)\<rparr>)"
| worker_take:
    "pi_events s = e # es \<Longrightarrow> length (pi_busy s) < n \<Longrightarrow>
     pi_step n s (s\<lparr>pi_events := es, pi_busy := pi_busy s @ [(e, pi_cancelled s)]\<rparr>)"
| worker_send:
    "pi_busy s = xs @ b # ys \<Longrightarrow> length (pi_results s) < resultChanCap \<Longrightarrow>
     pi_step n s (s\<lparr>pi_busy := xs @ ys, pi_results := pi_results s @ [b]\<rparr>)"
| pool_done:
    "pi_eventsClosed s \<Longrightarrow> pi_events s = [] \<Longrightarrow> pi_busy s = [] \<Longrightarrow>
     pi_step n s (s\<lparr>pi_resultsClosed := True\<rparr>)"
| writer_take:
    "pi_results s = r # rs \<Longrightarrow> \<not> pi_writerDone s \<Longrightarrow>
     pi_step n s (s\<lparr>pi_results := rs, pi_output := pi_output s @ [r]\<rparr>)"
| writer_end:
    "pi_resultsClosed s \<Longrightarrow> pi_results s = [] \<Longrightarrow> pi_step n s (s\<lparr>pi_writerDone := True\<rparr>)"
| writer_drain_timeout:
    "pi_cancelled s \<Longrightarrow> pi_step n s (s\<lparr>pi_writerDone := True\<rparr>)"
| signalled: "pi_stage s = MainServing \<Longrightarrow> pi_step n s (s\<lparr>pi_stage := ShuttingDown\<rparr>)"
| shutdown_ok:
    "pi_stage s = ShuttingDown \<Longrightarrow> pi_handlers s = 0 \<Longrightarrow> pi_step n s (s\<lparr>pi_stage := PastShutdown\<rparr>)"
| shutdown_timeout:
    "pi_stage s = ShuttingDown \<Longrightarrow>
     pi_step n s (s\<lparr>pi_stage := PastShutdown, pi_timedOut := True\<rparr>)"
| close_events:
    "pi_stage s = PastShutdown \<Longrightarrow>
     pi_step n s (s\<lparr>pi_stage := WaitPool, pi_eventsClosed := True\<rparr>)"
| pool_waited:
    "pi_stage s \<in> {WaitPool, ForcedWait} \<Longrightarrow> pi_resultsClosed s \<Longrightarrow>
     pi_step n s (s\<lparr>pi_stage := WaitWriter\<rparr>)"
| force_cancel:
    "pi_stage s = WaitPool \<Longrightarrow> pi_step n s (s\<lparr>pi_stage := ForcedWait, pi_cancelled := True\<rparr>)"
| force_timeout: "pi_stage s = ForcedWait \<Longrightarrow> pi_step n s (s\<lparr>pi_stage := WaitWriter\<rparr>)"
| writer_waited:
    "pi_stage s = WaitWriter \<Longrightarrow> pi_writerDone s \<Longrightarrow> pi_step n s (s\<lparr>pi_stage := Exited\<rparr>)"
| writer_timeout: "pi_stage s = WaitWriter \<Longrightarrow> pi_step n s (s\<lparr>pi_stage := Exited\<rparr>)"

inductive pi_reach :: "nat \<Rightarrow> 'e pipe \<Rightarrow> bool" for n :: nat where
  pi_start: "pi_reach n pi_init"
| pi_next: "pi_reach n s \<Longrightarrow> pi_step n s s' \<Longrightarrow> pi_reach n s'"

inductive_cases pi_stepE: "pi_step n s s'"

section \<open>Stages only advance\<close>

text \<open>The main goroutine never goes back: its stages are ordered as \<^verbatim>\<open>main\<close> walks through them.\<close>

primrec stage_rank :: "main_stage \<Rightarrow> nat" where
  "stage_rank MainServing = 0"
| "stage_rank ShuttingDown = 1"
| "stage_rank PastShutdown = 2"
| "stage_rank WaitPool = 3"
| "stage_rank ForcedWait = 4"
| "stage_rank WaitWriter = 5"
| "stage_rank Exited = 6"

lemma stage_rank_inj: "stage_rank x = stage_rank y \<Longrightarrow> x = y"
  by (cases x; cases y) simp_all

instantiation main_stage :: linorder
begin

definition less_eq_main_stage :: "main_stage \<Rightarrow> main_stage \<Rightarrow> bool" where
  "less_eq_main_stage x y \<longleftrightarrow> stage_rank x \<le> stage_rank y"

definition less_main_stage :: "main_stage \<Rightarrow> main_stage \<Rightarrow> bool" where
  "less_main_stage x y \<longleftrightarrow> stage_rank x < stage_rank y"

instance
  by standard (auto simp: less_eq_main_stage_def less_main_stage_def dest: stage_rank_inj)

end

lemma pi_step_stage_mono: "pi_step n s s' \<Longrightarrow> pi_stage s \<le> pi_stage s'"
  by (erule pi_stepE) (auto simp: less_eq_main_stage_def)

lemma pi_steps_stage_mono: "(pi_step n)\<^sup>*\<^sup>* s s' \<Longrightarrow> pi_stage s \<le> pi_stage s'"
  by (induction rule: rtranclp_induct) (auto dest: pi_step_stage_mono)

section \<open>Invariants of the running program\<close>

definition in_pipe :: "'e pipe \<Rightarrow> 'e multiset" where
  "in_pipe s = mset (pi_events s) + mset (map fst (pi_busy s)) + mset (map fst (pi_results s))
     + mset (map fst (pi_output s))"

lemma pi_step_conserves: "pi_step n s s' \<Longrightarrow> mset (pi_accepted s) = in_pipe s \<Longrightarrow> mset (pi_accepted s') = in_pipe s'"
  by (induction rule: pi_step.induct) (simp_all add: in_pipe_def)

lemma pi_reach_conserves: "pi_reach n s \<Longrightarrow> mset (pi_accepted s) = in_pipe s"
proof (induction rule: pi_reach.induct)
  case pi_start
  then show ?case by (simp add: in_pipe_def pi_init_def)
next
  case (pi_next s s')
  from pi_next(2,3) show ?case by (rule pi_step_conserves)
qed

definition closed_stage :: "main_stage \<Rightarrow> bool" where
  "closed_stage st \<longleftrightarrow> WaitPool \<le> st"

lemma closed_stage_iff: "closed_stage st \<longleftrightarrow> st \<in> {WaitPool, ForcedWait, WaitWriter, Exited}"
  by (cases st) (simp_all add: closed_stage_def less_eq_main_stage_def)

lemma closed_stage_simps [simp]:
  "\<not> closed_stage MainServing" "\<not> closed_stage ShuttingDown" "\<not> closed_stage PastShutdown"
  "closed_stage WaitPool" "closed_stage ForcedWait" "closed_stage WaitWriter" "closed_stage Exited"
  by (simp_all add: closed_stage_iff)

text \<open>
  The events channel is closed exactly from \<open>WaitPool\<close> on; unless \<^verbatim>\<open>Shutdown\<close> timed out, no
  handler is left then; nothing runs under a cancelled context before the forced one.
\<close>

definition pi_inv :: "'e pipe \<Rightarrow> bool" where
  "pi_inv s \<longleftrightarrow>
     (pi_eventsClosed s \<longleftrightarrow> closed_stage (pi_stage s)) \<and>
     (\<not> pi_timedOut s \<longrightarrow> (closed_stage (pi_stage s) \<or> pi_stage s = PastShutdown \<longrightarrow> pi_handlers s = 0) \<and> pi_panics s = 0) \<and>
     (\<not> pi_cancelled s \<longrightarrow>
        (\<forall>b \<in> set (pi_busy s) \<union> set (pi_results s) \<union> set (pi_output s). \<not> snd b)) \<and>
     (pi_resultsClosed s \<longrightarrow> pi_eventsClosed s \<and> pi_events s = [] \<and> pi_busy s = []) \<and>
     (pi_writerDone s \<and> \<not> pi_cancelled s \<longrightarrow> pi_resultsClosed s \<and> pi_results s = [])"

lemma pi_inv_init: "pi_inv pi_init"
  by (simp add: pi_inv_def pi_init_def closed_stage_iff)

lemma pi_inv_step [inv_intros]: "pi_step n s s' \<Longrightarrow> pi_inv s \<Longrightarrow> pi_inv s'"
proof (induction rule: pi_step.induct)
  case (request s)
  then show ?case by (elim disjE) (auto simp: pi_inv_def)
next
  case (pool_waited s)
  then show ?case by (elim insertE emptyE) (auto simp: pi_inv_def)
qed (auto simp: pi_inv_def)

lemma pi_reach_inv: "pi_reach n s \<Longrightarrow> pi_inv s"
  by (induction rule: pi_reach.induct) (auto intro: pi_inv_init pi_inv_step)

section \<open>The drain makes progress\<close>

text \<open>
  After \<open>close(eventChan)\<close> the work left is an amount that every step of the drain lowers: an
  event has three stations to pass, a worker's result two, a sent result one; then the two
  ends of the channel and the two waits of \<^verbatim>\<open>main\<close> remain.
\<close>

definition drain_work :: "'e pipe \<Rightarrow> nat" where
  "drain_work s = 3 * length (pi_events s) + 2 * length (pi_busy s) + length (pi_results s)
     + (if pi_resultsClosed s then 0 else 1) + (if pi_writerDone s then 0 else 1)
     + (6 - stage_rank (pi_stage s))"

definition drains_to :: "nat \<Rightarrow> 'e pipe \<Rightarrow> 'e pipe \<Rightarrow> bool" where
  "drains_to n s s' \<longleftrightarrow> pi_step n s s' \<and> drain_work s' < drain_work s \<and>
     pi_stage s' \<in> {WaitPool, WaitWriter, Exited} \<and> (pi_stage s' = Exited \<longrightarrow> pi_writerDone s') \<and>
     \<not> pi_cancelled s' \<and> pi_accepted s' = pi_accepted s"

lemma drain_write:
  assumes "pi_inv s" and "pi_stage s \<in> {WaitPool, WaitWriter}" and "\<not> pi_cancelled s" and "pi_results s \<noteq> []"
  shows "\<exists>s'. drains_to n s s'"
proof -
  from assms(4) obtain r rs where r: "pi_results s = r # rs" by (cases "pi_results s") auto
  moreover have "\<not> pi_writerDone s" using assms by (auto simp: pi_inv_def)
  ultimately have "pi_step n s (s\<lparr>pi_results := rs, pi_output := pi_output s @ [r]\<rparr>)" by (rule writer_take)
  with r assms(2,3) show ?thesis by (intro exI) (auto simp: drains_to_def drain_work_def)
qed

lemma drain_send:
  assumes "pi_inv s" and "pi_stage s \<in> {WaitPool, WaitWriter}" and "\<not> pi_cancelled s" and "pi_busy s \<noteq> []"
  shows "\<exists>s'. drains_to n s s'"
proof (cases "length (pi_results s) < resultChanCap")
  case True
  from assms(4) obtain b bs where b: "pi_busy s = [] @ b # bs" by (cases "pi_busy s") auto
  from worker_send [OF this True, of n] b assms(2,3) show ?thesis
    by (intro exI) (auto simp: drains_to_def drain_work_def)
next
  case False
  then have "pi_results s \<noteq> []" by (auto simp: resultChanCap_def)
  with assms(1-3) show ?thesis by (rule drain_write)
qed

lemma drain_progress:
  assumes inv: "pi_inv s" and n: "n > 0" and st: "pi_stage s \<in> {WaitPool, WaitWriter}" and live: "\<not> pi_cancelled s"
  shows "\<exists>s'. drains_to n s s'"
proof (cases "pi_busy s = [] \<and> pi_results s = []")
  case False
  then show ?thesis using drain_write drain_send inv st live by blast
next
  case True
  note d = drains_to_def drain_work_def
  have closed: "pi_eventsClosed s" using inv st by (auto simp: pi_inv_def closed_stage_iff)
  show ?thesis
  proof (cases "pi_events s")
    case (Cons e es)
    from worker_take [OF this, of n] Cons True n st live show ?thesis by (intro exI) (auto simp: d)
  next
    case Nil
    consider "\<not> pi_resultsClosed s" | "pi_resultsClosed s" "pi_stage s = WaitPool"
      | "pi_resultsClosed s" "pi_stage s = WaitWriter" "\<not> pi_writerDone s"
      | "pi_stage s = WaitWriter" "pi_writerDone s" using st by blast
    then show ?thesis
    proof cases
      case 1
      from pool_done [OF closed Nil, of n] 1 True st live show ?thesis by (intro exI) (auto simp: d)
    next
      case 2
      from pool_waited [of s n] 2 live show ?thesis by (intro exI) (auto simp: d)
    next
      case 3
      from writer_end [OF 3(1), of n] 3 True live show ?thesis by (intro exI) (auto simp: d)
    next
      case 4
      from writer_waited [OF 4, of n] 4 live show ?thesis by (intro exI) (auto simp: d)
    qed
  qed
qed

lemma drain_completes:
  assumes "pi_reach n s" and "n > 0" and "pi_stage s \<in> {WaitPool, WaitWriter}" and "\<not> pi_cancelled s"
  shows "\<exists>s'. (pi_step n)\<^sup>*\<^sup>* s s' \<and> pi_reach n s' \<and> pi_stage s' = Exited \<and> pi_writerDone s' \<and>
    \<not> pi_cancelled s' \<and> pi_accepted s' = pi_accepted s"
  using assms
proof (induction "drain_work s" arbitrary: s rule: less_induct)
  case less
  obtain t where t: "drains_to n s t"
    using drain_progress [OF pi_reach_inv [OF less.prems(1)] less.prems(2-4)] by blast
  then have step: "pi_step n s t" "drain_work t < drain_work s" "\<not> pi_cancelled t" "pi_accepted t = pi_accepted s"
    and stage: "pi_stage t = Exited \<and> pi_writerDone t \<or> pi_stage t \<in> {WaitPool, WaitWriter}"
    by (auto simp: drains_to_def)
  have reach: "pi_reach n t" using less.prems(1) step(1) by (rule pi_next)
  from stage show ?case
  proof
    assume "pi_stage t = Exited \<and> pi_writerDone t"
    with step reach show ?thesis by blast
  next
    assume "pi_stage t \<in> {WaitPool, WaitWriter}"
    from less.hyps [OF step(2) reach less.prems(2) this step(3)] step show ?thesis
      by (metis converse_rtranclp_into_rtranclp)
  qed
qed

section \<open>What the pool is given\<close>

text \<open>A snapshot the reloader publishes is one the pool can evaluate without a panic.\<close>

lemma snapshot_ok_wf: "snapshot_ok s \<Longrightarrow> snapshot_wf s"
  using snapshot_wf_buildIndex by (auto simp: snapshot_ok_def)

section \<open>Properties\<close>

text \<open>
  C22: a started process is consistently wired. Its rules are loaded: it reports ready and
  serves a well-formed snapshot. It has workers and a routing field; it emits everything unless
  told otherwise; counter keys are restricted exactly when the server forwards events, which
  is when peers are configured, and then the process is one of the peers it routes to.
\<close>

theorem startup_consistent:
  assumes "numCPU > 0" and "env_ok e" and "cache_ok (re_init e) (re_sha e) c"
    and start: "wire (\<lambda>d. NewReloader e (obs d) c) (\<lambda>p. NewWriter D (openr p) clock)
      (\<lambda>r. cluster_iface r build http) (Load read unmarshal numCPU path) = Inr w"
  shows "admin_ready (rl_Ready (wi_reloader w)) (wr_ready (wi_writer w)) = (200, ''ok'') \<and>
    reloader_ok e (wi_reloader w) \<and> wi_workers w > 0 \<and> sv_routingField (wi_server w) \<noteq> '''' \<and>
    (wi_affinity w \<longleftrightarrow> sv_router (wi_server w) \<noteq> None) \<and>
    (case wi_router w of None \<Rightarrow> sv_router (wi_server w) = None
     | Some r \<Rightarrow> sv_router (wi_server w) = Some (cluster_iface r build http) \<and> r_self r \<in> set (r_peers r)) \<and>
    (\<exists>cfg. Load read unmarshal numCPU path = Inr cfg \<and> (wi_router w \<noteq> None \<longleftrightarrow> cf_ClusterPeers cfg \<noteq> []) \<and>
       (wi_interesting w \<longleftrightarrow> cf_Emit cfg \<noteq> ''all''))"
proof -
  from start obtain cfg where load: "Load read unmarshal numCPU path = Inr cfg"
    and parts: "NewReloader e (obs (cf_RulesDir cfg)) c = Inr (wi_reloader w)"
      "NewWriter D (openr (cf_DuckDBPath cfg)) clock = Inr (wi_writer w)"
    and fields: "wi_workers w = cf_Workers cfg" "wi_interesting w \<longleftrightarrow> cf_Emit cfg = ''interesting''"
      "sv_routingField (wi_server w) = (if cf_RoutingField cfg = '''' then ''entity_id'' else cf_RoutingField cfg)"
      "sv_router (wi_server w) = map_option (\<lambda>r. cluster_iface r build http) (wi_router w)"
    by (rule wire_Inr)
  have ok: "config_ok cfg" using assms(1) load by (rule Load_ok)
  note cl = wire_cluster [OF start [unfolded load]]
  have ready: "reloader_ok e (wi_reloader w)" using assms(2,3) parts(1) by (rule NewReloader_ok)
  have "rl_Ready (wi_reloader w)" using ready by (simp add: reloader_ok_def)
  then have "admin_ready (rl_Ready (wi_reloader w)) (wr_ready (wi_writer w)) = (200, ''ok'')"
    using NewWriter_ready [OF parts(2)] by (simp add: admin_ready_def)
  moreover have "case wi_router w of None \<Rightarrow> sv_router (wi_server w) = None
     | Some r \<Rightarrow> sv_router (wi_server w) = Some (cluster_iface r build http) \<and> r_self r \<in> set (r_peers r)"
    using fields(4) cl(3) by (cases "wi_router w") simp_all
  moreover have "wi_affinity w \<longleftrightarrow> sv_router (wi_server w) \<noteq> None" using fields(4) cl(1) by simp
  ultimately show ?thesis
    using ready fields(1-3) ok load cl(2) by (auto simp: config_ok_def emit_policies_def)
qed

definition cluster_config :: config where
  "cluster_config = (default_config 4)\<lparr>cf_ClusterPeers := [''http://a/'', ''http://b''], cf_ClusterSelf := ''http://a''\<rparr>"

definition sample_start :: "startup_error + (db_row list \<times> db_row list) wiring" where
  "sample_start = wire (\<lambda>d. NewReloader sample_env (sample_obs [''p1''] [''p1'']) fresh_compiler)
     (\<lambda>p. NewWriter list_db (Inr ([], [])) []) (\<lambda>r. cluster_iface r (\<lambda>_. None) (\<lambda>_. Inr 202))
     (Load (\<lambda>_. FileData []) (\<lambda>_ _. Inr cluster_config) 4 ''f'')"

theorem startup_consistent_witness:
  "\<exists>w. sample_start = Inr w \<and> wi_affinity w \<and> wi_workers w > 0 \<and>
     admin_ready (rl_Ready (wi_reloader w)) (wr_ready (wi_writer w)) = (200, ''ok'')"
proof -
  have "\<exists>w. sample_start = Inr w \<and> wi_router w \<noteq> None"
    by (simp add: sample_start_def sample_NewReloader NewWriter_def createSchema_def list_db_def
        Load_def read_config_def cluster_config_def default_config_def apply_defaults_def
        log_levels_def emit_policies_def wire_def Let_def NewRouter_def normalize_url_def trim_right_def)
  then obtain w where w: "sample_start = Inr w" "wi_router w \<noteq> None" by blast
  have "numCPU > 0 \<Longrightarrow> numCPU = 4 \<Longrightarrow> wi_workers w > 0 \<and> sv_router (wi_server w) \<noteq> None \<and> wi_affinity w \<and>
      admin_ready (rl_Ready (wi_reloader w)) (wr_ready (wi_writer w)) = (200, ''ok'')" for numCPU :: int
    using startup_consistent [OF _ sample_env_ideal(2) fresh_compiler_ok w(1) [unfolded sample_start_def]] w(2)
    by (auto split: option.splits)
  with w show ?thesis by auto
qed

text \<open>Once the writer has finished without a forced cancellation, every accepted event is output.\<close>

lemma pi_all_output:
  assumes "pi_reach n s" and "pi_writerDone s" and "\<not> pi_cancelled s"
  shows "mset (map fst (pi_output s)) = mset (pi_accepted s)"
proof -
  have "pi_inv s" using assms(1) by (rule pi_reach_inv)
  then have "pi_results s = []" "pi_events s = []" "pi_busy s = []"
    using assms(2,3) unfolding pi_inv_def by blast+
  with pi_reach_conserves [OF assms(1)] show ?thesis by (simp add: in_pipe_def)
qed

text \<open>
  C9: no event is lost or invented on its way through the process, and a shutdown that stays
  within its budgets completes: when the writer has finished without a forced cancellation,
  every accepted event has left as one result, all were evaluated under a live context, and,
  if the HTTP server stopped in time, no handler is left and none panicked.
\<close>

theorem graceful_shutdown_completes:
  assumes "pi_reach n s" and "pi_writerDone s" and "\<not> pi_cancelled s"
  shows "mset (map fst (pi_output s)) = mset (pi_accepted s) \<and> pi_events s = [] \<and> pi_busy s = [] \<and>
    list_all (\<lambda>b. \<not> snd b) (pi_output s) \<and>
    (pi_timedOut s \<or> pi_handlers s = 0 \<and> pi_panics s = 0)"
proof -
  have inv: "pi_inv s" using assms(1) by (rule pi_reach_inv)
  then have fin: "pi_resultsClosed s" "pi_results s = []" "pi_eventsClosed s" "pi_events s = []" "pi_busy s = []"
    using assms(2,3) unfolding pi_inv_def by blast+
  have "mset (map fst (pi_output s)) = mset (pi_accepted s)" by (rule pi_all_output [OF assms])
  moreover have "list_all (\<lambda>b. \<not> snd b) (pi_output s)"
    using inv assms(3) by (auto simp: pi_inv_def list_all_iff)
  moreover have "pi_timedOut s \<or> pi_handlers s = 0 \<and> pi_panics s = 0"
    using inv fin by (auto simp: pi_inv_def)
  ultimately show ?thesis using fin by simp
qed

lemma pi_next_eq: "pi_reach n s \<Longrightarrow> pi_step n s t \<Longrightarrow> t = s' \<Longrightarrow> pi_reach n s'"
  by (auto intro: pi_next)

text \<open>States of sample runs: stage, handlers, queue, whether it is closed, workers and the rest.\<close>

definition pi_at ::
  "main_stage \<Rightarrow> nat \<Rightarrow> 'e list \<Rightarrow> bool \<Rightarrow> ('e \<times> bool) list \<Rightarrow> ('e \<times> bool) list \<Rightarrow> bool \<Rightarrow> 'e list
     \<Rightarrow> ('e \<times> bool) list \<Rightarrow> 'e pipe" where
  "pi_at st h es ec busy res can acc out =
     pi_init\<lparr>pi_stage := st, pi_handlers := h, pi_events := es, pi_eventsClosed := ec, pi_busy := busy,
       pi_results := res, pi_cancelled := can, pi_accepted := acc, pi_output := out\<rparr>"

lemma pi_at_accepted: "pi_reach 1 (pi_at MainServing 0 [e] False [] [] False [e] [])"
proof -
  have "pi_reach 1 (pi_at MainServing 1 [] False [] [] False [] [])"
    by (rule pi_next_eq [OF pi_start request]) (simp_all add: pi_at_def pi_init_def)
  then show ?thesis
    by (rule pi_next_eq [OF _ handler_send [where h = 0 and e = e]])
       (simp_all add: pi_at_def pi_init_def eventChanCap_def)
qed

text \<open>A run that takes one event through to the writer and stops.\<close>

lemma one_event_run:
  "\<exists>s. pi_reach 1 s \<and> pi_writerDone s \<and> \<not> pi_cancelled s \<and> pi_accepted s = [e] \<and> pi_output s = [(e, False)]"
proof -
  note d = pi_at_def pi_init_def resultChanCap_def
  have "pi_reach 1 (pi_at MainServing 0 [] False [(e, False)] [] False [e] [])"
    by (rule pi_next_eq [OF pi_at_accepted worker_take [where e = e and es = "[]"]]) (simp_all add: d)
  then have "pi_reach 1 (pi_at MainServing 0 [] False [] [(e, False)] False [e] [])"
    by (rule pi_next_eq [OF _ worker_send [where xs = "[]" and ys = "[]" and b = "(e, False)"]]) (simp_all add: d)
  then have "pi_reach 1 (pi_at MainServing 0 [] False [] [] False [e] [(e, False)])"
    by (rule pi_next_eq [OF _ writer_take [where rs = "[]" and r = "(e, False)"]]) (simp_all add: d)
  then have "pi_reach 1 (pi_at ShuttingDown 0 [] False [] [] False [e] [(e, False)])"
    by (rule pi_next_eq [OF _ signalled]) (simp_all add: d)
  then have "pi_reach 1 (pi_at PastShutdown 0 [] False [] [] False [e] [(e, False)])"
    by (rule pi_next_eq [OF _ shutdown_ok]) (simp_all add: d)
  then have "pi_reach 1 (pi_at WaitPool 0 [] True [] [] False [e] [(e, False)])"
    by (rule pi_next_eq [OF _ close_events]) (simp_all add: d)
  then have "pi_reach 1 ((pi_at WaitPool 0 [] True [] [] False [e] [(e, False)])\<lparr>pi_resultsClosed := True\<rparr>)"
    by (rule pi_next_eq [OF _ pool_done]) (simp_all add: d)
  then have "pi_reach 1 ((pi_at WaitPool 0 [] True [] [] False [e] [(e, False)])
      \<lparr>pi_resultsClosed := True, pi_writerDone := True\<rparr>)" (is "pi_reach 1 ?s")
    by (rule pi_next_eq [OF _ writer_end]) (simp_all add: d)
  then show ?thesis by (intro exI [of _ ?s]) (simp add: d)
qed

theorem graceful_shutdown_completes_witness:
  "\<exists>s. pi_reach 1 s \<and> pi_writerDone s \<and> mset (map fst (pi_output s)) = {#7 :: nat#}"
proof -
  obtain s :: "nat pipe" where s: "pi_reach 1 s" "pi_writerDone s" "\<not> pi_cancelled s" "pi_accepted s = [7]"
    using one_event_run [of 7] by blast
  from graceful_shutdown_completes [OF s(1-3)] s show ?thesis by (intro exI [of _ s]) simp
qed

text \<open>
  C10: a shutdown never gets stuck: once \<^verbatim>\<open>eventChan\<close> is closed, and unless the budget ran out,
  from every state the process can be in there is a way to the end of \<^verbatim>\<open>main\<close> without a forced
  cancellation, on which the writer finishes and every accepted event is output once.
\<close>

theorem shutdown_drains:
  assumes "pi_reach n s" and "n > 0" and "pi_stage s \<in> {WaitPool, WaitWriter}" and "\<not> pi_cancelled s"
  shows "\<exists>s'. (pi_step n)\<^sup>*\<^sup>* s s' \<and> pi_stage s' = Exited \<and> pi_writerDone s' \<and> \<not> pi_cancelled s' \<and>
    mset (map fst (pi_output s')) = mset (pi_accepted s)"
proof -
  from drain_completes [OF assms] obtain s' where
    run: "(pi_step n)\<^sup>*\<^sup>* s s'" "pi_reach n s'" and fin: "pi_stage s' = Exited" "pi_writerDone s'" "\<not> pi_cancelled s'"
    and acc: "pi_accepted s' = pi_accepted s" by blast
  have "mset (map fst (pi_output s')) = mset (pi_accepted s)"
    using pi_all_output [OF run(2) fin(2,3)] acc by simp
  with run(1) fin show ?thesis by blast
qed

theorem shutdown_drains_witness:
  "\<exists>s'. (pi_step 1)\<^sup>*\<^sup>* (pi_at WaitPool 0 [7 :: nat] True [] [] False [7 :: nat] []) s' \<and> pi_stage s' = Exited \<and>
     mset (map fst (pi_output s')) = {#7 :: nat#}"
proof -
  note d = pi_at_def pi_init_def
  have "pi_reach 1 (pi_at ShuttingDown 0 [7 :: nat] False [] [] False [7 :: nat] [])"
    by (rule pi_next_eq [OF pi_at_accepted signalled]) (simp_all add: d)
  then have "pi_reach 1 (pi_at PastShutdown 0 [7 :: nat] False [] [] False [7 :: nat] [])"
    by (rule pi_next_eq [OF _ shutdown_ok]) (simp_all add: d)
  then have r: "pi_reach 1 (pi_at WaitPool 0 [7 :: nat] True [] [] False [7 :: nat] [])" (is "pi_reach 1 ?s")
    by (rule pi_next_eq [OF _ close_events]) (simp_all add: d)
  have s: "pi_stage ?s \<in> {WaitPool, WaitWriter}" "\<not> pi_cancelled ?s" "pi_accepted ?s = [7 :: nat]" by (simp_all add: d)
  note w = shutdown_drains [OF r zero_less_one s(1,2), unfolded s(3)]
  show ?thesis using w by (elim exE conjE, intro exI conjI) simp_all
qed

text \<open>
  C34: beyond its budgets the shutdown breaks two of its promises: when \<^verbatim>\<open>srv.Shutdown\<close> times
  out a handler can send on the closed channel and panic, and after a forced cancellation an
  event still queued is evaluated under the cancelled context.
\<close>

theorem late_shutdown_breaks_promises:
  "(\<exists>s :: nat pipe. pi_reach 1 s \<and> pi_panics s = 1) \<and>
   (\<exists>s :: nat pipe. pi_reach 1 s \<and> (7 :: nat, True) \<in> set (pi_output s))"
proof
  note d = pi_at_def pi_init_def resultChanCap_def
  have "pi_reach 1 (pi_at MainServing 1 [] False [] [] False [] [])"
    by (rule pi_next_eq [OF pi_start request]) (simp_all add: d)
  then have "pi_reach 1 (pi_at ShuttingDown 1 [] False [] [] False [] [])"
    by (rule pi_next_eq [OF _ signalled]) (simp_all add: d)
  then have "pi_reach 1 ((pi_at PastShutdown 1 [] False [] [] False [] [])\<lparr>pi_timedOut := True\<rparr>)"
    by (rule pi_next_eq [OF _ shutdown_timeout]) (simp_all add: d)
  then have "pi_reach 1 ((pi_at WaitPool 1 [] True [] [] False [] [])\<lparr>pi_timedOut := True\<rparr>)"
    by (rule pi_next_eq [OF _ close_events]) (simp_all add: d)
  then have "pi_reach 1 ((pi_at WaitPool 0 [] True [] [] False [] [])\<lparr>pi_timedOut := True, pi_panics := 1\<rparr>)"
    by (rule pi_next_eq [OF _ handler_panic [where h = 0]]) (simp_all add: d)
  then show "\<exists>s :: nat pipe. pi_reach 1 s \<and> pi_panics s = 1" by force
  have "pi_reach 1 (pi_at ShuttingDown 0 [7 :: nat] False [] [] False [7 :: nat] [])"
    by (rule pi_next_eq [OF pi_at_accepted signalled]) (simp_all add: d)
  then have "pi_reach 1 (pi_at PastShutdown 0 [7 :: nat] False [] [] False [7 :: nat] [])"
    by (rule pi_next_eq [OF _ shutdown_ok]) (simp_all add: d)
  then have "pi_reach 1 (pi_at WaitPool 0 [7 :: nat] True [] [] False [7 :: nat] [])"
    by (rule pi_next_eq [OF _ close_events]) (simp_all add: d)
  then have "pi_reach 1 (pi_at ForcedWait 0 [7 :: nat] True [] [] True [7 :: nat] [])"
    by (rule pi_next_eq [OF _ force_cancel]) (simp_all add: d)
  then have "pi_reach 1 (pi_at ForcedWait 0 [] True [(7 :: nat, True)] [] True [7 :: nat] [])"
    by (rule pi_next_eq [OF _ worker_take [where e = 7 and es = "[]"]]) (simp_all add: d)
  then have "pi_reach 1 (pi_at ForcedWait 0 [] True [] [(7 :: nat, True)] True [7 :: nat] [])"
    by (rule pi_next_eq [OF _ worker_send [where xs = "[]" and ys = "[]" and b = "(7 :: nat, True)"]]) (simp_all add: d)
  then have "pi_reach 1 (pi_at ForcedWait 0 [] True [] [] True [7 :: nat] [(7 :: nat, True)])"
    by (rule pi_next_eq [OF _ writer_take [where rs = "[]" and r = "(7 :: nat, True)"]]) (simp_all add: d)
  moreover have "(7 :: nat, True) \<in> set (pi_output (pi_at ForcedWait 0 [] True [] [] True [7 :: nat] [(7 :: nat, True)]))"
    by (simp add: d)
  ultimately show "\<exists>s :: nat pipe. pi_reach 1 s \<and> (7 :: nat, True) \<in> set (pi_output s)" by blast
qed



end
