(* ===== verification/Receiver.thy ===== *)
theory Receiver
  imports Text
begin

text \<open>
  \<^verbatim>\<open>jetstream_test/receiver/main.go\<close>: the webhook receiver counts what it is sent. The handlers
  as functions, and the process in which handlers interleave and a signal ends the server.
\<close>

section \<open>The receiver\<close>

record receiver =
  rv_Total :: int
  rv_approve :: int
  rv_block :: int
  rv_review :: int
  rv_ByComposite :: "int strmap"

definition receiver_init :: receiver where
  "receiver_init = \<lparr>rv_Total = 0, rv_approve = 0, rv_block = 0, rv_review = 0, rv_ByComposite = []\<rparr>"

definition incrementVerdict :: "string \<Rightarrow> receiver \<Rightarrow> receiver" where
  "incrementVerdict v s =
     (if v = ''approve'' then s\<lparr>rv_approve := rv_approve s + 1\<rparr>
      else if v = ''block'' then s\<lparr>rv_block := rv_block s + 1\<rparr>
      else if v = ''review'' then s\<lparr>rv_review := rv_review s + 1\<rparr>
      else s)"

definition incrementComposite :: "string \<Rightarrow> string \<Rightarrow> receiver \<Rightarrow> receiver" where
  "incrementComposite eventType v s =
     (let key = eventType @ '':'' @ v
      in s\<lparr>rv_ByComposite := alist_upd (rv_ByComposite s) key
             ((case map_of (rv_ByComposite s) key of None \<Rightarrow> 0 | Some n \<Rightarrow> n) + 1)\<rparr>)"

section \<open>The handlers\<close>

text \<open>
  A request the webhook handler accepts is its decoded event type and final verdict, any other
  an answer. Counting it is a sequence of atomic additions.
\<close>

definition webhook_body :: "string \<Rightarrow> (string + bytes) \<Rightarrow> (bytes \<Rightarrow> string + string \<times> string) \<Rightarrow> int + string \<times> string" where
  "webhook_body method body decode =
     (if method \<noteq> ''POST'' then Inl 405
      else (case body of
        Inl _ \<Rightarrow> Inl 400
      | Inr bs \<Rightarrow> (case decode bs of Inl _ \<Rightarrow> Inl 400 | Inr h \<Rightarrow> Inr h)))"

datatype rv_op = AddTotal | AddVerdict string | AddComposite string string

fun do_op :: "rv_op \<Rightarrow> receiver \<Rightarrow> receiver" where
  "do_op AddTotal s = s\<lparr>rv_Total := rv_Total s + 1\<rparr>"
| "do_op (AddVerdict v) s = incrementVerdict v s"
| "do_op (AddComposite eventType v) s = incrementComposite eventType v s"

definition webhook_ops :: "string \<times> string \<Rightarrow> rv_op list" where
  "webhook_ops h = (case h of (eventType, v) \<Rightarrow>
     [AddTotal, AddVerdict v] @ (if eventType \<noteq> '''' \<and> v \<noteq> '''' then [AddComposite eventType v] else []))"

definition handleWebhook :: "string \<Rightarrow> (string + bytes) \<Rightarrow> (bytes \<Rightarrow> string + string \<times> string) \<Rightarrow> receiver \<Rightarrow> int \<times> receiver" where
  "handleWebhook method body decode s =
     (case webhook_body method body decode of
        Inl status \<Rightarrow> (status, s)
      | Inr h \<Rightarrow> (200, fold do_op (webhook_ops h) s))"

definition handleStats :: "string \<Rightarrow> receiver \<Rightarrow> int + int \<times> int strmap \<times> int strmap" where
  "handleStats method s =
     (if method \<noteq> ''GET'' then Inl 405
      else Inr (rv_Total s,
                [(''approve'', rv_approve s), (''block'', rv_block s), (''review'', rv_review s)],
                rv_ByComposite s))"

datatype rv_response = Status int | StatsBody "int \<times> int strmap \<times> int strmap"

definition rv_mux ::
  "string \<Rightarrow> string \<Rightarrow> (string + bytes) \<Rightarrow> (bytes \<Rightarrow> string + string \<times> string) \<Rightarrow> receiver \<Rightarrow> rv_response \<times> receiver" where
  "rv_mux method path body decode s =
     (if path = ''/webhook'' then (case handleWebhook method body decode s of (st, s') \<Rightarrow> (Status st, s'))
      else if path = ''/stats'' then
        (case handleStats method s of Inl st \<Rightarrow> (Status st, s) | Inr b \<Rightarrow> (StatsBody b, s))
      else (Status 404, s))"

text \<open>The line printed every ten seconds.\<close>

definition receiver_line :: "receiver \<Rightarrow> string" where
  "receiver_line s = print_lines [''[receiver] total='' @ dec_int (rv_Total s) @ '' approve='' @ dec_int (rv_approve s) @
     '' block='' @ dec_int (rv_block s) @ '' review='' @ dec_int (rv_review s)]"

section \<open>The process\<close>

text \<open>
  Handlers run concurrently: a request in flight is the list of additions it has left. A signal
  makes \<^verbatim>\<open>Shutdown\<close> close the listener, whereupon \<^verbatim>\<open>ListenAndServe\<close> returns and with it \<^verbatim>\<open>main\<close>,
  which ends the process: nothing waits for the handlers. \<open>rc_hooks\<close> is the history of the
  requests accepted.
\<close>

datatype rv_phase = Listening | Closing | Exited int

record rv_proc =
  rc_stats :: receiver
  rc_phase :: rv_phase
  rc_flight :: "rv_op list list"
  rc_hooks :: "(string \<times> string) list"

definition rv_proc_init :: rv_proc where
  "rv_proc_init = \<lparr>rc_stats = receiver_init, rc_phase = Listening, rc_flight = [], rc_hooks = []\<rparr>"

datatype rv_event =
    WebhookRequest string "string + bytes"
  | OpDone nat
  | Answered nat
  | SignalReceived
  | ServeClosed
  | ServeFailed string

fun rv_step :: "(bytes \<Rightarrow> string + string \<times> string) \<Rightarrow> rv_event \<Rightarrow> rv_proc \<Rightarrow> rv_proc option" where
  "rv_step decode (WebhookRequest method body) p =
     (if rc_phase p \<noteq> Listening then None
      else (case webhook_body method body decode of
        Inl _ \<Rightarrow> Some p
      | Inr h \<Rightarrow> Some (p\<lparr>rc_flight := rc_flight p @ [webhook_ops h], rc_hooks := rc_hooks p @ [h]\<rparr>)))"
| "rv_step decode (OpDone i) p =
     (if rc_phase p \<in> {Listening, Closing} \<and> i < length (rc_flight p)
      then (case rc_flight p ! i of
              [] \<Rightarrow> None
            | op # rest \<Rightarrow> Some (p\<lparr>rc_stats := do_op op (rc_stats p), rc_flight := (rc_flight p)[i := rest]\<rparr>))
      else None)"
| "rv_step decode (Answered i) p =
     (if rc_phase p \<in> {Listening, Closing} \<and> i < length (rc_flight p) \<and> rc_flight p ! i = []
      then Some (p\<lparr>rc_flight := take i (rc_flight p) @ drop (Suc i) (rc_flight p)\<rparr>) else None)"
| "rv_step decode SignalReceived p =
     (if rc_phase p = Listening then Some (p\<lparr>rc_phase := Closing\<rparr>) else None)"
| "rv_step decode ServeClosed p =
     (if rc_phase p = Closing then Some (p\<lparr>rc_phase := Exited 0\<rparr>) else None)"
| "rv_step decode (ServeFailed e) p =
     (if rc_phase p = Listening then Some (p\<lparr>rc_phase := Exited 1\<rparr>) else None)"

fun rv_run :: "(bytes \<Rightarrow> string + string \<times> string) \<Rightarrow> rv_event list \<Rightarrow> rv_proc \<Rightarrow> rv_proc option" where
  "rv_run decode [] p = Some p"
| "rv_run decode (e # es) p =
     (case rv_step decode e p of None \<Rightarrow> None | Some p' \<Rightarrow> rv_run decode es p')"

section \<open>Counting\<close>

text \<open>The counters by name, and the counter an addition goes to.\<close>

datatype rv_counter = CTotal | CVerdict string | CComposite string

definition known_verdicts :: "string list" where
  "known_verdicts = [''approve'', ''block'', ''review'']"

fun op_counter :: "rv_op \<Rightarrow> rv_counter option" where
  "op_counter AddTotal = Some CTotal"
| "op_counter (AddVerdict v) = (if v \<in> set known_verdicts then Some (CVerdict v) else None)"
| "op_counter (AddComposite eventType v) = Some (CComposite (eventType @ '':'' @ v))"

fun rv_count :: "receiver \<Rightarrow> rv_counter \<Rightarrow> int" where
  "rv_count s CTotal = rv_Total s"
| "rv_count s (CVerdict v) =
     (if v = ''approve'' then rv_approve s else if v = ''block'' then rv_block s
      else if v = ''review'' then rv_review s else 0)"
| "rv_count s (CComposite k) = (case map_of (rv_ByComposite s) k of None \<Rightarrow> 0 | Some n \<Rightarrow> n)"

lemma do_op_count: "rv_count (do_op op s) c = rv_count s c + of_bool (op_counter op = Some c)"
  by (cases op; cases c)
     (auto simp: incrementVerdict_def incrementComposite_def Let_def known_verdicts_def split: option.splits)

definition op_total :: "rv_counter \<Rightarrow> rv_op list \<Rightarrow> int" where
  "op_total c ops = int (length (filter (\<lambda>op. op_counter op = Some c) ops))"

lemma op_total_simps [simp]:
  "op_total c [] = 0" "op_total c (op # ops) = of_bool (op_counter op = Some c) + op_total c ops"
  "op_total c (xs @ ys) = op_total c xs + op_total c ys"
  by (simp_all add: op_total_def)

lemma fold_do_op_count: "rv_count (fold do_op ops s) c = rv_count s c + op_total c ops"
  by (induction ops arbitrary: s) (simp_all add: do_op_count)

lemma flight_advance:
  "i < length ts \<Longrightarrow> ts ! i = op # rest \<Longrightarrow>
     op_total c (concat (ts[i := rest])) + of_bool (op_counter op = Some c) = op_total c (concat ts)"
  by (subst (2) id_take_nth_drop [of i ts]) (simp_all add: upd_conv_take_nth_drop)

lemma flight_answered:
  "i < length ts \<Longrightarrow> ts ! i = [] \<Longrightarrow>
     op_total c (concat (take i ts @ drop (Suc i) ts)) = op_total c (concat ts)"
  by (subst (3) id_take_nth_drop [of i ts]) simp_all

text \<open>What was counted and what the handlers in flight will count are the requests accepted.\<close>

definition rv_inv :: "rv_proc \<Rightarrow> bool" where
  "rv_inv p \<longleftrightarrow> (\<forall>c. rv_count (rc_stats p) c + op_total c (concat (rc_flight p)) =
     op_total c (concat (map webhook_ops (rc_hooks p))))"

lemma rv_step_inv [inv_intros]:
  assumes "rv_inv p" and "rv_step decode e p = Some p'" shows "rv_inv p'"
proof (cases e)
  case (OpDone i)
  then obtain op rest where i: "i < length (rc_flight p)" "rc_flight p ! i = op # rest"
    and p': "p' = p\<lparr>rc_stats := do_op op (rc_stats p), rc_flight := (rc_flight p)[i := rest]\<rparr>"
    using assms(2) by (auto split: if_splits list.splits)
  show ?thesis
    unfolding rv_inv_def
  proof
    fix c
    show "rv_count (rc_stats p') c + op_total c (concat (rc_flight p')) =
        op_total c (concat (map webhook_ops (rc_hooks p')))"
      using assms(1) [unfolded rv_inv_def, rule_format, of c] flight_advance [OF i, of c]
      by (simp add: p' do_op_count split: if_splits)
  qed
next
  case (Answered i)
  with assms show ?thesis
    by (auto simp: rv_inv_def flight_answered simp del: concat_append split: if_splits)
qed (use assms in \<open>auto simp: rv_inv_def split: if_splits sum.splits\<close>)

lemma rv_run_inv: "rv_inv p \<Longrightarrow> rv_run decode es p = Some p' \<Longrightarrow> rv_inv p'"
  by (induction es arbitrary: p) (auto split: option.splits intro: rv_step_inv)

lemma rv_inv_init: "rv_inv rv_proc_init"
proof -
  have "rv_count receiver_init c = 0" for c by (cases c) (simp_all add: receiver_init_def)
  then show ?thesis by (simp add: rv_inv_def rv_proc_init_def)
qed

lemma webhook_ops_total:
  "op_total c (webhook_ops h) = (case c of
     CTotal \<Rightarrow> 1
   | CVerdict v \<Rightarrow> of_bool (snd h = v \<and> v \<in> set known_verdicts)
   | CComposite k \<Rightarrow> of_bool (fst h \<noteq> '''' \<and> snd h \<noteq> '''' \<and> fst h @ '':'' @ snd h = k))"
  by (cases h) (auto simp: webhook_ops_def split: rv_counter.splits)

lemma hooks_total:
  "op_total CTotal (concat (map webhook_ops hs)) = int (length hs)"
  "v \<in> set known_verdicts \<Longrightarrow>
     op_total (CVerdict v) (concat (map webhook_ops hs)) = int (length (filter (\<lambda>h. snd h = v) hs))"
  "op_total (CComposite k) (concat (map webhook_ops hs)) =
     int (length (filter (\<lambda>h. fst h \<noteq> '''' \<and> snd h \<noteq> '''' \<and> fst h @ '':'' @ snd h = k) hs))"
  by (induction hs) (simp_all add: webhook_ops_total)

text \<open>Served one at a time, the handler adds its request to the history.\<close>

lemma handleWebhook_count:
  assumes "handleWebhook method body decode s = (status, s')"
  shows "status = 200 \<and> (\<exists>h. webhook_body method body decode = Inr h \<and>
           (\<forall>c. rv_count s' c = rv_count s c + op_total c (webhook_ops h))) \<or>
         status \<in> {400, 405} \<and> s' = s"
  using assms
  by (auto simp: handleWebhook_def webhook_body_def fold_do_op_count split: sum.splits if_splits)

section \<open>Properties\<close>

text \<open>
  C37: whatever the interleaving of concurrent webhook handlers, the receiver's counters never
  exceed what was sent and, once no handler is in flight, are exact: the total is the number
  of accepted requests, each verdict counter the number with that verdict, and each composite
  counter the number with that event type and verdict.
\<close>

theorem receiver_counts_exactly:
  assumes "rv_run decode es rv_proc_init = Some p"
  shows "rv_count (rc_stats p) c \<le> op_total c (concat (map webhook_ops (rc_hooks p))) \<and>
    (rc_flight p = [] \<longrightarrow>
       rv_Total (rc_stats p) = int (length (rc_hooks p)) \<and>
       rv_approve (rc_stats p) = int (length (filter (\<lambda>h. snd h = ''approve'') (rc_hooks p))) \<and>
       rv_block (rc_stats p) = int (length (filter (\<lambda>h. snd h = ''block'') (rc_hooks p))) \<and>
       rv_review (rc_stats p) = int (length (filter (\<lambda>h. snd h = ''review'') (rc_hooks p))) \<and>
       (case map_of (rv_ByComposite (rc_stats p)) k of None \<Rightarrow> 0 | Some n \<Rightarrow> n) =
         int (length (filter (\<lambda>h. fst h \<noteq> '''' \<and> snd h \<noteq> '''' \<and> fst h @ '':'' @ snd h = k) (rc_hooks p))))"
proof -
  have inv: "rv_count (rc_stats p) c + op_total c (concat (rc_flight p)) =
      op_total c (concat (map webhook_ops (rc_hooks p)))" for c
    using rv_run_inv [OF rv_inv_init assms] by (simp add: rv_inv_def)
  have "0 \<le> op_total c (concat (rc_flight p))" by (simp add: op_total_def)
  with inv [of c] have "rv_count (rc_stats p) c \<le> op_total c (concat (map webhook_ops (rc_hooks p)))"
    by linarith
  moreover have "''approve'' \<in> set known_verdicts" "''block'' \<in> set known_verdicts" "''review'' \<in> set known_verdicts"
    by (simp_all add: known_verdicts_def)
  ultimately show ?thesis
    using inv [of CTotal] inv [of "CVerdict ''approve''"] inv [of "CVerdict ''block''"]
      inv [of "CVerdict ''review''"] inv [of "CComposite k"]
    by (auto simp: hooks_total)
qed

definition sample_decode :: "bytes \<Rightarrow> string + string \<times> string" where
  "sample_decode bs = (if bs = ''p'' then Inr (''post'', ''block'') else if bs = ''q'' then Inr (''post'', ''approve'')
     else Inl ''bad json'')"

definition sample_hooks :: "rv_event list" where
  "sample_hooks = [WebhookRequest ''POST'' (Inr ''p''), WebhookRequest ''POST'' (Inr ''q''),
     WebhookRequest ''POST'' (Inr ''x''), OpDone 1, OpDone 0, OpDone 1, OpDone 1, Answered 1, OpDone 0, OpDone 0,
     Answered 0]"

theorem receiver_counts_exactly_witness:
  "\<exists>p. rv_run sample_decode sample_hooks rv_proc_init = Some p \<and> rv_Total (rc_stats p) = 2 \<and>
     rv_block (rc_stats p) = 1"
proof -
  have "\<exists>p. rv_run sample_decode sample_hooks rv_proc_init = Some p \<and> rc_flight p = [] \<and>
      rc_hooks p = [(''post'', ''block''), (''post'', ''approve'')]"
    by (simp add: sample_hooks_def sample_decode_def rv_proc_init_def receiver_init_def webhook_body_def
        webhook_ops_def incrementVerdict_def incrementComposite_def Let_def)
  then obtain p where "rv_run sample_decode sample_hooks rv_proc_init = Some p" "rc_flight p = []"
    "rc_hooks p = [(''post'', ''block''), (''post'', ''approve'')]" by blast
  with receiver_counts_exactly [OF this(1), of CTotal "''k''"] show ?thesis by simp
qed

text \<open>
  A signal ends the process although a request it accepted is not counted or answered yet: the
  five seconds given to \<^verbatim>\<open>Shutdown\<close> are not waited for.
\<close>

lemma receiver_exit_abandons_requests:
  "\<exists>p. rv_run sample_decode [WebhookRequest ''POST'' (Inr ''p''), SignalReceived, ServeClosed] rv_proc_init = Some p \<and>
     rc_phase p = Exited 0 \<and> length (rc_hooks p) = 1 \<and> rv_Total (rc_stats p) = 0 \<and>
     (\<forall>e. rv_step sample_decode e p = None)"
proof -
  let ?p = "rv_proc_init\<lparr>rc_flight := [webhook_ops (''post'', ''block'')], rc_hooks := [(''post'', ''block'')],
    rc_phase := Exited 0\<rparr>"
  have "rv_step sample_decode e ?p = None" for e by (cases e) simp_all
  then show ?thesis
    by (intro exI [of _ ?p]) (simp add: rv_proc_init_def receiver_init_def sample_decode_def webhook_body_def)
qed

end
