(* ===== verification/Validator.thy ===== *)
theory Validator
  imports Stats Receiver "HOL-Library.List_Lexorder"
begin

text \<open>
  \<^verbatim>\<open>jetstream_test/validate/main.go\<close>: the counts of the shim, the database and the receiver are
  fetched, compared and reported. The answers of the receiver and of the database are
  parameters. The lemmas show when the comparison passes, and that with a database that counts
  correctly it says what it is meant to say.
\<close>

section \<open>What is compared\<close>

record receiverStats =
  rs_Total :: int
  rs_ByVerdict :: "int strmap"
  rs_ByComposite :: "int strmap"

record duckDBResults =
  dr_Total :: int
  dr_ByVerdict :: "int strmap"
  dr_ByComposite :: "int strmap"

datatype fetch_error = GetFailed string | BadStatus int | DecodeFailed string

definition fetchReceiverStats ::
  "string + int \<times> bytes \<Rightarrow> (bytes \<Rightarrow> string + receiverStats) \<Rightarrow> fetch_error + receiverStats" where
  "fetchReceiverStats resp decode =
     (case resp of
        Inl e \<Rightarrow> Inl (GetFailed e)
      | Inr (status, body) \<Rightarrow>
          if status \<noteq> 200 then Inl (BadStatus status)
          else (case decode body of Inl e \<Rightarrow> Inl (DecodeFailed e) | Inr s \<Rightarrow> Inr s))"

text \<open>
  A query fails, or yields rows, each of which may fail to be scanned, and an error the
  iteration may have ended with.
\<close>

type_synonym 'r cursor = "string + (string + 'r) list \<times> string option"

record duckdb =
  dq_open :: "string option"
  dq_count :: "string + int"
  dq_verdicts :: "(string \<times> int) cursor"
  dq_composite :: "(string \<times> string \<times> int) cursor"

datatype query_stage = QueryStage | ScanStage | IterateStage

datatype query_error =
    OpenFailed string
  | CountFailed string
  | VerdictsFailed query_stage string
  | CompositeFailed query_stage string

fun scan_rows :: "('r \<Rightarrow> int strmap \<Rightarrow> int strmap) \<Rightarrow> (string + 'r) list \<Rightarrow> int strmap \<Rightarrow> string + int strmap" where
  "scan_rows put [] m = Inr m"
| "scan_rows put (Inl e # rows) m = Inl e"
| "scan_rows put (Inr r # rows) m = scan_rows put rows (put r m)"

definition read_cursor ::
  "(query_stage \<Rightarrow> string \<Rightarrow> query_error) \<Rightarrow> ('r \<Rightarrow> int strmap \<Rightarrow> int strmap) \<Rightarrow> 'r cursor \<Rightarrow> query_error + int strmap" where
  "read_cursor mk put c =
     (case c of
        Inl e \<Rightarrow> Inl (mk QueryStage e)
      | Inr (rows, err) \<Rightarrow>
          (case scan_rows put rows [] of
             Inl e \<Rightarrow> Inl (mk ScanStage e)
           | Inr m \<Rightarrow> (case err of Some e \<Rightarrow> Inl (mk IterateStage e) | None \<Rightarrow> Inr m)))"

definition put_verdict :: "string \<times> int \<Rightarrow> int strmap \<Rightarrow> int strmap" where
  "put_verdict r m = (case r of (v, cnt) \<Rightarrow> alist_upd m v cnt)"

definition put_composite :: "string \<times> string \<times> int \<Rightarrow> int strmap \<Rightarrow> int strmap" where
  "put_composite r m = (case r of (eventType, v, cnt) \<Rightarrow> alist_upd m (eventType @ '':'' @ v) cnt)"

definition queryDuckDB :: "duckdb \<Rightarrow> query_error + duckDBResults" where
  "queryDuckDB q =
     (case dq_open q of
        Some e \<Rightarrow> Inl (OpenFailed e)
      | None \<Rightarrow>
     (case dq_count q of
        Inl e \<Rightarrow> Inl (CountFailed e)
      | Inr n \<Rightarrow>
     (case read_cursor VerdictsFailed put_verdict (dq_verdicts q) of
        Inl e \<Rightarrow> Inl e
      | Inr bv \<Rightarrow>
     (case read_cursor CompositeFailed put_composite (dq_composite q) of
        Inl e \<Rightarrow> Inl e
      | Inr bc \<Rightarrow> Inr \<lparr>dr_Total = n, dr_ByVerdict = bv, dr_ByComposite = bc\<rparr>))))"

section \<open>The report\<close>

text \<open>The share of \<open>part\<close> in \<open>whole\<close> in percent, as \<^verbatim>\<open>float64\<close>.\<close>

definition percent :: "int \<Rightarrow> int \<Rightarrow> rat" where
  "percent part whole =
     (if whole > 0 then rne (rne (rne (of_int part) / rne (of_int whole)) * 100) else 0)"

text \<open>\<^verbatim>\<open>%.1f\<close>: the nearest tenth, ties to even, with its sign.\<close>

definition fixed1 :: "rat \<Rightarrow> string" where
  "fixed1 x = (let t = rhe (\<bar>x\<bar> * 10) in
     (if x < 0 then ''-'' else '''') @ dec_int (t div 10) @ ''.'' @ dec_int (t mod 10))"

definition lookup0 :: "int strmap \<Rightarrow> string \<Rightarrow> int" where
  "lookup0 m k = (case map_of m k of None \<Rightarrow> 0 | Some n \<Rightarrow> n)"

datatype fail_reason = EventsLost int | WebhookLoss int | VerdictSum int

definition validate_checks :: "int \<Rightarrow> duckDBResults \<Rightarrow> receiverStats \<Rightarrow> fail_reason list" where
  "validate_checks shimSent db recv =
     (let dropped = shimSent - dr_Total db; missed = dr_Total db - rs_Total recv;
          verdictSum = sum_list (map snd (dr_ByVerdict db)) in
      (if dropped \<noteq> 0 then [EventsLost dropped] else []) @
      (if dr_Total db > 0 \<and> percent missed (dr_Total db) > 1 then [WebhookLoss missed] else []) @
      (if verdictSum \<noteq> dr_Total db then [VerdictSum verdictSum] else []))"

fun reason_text :: "int \<Rightarrow> duckDBResults \<Rightarrow> fail_reason \<Rightarrow> string" where
  "reason_text shimSent db (EventsLost n) = dec_int n @ '' events lost in pipeline (shim sent '' @
     dec_int shimSent @ '', DuckDB has '' @ dec_int (dr_Total db) @ '')''"
| "reason_text shimSent db (WebhookLoss n) = ''webhook loss '' @ fixed1 (percent n (dr_Total db)) @
     ''% exceeds 1% threshold ('' @ dec_int n @ '' missed of '' @ dec_int (dr_Total db) @ '')''"
| "reason_text shimSent db (VerdictSum n) = ''verdict breakdown sum '' @ dec_int n @ '' != DuckDB total '' @
     dec_int (dr_Total db)"

definition counts_lines :: "int \<Rightarrow> duckDBResults \<Rightarrow> receiverStats \<Rightarrow> string list" where
  "counts_lines shimSent db recv =
     (let missed = dr_Total db - rs_Total recv in
      [''Pipeline Counts:'',
       ''  Shim sent:         '' @ dec_int shimSent,
       ''  DuckDB results:    '' @ dec_int (dr_Total db) @ ''  ('' @ dec_int (shimSent - dr_Total db) @ '' dropped)'',
       ''  Webhooks received: '' @ dec_int (rs_Total recv) @ ''  ('' @ dec_int missed @ '' missed, '' @
         fixed1 (percent missed (dr_Total db)) @ ''%)''])"

definition verdict_line :: "duckDBResults \<Rightarrow> string \<Rightarrow> string" where
  "verdict_line db v = ''  '' @ pad_right 8 (v @ '':'') @ '' '' @ dec_int (lookup0 (dr_ByVerdict db) v) @ ''  ('' @
     pad_left 4 (fixed1 (percent (lookup0 (dr_ByVerdict db) v) (dr_Total db))) @ ''%)''"

definition composite_line :: "duckDBResults \<Rightarrow> string \<Rightarrow> string" where
  "composite_line db k = ''  '' @ pad_right 20 (k @ '':'') @ '' '' @ dec_int (lookup0 (dr_ByComposite db) k)"

definition webhook_line :: "receiverStats \<Rightarrow> string \<Rightarrow> string" where
  "webhook_line recv v = ''  '' @ pad_right 8 (v @ '':'') @ '' '' @ dec_int (lookup0 (rs_ByVerdict recv) v)"

text \<open>\<^verbatim>\<open>printReport\<close>: what it prints, and whether the checks passed.\<close>

definition validate_report :: "int \<Rightarrow> duckDBResults \<Rightarrow> receiverStats \<Rightarrow> string list \<times> bool" where
  "validate_report shimSent db recv =
     (let reasons = validate_checks shimSent db recv in
      ([''=== Jetstream Test Results ==='', ''''] @
       counts_lines shimSent db recv @ [''''] @
       [''Verdict Breakdown (DuckDB):''] @ map (verdict_line db) known_verdicts @ [''''] @
       [''Event Type x Verdict (DuckDB):''] @
         map (composite_line db) (sort (map fst (dr_ByComposite db))) @ [''''] @
       [''Webhook Verdict Breakdown:''] @ map (webhook_line recv) known_verdicts @ [''''] @
       (if reasons = [] then [''Status: PASS (no pipeline drops, webhook loss < 1%)'']
        else ''Status: FAIL'' # map (\<lambda>r. ''  - '' @ reason_text shimSent db r) reasons),
       reasons = []))"

text \<open>The exit status of the command.\<close>

definition validate_main :: "int \<Rightarrow> fetch_error + receiverStats \<Rightarrow> query_error + duckDBResults \<Rightarrow> int" where
  "validate_main shimSent fetched queried =
     (if shimSent = 0 then 1
      else (case fetched of
        Inl _ \<Rightarrow> 1
      | Inr recv \<Rightarrow>
          (case queried of
             Inl _ \<Rightarrow> 1
           | Inr db \<Rightarrow> if snd (validate_report shimSent db recv) then 0 else 1)))"

section \<open>Comparing with one percent\<close>

text \<open>0.01 rounds to \<open>5764607523034235 / 2 ^ 59\<close>, and 100 times that rounds to 1.\<close>

lemma rne_cent: "rne (rne (1 / 100) * 100) = 1"
proof -
  have p59: "(2 :: rat) powi (- 59) = 1 / 576460752303423488"
    and p52: "(2 :: rat) powi (- 52) = 1 / 4503599627370496"
    by (simp_all add: power_int_def power_one_over)
  have l: "log2_floor (1 / 100) = - 7"
    by (rule log2_floor_unique) (simp_all add: power_int_def power_one_over)
  have f: "\<lfloor>576460752303423488 / 100 :: rat\<rfloor> = 5764607523034234"
    by (simp add: floor_eq_iff)
  have "rhe (1 / 100 / 2 powi (- 59)) = 5764607523034235"
    unfolding p59 using f by (simp add: rhe_def Let_def)
  then have c: "rne (1 / 100) = 5764607523034235 / 576460752303423488"
    by (simp add: rne_def rne_pos_def l Let_def p59)
  let ?q = "144115188075855875 / 144115188075855872 :: rat"
  have l2: "log2_floor ?q = 0"
    by (rule log2_floor_unique) (simp_all add: power_int_def)
  have f2: "\<lfloor>?q * 4503599627370496\<rfloor> = 4503599627370496"
    by (simp add: floor_eq_iff)
  have "rhe (?q / 2 powi (- 52)) = 4503599627370496"
    unfolding p52 using f2 by (simp add: rhe_def Let_def)
  then have "rne_pos ?q = 1"
    unfolding rne_pos_def Let_def l2 using p52 by simp
  then have "rne ?q = 1" by (simp add: rne_def)
  moreover have "rne (1 / 100) * 100 = ?q" unfolding c by simp
  ultimately show ?thesis by (simp only:)
qed

lemma rne_le_one: "x \<le> 1 / 100 \<Longrightarrow> rne (rne x * 100) \<le> 1"
proof -
  assume "x \<le> 1 / 100"
  then have "rne x \<le> rne (1 / 100)" by (rule ieee.fl_mono)
  then have "rne (rne x * 100) \<le> rne (rne (1 / 100) * 100)" by (intro ieee.fl_mono) simp
  also have "rne (rne (1 / 100) * 100) = 1" by (rule rne_cent)
  finally show ?thesis .
qed

text \<open>A value a little above one percent is told apart from it: the smallest gap to bridge.\<close>

definition above_cent :: rat where "above_cent = of_int 5764607523038331 * 2 powi (- 59)"

lemma rne_above_cent: "1 < rne (rne above_cent * 100)"
proof -
  have c: "rne above_cent = above_cent"
    unfolding above_cent_def by (rule rne_exact) simp_all
  have g: "of_int 2199023255553 * 2 powi (- 41) \<le> above_cent * 100" "1 < of_int 2199023255553 * (2 :: rat) powi (- 41)"
    by (simp_all add: above_cent_def power_int_def power_one_over)
  have "of_int 2199023255553 * 2 powi (- 41) = rne (of_int 2199023255553 * 2 powi (- 41))"
    by (rule rne_exact [symmetric]) simp_all
  also have "\<dots> \<le> rne (above_cent * 100)" using g(1) by (rule ieee.fl_mono)
  finally show ?thesis unfolding c by (rule less_le_trans [OF g(2)])
qed

text \<open>For up to \<open>2 ^ 40\<close> results the rounded comparison with one percent is exact.\<close>

lemma percent_exact:
  assumes "0 < whole" and "whole \<le> 2 ^ 40" and "part \<le> whole"
  shows "percent part whole > 1 \<longleftrightarrow> 100 * part > whole"
proof -
  have w: "rne (of_int whole) = of_int whole" using rne_of_int [of whole] assms(1,2) by simp
  have wpos: "0 < (of_int whole :: rat)" using assms(1) by simp
  show ?thesis
  proof (cases "0 < part")
    case False
    then have "rne (of_int part) \<le> rne 0" by (intro ieee.fl_mono) simp
    then have "rne (of_int part) / of_int whole \<le> 0"
      using wpos by (simp add: divide_le_0_iff ieee.fl_zero)
    then have "rne (of_int part) / of_int whole \<le> 1 / 100" by (rule order_trans) simp
    then have "rne (rne (rne (of_int part) / of_int whole) * 100) \<le> 1" by (rule rne_le_one)
    with False assms(1) w show ?thesis by (simp add: percent_def)
  next
    case True
    then have p: "rne (of_int part) = of_int part" using rne_of_int [of part] assms by simp
    have pct: "percent part whole = rne (rne (of_int part / of_int whole) * 100)"
      using assms(1) by (simp add: percent_def p w)
    show ?thesis
    proof (cases "100 * part > whole")
      case False
      then have "of_int (100 * part) \<le> (of_int whole :: rat)" by (simp only: of_int_le_iff)
      then have "of_int part / of_int whole \<le> (1 / 100 :: rat)" using wpos by (simp add: pos_divide_le_eq)
      from rne_le_one [OF this] False show ?thesis by (simp add: pct)
    next
      case gt: True
      then have "of_int (whole + 1) \<le> (of_int (100 * part) :: rat)" by (simp only: of_int_le_iff)
      moreover have "above_cent * of_int whole \<le> (of_int whole + 1) / 100"
        using assms(2) by (simp add: above_cent_def power_int_def power_one_over field_simps flip: of_int_le_iff)
      ultimately have "above_cent * of_int whole \<le> of_int part" by simp
      then have "above_cent \<le> of_int part / of_int whole" using wpos by (simp add: pos_le_divide_eq)
      then have "rne (rne above_cent * 100) \<le> percent part whole"
        unfolding pct by (intro ieee.fl_mono mult_right_mono) simp_all
      with rne_above_cent gt show ?thesis by simp
    qed
  qed
qed

section \<open>A database that counts\<close>

text \<open>The documented behaviour of the three queries on the rows of the table: counting and grouping.\<close>

definition sql_laws :: "(string \<times> string) list \<Rightarrow> duckdb \<Rightarrow> bool" where
  "sql_laws rows q \<longleftrightarrow>
     dq_open q = None \<and> dq_count q = Inr (int (length rows)) \<and>
     (\<exists>gs. dq_verdicts q = Inr (map Inr gs, None) \<and> distinct (map fst gs) \<and>
        set gs = (\<lambda>v. (v, int (length (filter (\<lambda>r. snd r = v) rows)))) ` snd ` set rows) \<and>
     (\<exists>gs. dq_composite q = Inr (map Inr gs, None) \<and> distinct (map (\<lambda>(t, v, n). (t, v)) gs) \<and>
        set gs = (\<lambda>(t, v). (t, v, int (length (filter (\<lambda>r. r = (t, v)) rows)))) ` set rows)"

lemma scan_rows_ok: "scan_rows put (map Inr gs) m = Inr (fold put gs m)"
  by (induction gs arbitrary: m) simp_all

lemma read_cursor_ok: "read_cursor mk put (Inr (map Inr gs, None)) = Inr (fold put gs [])"
  by (simp add: read_cursor_def scan_rows_ok)

lemma alist_upd_fresh: "k \<notin> fst ` set m \<Longrightarrow> alist_upd m k v = m @ [(k, v)]"
  by (induction m k v rule: alist_upd.induct) auto

lemma fold_put_verdict: "distinct (map fst (m @ gs)) \<Longrightarrow> fold put_verdict gs m = m @ gs"
proof (induction gs arbitrary: m)
  case (Cons g gs)
  then have "put_verdict g m = m @ [g]"
    by (cases g) (auto simp: put_verdict_def intro!: alist_upd_fresh)
  with Cons.IH [of "m @ [g]"] Cons.prems show ?case by simp
qed simp

definition composite_entry :: "string \<times> string \<times> int \<Rightarrow> string \<times> int" where
  "composite_entry g = (case g of (t, v, n) \<Rightarrow> (t @ '':'' @ v, n))"

lemma fold_put_composite:
  "distinct (map fst (m @ map composite_entry gs)) \<Longrightarrow> fold put_composite gs m = m @ map composite_entry gs"
proof (induction gs arbitrary: m)
  case (Cons g gs)
  then have "put_composite g m = m @ [composite_entry g]"
    by (cases g) (auto simp: put_composite_def composite_entry_def intro!: alist_upd_fresh)
  with Cons.IH [of "m @ [composite_entry g]"] Cons.prems show ?case by simp
qed simp

text \<open>Groups partition the rows.\<close>

lemma sum_of_bool_distinct: "distinct vs \<Longrightarrow> sum_list (map (\<lambda>v. of_bool (x = v)) vs) = (of_bool (x \<in> set vs) :: int)"
  by (induction vs) auto

lemma sum_groups:
  assumes "distinct vs" and "snd ` set rows \<subseteq> set vs"
  shows "sum_list (map (\<lambda>v. int (length (filter (\<lambda>r. snd r = v) rows))) vs) = int (length rows)"
  using assms(2)
proof (induction rows)
  case (Cons r rows)
  have "(\<lambda>v. int (length (filter (\<lambda>r. snd r = v) (r # rows)))) =
      (\<lambda>v. of_bool (snd r = v) + int (length (filter (\<lambda>r. snd r = v) rows)))" by auto
  then have "sum_list (map (\<lambda>v. int (length (filter (\<lambda>r. snd r = v) (r # rows)))) vs) =
      sum_list (map (\<lambda>v. of_bool (snd r = v)) vs) + int (length rows)"
    using Cons by (simp only: sum_list_addf) simp
  with sum_of_bool_distinct [OF assms(1), of "snd r"] Cons.prems show ?case by simp
qed simp

lemma composite_key_inj:
  assumes "t @ '':'' @ v = t' @ '':'' @ v'" and "CHR '':'' \<notin> set v" and "CHR '':'' \<notin> set v'"
  shows "t = t' \<and> v = v'"
proof -
  have tw: "takeWhile (\<lambda>c. c \<noteq> CHR '':'') (rev (s @ '':'' @ w)) = rev w" if "CHR '':'' \<notin> set w" for s w
    using that by (simp add: takeWhile_append)
  from assms(2,3) tw [of v t] tw [of v' t'] have "v = v'" unfolding assms(1) by simp
  with assms(1) show ?thesis by simp
qed

text \<open>What the validator reads out of a database that counts.\<close>

lemma queryDuckDB_counts:
  assumes "sql_laws rows q" and "list_all (\<lambda>r. CHR '':'' \<notin> set (snd r)) rows"
  obtains db where "queryDuckDB q = Inr db" and "dr_Total db = int (length rows)"
    and "sum_list (map snd (dr_ByVerdict db)) = int (length rows)"
    and "\<And>v. lookup0 (dr_ByVerdict db) v = int (length (filter (\<lambda>r. snd r = v) rows))"
    and "\<And>t v. CHR '':'' \<notin> set v \<Longrightarrow>
      lookup0 (dr_ByComposite db) (t @ '':'' @ v) = int (length (filter (\<lambda>r. r = (t, v)) rows))"
proof -
  from assms(1) obtain gs hs where
    q: "dq_open q = None" "dq_count q = Inr (int (length rows))" "dq_verdicts q = Inr (map Inr gs, None)"
      "dq_composite q = Inr (map Inr hs, None)"
    and gs: "distinct (map fst gs)"
      "set gs = (\<lambda>v. (v, int (length (filter (\<lambda>r. snd r = v) rows)))) ` snd ` set rows"
    and hs: "distinct (map (\<lambda>(t, v, n). (t, v)) hs)"
      "set hs = (\<lambda>(t, v). (t, v, int (length (filter (\<lambda>r. r = (t, v)) rows)))) ` set rows"
    unfolding sql_laws_def by blast
  have colon: "CHR '':'' \<notin> set v" if "(t, v, n) \<in> set hs" for t v n
    using that hs(2) assms(2) by (auto simp: list_all_iff)
  have "distinct (map fst (map composite_entry hs))"
  proof -
    let ?key = "\<lambda>(t, v). t @ '':'' @ v" and ?group = "\<lambda>(t, v, n). (t, v)"
    have "inj_on ?key (set (map ?group hs))"
    proof (rule inj_onI)
      fix g h assume gh: "g \<in> set (map ?group hs)" "h \<in> set (map ?group hs)" and eq: "?key g = ?key h"
      obtain t v n t' v' n' where mem: "(t, v, n) \<in> set hs" "(t', v', n') \<in> set hs" "g = (t, v)" "h = (t', v')"
        using gh by auto
      from eq have "t @ '':'' @ v = t' @ '':'' @ v'" by (simp add: mem)
      from composite_key_inj [OF this colon [OF mem(1)] colon [OF mem(2)]] show "g = h" by (simp add: mem)
    qed
    with hs(1) have "distinct (map ?key (map ?group hs))" by (simp only: distinct_map)
    moreover have "map fst (map composite_entry hs) = map ?key (map ?group hs)"
      by (auto simp: composite_entry_def)
    ultimately show ?thesis by (simp only:)
  qed
  let ?db = "\<lparr>dr_Total = int (length rows), dr_ByVerdict = gs, dr_ByComposite = map composite_entry hs\<rparr>"
  show thesis
  proof (rule that [of ?db])
    show "queryDuckDB q = Inr ?db"
      using fold_put_verdict [of "[]" gs] fold_put_composite [of "[]" hs] gs(1)
        \<open>distinct (map fst (map composite_entry hs))\<close>
      by (simp add: queryDuckDB_def q read_cursor_ok)
    have "map snd gs = map (\<lambda>v. int (length (filter (\<lambda>r. snd r = v) rows))) (map fst gs)"
      using gs(2) by (auto simp: map_eq_conv)
    then have "sum_list (map snd gs) = sum_list (map (\<lambda>v. int (length (filter (\<lambda>r. snd r = v) rows))) (map fst gs))"
      by (rule arg_cong)
    also have "\<dots> = int (length rows)"
      by (rule sum_groups) (use gs in \<open>force simp: image_image\<close>)+
    finally show "sum_list (map snd (dr_ByVerdict ?db)) = int (length rows)" by simp
    fix v
    show "lookup0 (dr_ByVerdict ?db) v = int (length (filter (\<lambda>r. snd r = v) rows))"
    proof (cases "v \<in> snd ` set rows")
      case True
      with gs(2) have "(v, int (length (filter (\<lambda>r. snd r = v) rows))) \<in> set gs" by blast
      with gs(1) have "map_of gs v = Some (int (length (filter (\<lambda>r. snd r = v) rows)))" by simp
      then show ?thesis by (simp add: lookup0_def)
    next
      case False
      then have "filter (\<lambda>r. snd r = v) rows = []" by (auto simp: filter_empty_conv)
      moreover have "v \<notin> fst ` set gs" using False by (simp add: gs(2) image_image)
      then have "map_of gs v = None" by (simp add: map_of_eq_None_iff)
      ultimately show ?thesis by (simp add: lookup0_def)
    qed
    fix t assume v: "CHR '':'' \<notin> set v"
    show "lookup0 (dr_ByComposite ?db) (t @ '':'' @ v) = int (length (filter (\<lambda>r. r = (t, v)) rows))"
    proof (cases "(t, v) \<in> set rows")
      case True
      then have "(t, v, int (length (filter (\<lambda>r. r = (t, v)) rows))) \<in> set hs" unfolding hs(2) by force
      then have "(t @ '':'' @ v, int (length (filter (\<lambda>r. r = (t, v)) rows))) \<in> set (map composite_entry hs)"
        by (force simp: composite_entry_def)
      with \<open>distinct (map fst (map composite_entry hs))\<close>
      have "map_of (map composite_entry hs) (t @ '':'' @ v) = Some (int (length (filter (\<lambda>r. r = (t, v)) rows)))"
        by (rule map_of_is_SomeI)
      then show ?thesis by (simp add: lookup0_def)
    next
      case False
      then have "filter (\<lambda>r. r = (t, v)) rows = []" by (auto simp: filter_empty_conv)
      moreover have "t @ '':'' @ v \<notin> fst ` set (map composite_entry hs)"
      proof
        assume "t @ '':'' @ v \<in> fst ` set (map composite_entry hs)"
        then obtain t' v' n where "(t', v', n) \<in> set hs" "t @ '':'' @ v = t' @ '':'' @ v'"
          by (force simp: composite_entry_def)
        with composite_key_inj [of t v t' v'] v colon hs(2) False show False by auto
      qed
      then have "map_of (map composite_entry hs) (t @ '':'' @ v) = None" by (simp add: map_of_eq_None_iff)
      ultimately show ?thesis by (simp add: lookup0_def)
    qed
  qed simp
qed

lemma validate_main_zero:
  "validate_main shimSent (Inr recv) (Inr db) = 0 \<longleftrightarrow> shimSent \<noteq> 0 \<and> validate_checks shimSent db recv = []"
  by (simp add: validate_main_def validate_report_def Let_def)

text \<open>The verdict over a table that is counted correctly.\<close>

lemma validation_decides:
  assumes "sql_laws rows q" and "list_all (\<lambda>r. known_verdict (snd r)) rows" and "length rows \<le> 2 ^ 40"
    and "0 \<le> rs_Total recv"
  shows "validate_main shimSent (Inr recv) (queryDuckDB q) = 0 \<longleftrightarrow>
    shimSent \<noteq> 0 \<and> shimSent = int (length rows) \<and>
    100 * (int (length rows) - rs_Total recv) \<le> int (length rows)"
proof -
  have "list_all (\<lambda>r. CHR '':'' \<notin> set (snd r)) rows"
    using assms(2) by (auto simp: list_all_iff known_verdict_def verdict_defs)
  from queryDuckDB_counts [OF assms(1) this] obtain db where db: "queryDuckDB q = Inr db"
    "dr_Total db = int (length rows)" "sum_list (map snd (dr_ByVerdict db)) = int (length rows)" by metis
  have "int (length rows) \<le> 2 ^ 40" using assms(3) by (metis of_nat_le_iff of_nat_numeral of_nat_power)
  then have "percent (int (length rows) - rs_Total recv) (int (length rows)) > 1 \<longleftrightarrow>
      100 * (int (length rows) - rs_Total recv) > int (length rows)" if "rows \<noteq> []"
    using percent_exact [of "int (length rows)" "int (length rows) - rs_Total recv"] that assms(4) by simp
  then show ?thesis
    using assms(4) by (cases "rows = []") (auto simp: validate_main_zero db validate_checks_def Let_def)
qed

section \<open>Properties\<close>

text \<open>
  C38: over a table the database counts correctly, of up to \<open>2 ^ 40\<close> rows with known verdicts,
  the validation succeeds exactly when the shim sent something, the table holds as many rows
  as it sent, and at most one percent of them are missing from the receiver: the rounding of
  \<^verbatim>\<open>float64\<close> never decides, and the sum check cannot fail.
\<close>

theorem validation_exact:
  assumes "sql_laws rows q" and "list_all (\<lambda>r. known_verdict (snd r)) rows" and "length rows \<le> 2 ^ 40"
    and "0 \<le> rs_Total recv"
  shows "validate_main shimSent (Inr recv) (queryDuckDB q) = 0 \<longleftrightarrow>
    shimSent \<noteq> 0 \<and> shimSent = int (length rows) \<and>
    100 * (int (length rows) - rs_Total recv) \<le> int (length rows)"
  using assms by (rule validation_decides)

definition sample_rows :: "(string \<times> string) list" where
  "sample_rows = [(''like'', VerdictApprove), (''post'', VerdictBlock), (''post'', VerdictApprove)]"

text \<open>A database that counts any table.\<close>

definition count_db :: "(string \<times> string) list \<Rightarrow> duckdb" where
  "count_db rows = \<lparr>dq_open = None, dq_count = Inr (int (length rows)),
     dq_verdicts = Inr (map Inr (map (\<lambda>v. (v, int (length (filter (\<lambda>r. snd r = v) rows))))
       (remdups (map snd rows))), None),
     dq_composite = Inr (map Inr (map (\<lambda>(t, v). (t, v, int (length (filter (\<lambda>r. r = (t, v)) rows))))
       (remdups rows)), None)\<rparr>"

lemma count_db_laws: "sql_laws rows (count_db rows)"
proof -
  have "map (\<lambda>(t, v, n). (t, v)) (map (\<lambda>(t, v). (t, v, int (length (filter (\<lambda>r. r = (t, v)) rows)))) (remdups rows)) =
      remdups rows" by (simp add: comp_def case_prod_beta)
  then show ?thesis
    unfolding sql_laws_def count_db_def
    by (intro conjI exI [of _ "map (\<lambda>v. (v, int (length (filter (\<lambda>r. snd r = v) rows)))) (remdups (map snd rows))"]
        exI [of _ "map (\<lambda>(t, v). (t, v, int (length (filter (\<lambda>r. r = (t, v)) rows)))) (remdups rows)"])
       (simp_all add: comp_def)
qed

definition sample_received :: receiverStats where
  "sample_received = \<lparr>rs_Total = 3, rs_ByVerdict = [(''approve'', 2), (''block'', 1), (''review'', 0)],
     rs_ByComposite = []\<rparr>"

theorem validation_exact_witness:
  "validate_main 3 (Inr sample_received) (queryDuckDB (count_db sample_rows)) = 0"
  using validation_exact [OF count_db_laws, of sample_rows sample_received 3]
  by (simp add: sample_rows_def sample_received_def known_verdict_def)

text \<open>The flag must be positive according to its message; a negative value is only reported as a loss.\<close>

lemma negative_flag_not_rejected:
  "validate_main (- 1) (Inr sample_received) (queryDuckDB (count_db sample_rows)) = 1 \<and>
   (\<exists>db. queryDuckDB (count_db sample_rows) = Inr db \<and>
      validate_checks (- 1) db sample_received = [EventsLost (- 4)])"
proof -
  have "\<not> percent 0 3 > 1" using percent_exact [of 3 0] by simp
  moreover have "list_all (\<lambda>r. CHR '':'' \<notin> set (snd r)) sample_rows" by (simp add: sample_rows_def verdict_defs)
  obtain db where "queryDuckDB (count_db sample_rows) = Inr db" "dr_Total db = int (length sample_rows)"
    "sum_list (map snd (dr_ByVerdict db)) = int (length sample_rows)"
    by (rule queryDuckDB_counts [OF count_db_laws \<open>list_all _ sample_rows\<close>])
  moreover have "length sample_rows = 3" by (simp add: sample_rows_def)
  ultimately show ?thesis
    by (simp add: validate_main_def validate_report_def validate_checks_def Let_def sample_received_def)
qed

end
