(* ===== verification/EndToEnd.thy ===== *)
theory EndToEnd
  imports Pipeline Validator
begin

text \<open>
  From request to row: the ingest server, the channels, the pool and the writer composed along
  the channels of \<^verbatim>\<open>main.go\<close>, and with them the check of \<^verbatim>\<open>jetstream_test\<close>. The lemmas show what
  a client may conclude from the answers it got about the rows that are stored in the end.
\<close>

section \<open>Serving a sequence of requests\<close>

fun serve ::
  "parse_env \<Rightarrow> (nat \<Rightarrow> nat) \<Rightarrow> (remoteGroup strmap \<Rightarrow> remoteGroup strmap) \<Rightarrow> 'e server
     \<Rightarrow> (string \<times> string \<times> http_request) list \<Rightarrow> ingest \<Rightarrow> http_response list \<times> ingest" where
  "serve env drain map_order sv [] st = ([], st)"
| "serve env drain map_order sv ((m, pth, r) # rs) st =
     (case Handler env drain map_order sv m pth r st of
        (resp, st') \<Rightarrow> (case serve env drain map_order sv rs st' of (resps, st'') \<Rightarrow> (resp # resps, st'')))"

text \<open>How many events an answer acknowledges as accepted.\<close>

definition acked :: "http_response \<Rightarrow> int" where
  "acked resp = (case snd resp of
     NoBody \<Rightarrow> if fst resp = 202 then 1 else 0
   | BatchCounts counts \<Rightarrow> br_Accepted counts
   | _ \<Rightarrow> 0)"

text \<open>The bodies of \<open>handleEvent\<close> that are not \<open>NoBody\<close> acknowledge nothing.\<close>

lemma handleEvent_body:
  "handleEvent env drain sv r st = ((status, body), st') \<Longrightarrow> acked (status, body) = of_bool (status = 202)"
  by (auto simp: acked_def handleEvent_def accept_local_def Let_def
      split: if_splits prod.splits read_end.splits sum.splits option.splits bool.splits)

lemma handleEvent_acked:
  assumes "handleEvent env drain sv r st = (resp, st')" and "sv_router sv = None"
  shows "\<exists>new. delivered st' = delivered st @ new \<and> acked resp = int (length new)"
proof -
  obtain status body where resp: "resp = (status, body)" by (cases resp)
  note body = handleEvent_body [OF assms(1) [unfolded resp]]
  from assms(1) [unfolded resp] show ?thesis
  proof (cases rule: handleEvent_cases)
    case (queued ev)
    with body show ?thesis by (intro exI [of _ "[ev]"]) (simp add: resp)
  next
    case (forwarded ev R peer)
    with assms(2) show ?thesis by simp
  next
    case refused
    with body show ?thesis by (intro exI [of _ "[]"]) (auto simp: resp)
  qed
qed

lemma handleBatch_acked:
  assumes "handleBatch env drain map_order sv r st = (resp, st')" and "\<And>m. mset (map_order m) = mset m"
  shows "\<exists>new. delivered st' = delivered st @ new \<and> acked resp = int (length new)"
proof (cases "contentTypeOK r")
  case True
  from handleBatch_conserves [OF True assms(2), of env drain sv st] assms(1) show ?thesis
    by (auto simp: acked_def)
next
  case False
  with assms(1) show ?thesis by (auto simp: handleBatch_def acked_def)
qed

lemma Handler_acked:
  assumes "Handler env drain map_order sv method path r st = (resp, st')" and "sv_router sv = None"
    and "\<And>m. mset (map_order m) = mset m"
  shows "\<exists>new. delivered st' = delivered st @ new \<and> acked resp = int (length new)"
proof -
  consider "handleEvent env drain sv r st = (resp, st')" | "handleBatch env drain map_order sv r st = (resp, st')"
    | "resp \<in> {(405, MethodNotAllowed), (404, NotFound)}" "st' = st"
    using assms(1) by (auto simp: Handler_def split: if_splits)
  then show ?thesis
  proof cases
    case 1
    then show ?thesis using handleEvent_acked assms(2) by blast
  next
    case 2
    then show ?thesis using handleBatch_acked assms(3) by blast
  qed (auto simp: acked_def)
qed

lemma serve_acked:
  assumes "serve env drain map_order sv reqs st = (resps, st')" and "sv_router sv = None"
    and "\<And>m. mset (map_order m) = mset m"
  shows "\<exists>new. delivered st' = delivered st @ new \<and> sum_list (map acked resps) = int (length new)"
  using assms(1)
proof (induction reqs arbitrary: st resps)
  case (Cons req reqs)
  obtain m pth r where req: "req = (m, pth, r)" by (cases req)
  from Cons.prems obtain resp st1 resps' where
    run: "Handler env drain map_order sv m pth r st = (resp, st1)"
      "serve env drain map_order sv reqs st1 = (resps', st')" "resps = resp # resps'"
    by (auto simp: req split: prod.splits)
  obtain n1 where "delivered st1 = delivered st @ n1" "acked resp = int (length n1)"
    using Handler_acked [OF run(1) assms(2,3)] by blast
  moreover obtain n2 where "delivered st' = delivered st1 @ n2" "sum_list (map acked resps') = int (length n2)"
    using Cons.IH [OF run(2)] by blast
  ultimately show ?case using run(3) by (intro exI [of _ "n1 @ n2"]) simp
qed simp

section \<open>A complete run\<close>

text \<open>
  A run that took the accepted events through to a closed writer: the shutdown completed
  without a forced cancellation; the jobs of the pool are the events that went through the
  channels, each with the snapshot and the clock readings of its processing; the results of
  the pool are those the writer received, in some order; and no retention fell into the run.
\<close>

definition complete_run ::
  "nat \<Rightarrow> 're starlark_call \<Rightarrow> duration \<Rightarrow> 'db writer_cfg \<Rightarrow> event list \<Rightarrow> event pipe \<Rightarrow> pool_action list
     \<Rightarrow> 're pool \<Rightarrow> writer_event list \<Rightarrow> 'db \<Rightarrow> 'db writer \<Rightarrow> bool" where
  "complete_run n call tmo c accepted s as p es db w \<longleftrightarrow>
     pi_reach n s \<and> pi_writerDone s \<and> \<not> pi_cancelled s \<and> mset (pi_accepted s) = mset accepted \<and>
     mset (map j_event (jobs_of as)) = mset (map fst (pi_output s)) \<and>
     list_all (\<lambda>j. j_done j \<noteq> zero_time) (jobs_of as) \<and>
     (\<exists>rs p'. pool_run call tmo as p = Some (Inr (rs, p')) \<and> mset (received es) = mset rs) \<and>
     (\<exists>clock. writer_run c es (fresh_writer db clock) = Some w) \<and> wr_mode w = Closed \<and> RetentionTick \<notin> set es"

text \<open>The encoders of the results never fail.\<close>

definition encoders_ok :: "encoders \<Rightarrow> bool" where
  "encoders_ok en \<longleftrightarrow> (\<forall>rrs. \<exists>b. en_rules en rrs = Inr b) \<and> (\<forall>pl. \<exists>b. en_payload en pl = Inr b)"

lemma encoders_ok_encodable: "encoders_ok en \<Longrightarrow> encodable en r"
proof -
  assume ok: "encoders_ok en"
  then obtain t f pl where "en_rules en (res_TriggeredRules r) = Inr t" "en_rules en (res_FailedRules r) = Inr f"
    "en_payload en (res_Payload r) = Inr pl" unfolding encoders_ok_def by blast
  then show ?thesis by (simp add: encodable_def row_of_def)
qed

lemma row_for_fields:
  assumes "encodable en r"
  shows "row_event_id (row_for en r) = res_EventID r" and "row_event_type (row_for en r) = res_EventType r"
    and "row_verdict (row_for en r) = res_FinalVerdict r"
    and "res_RawPayload r \<noteq> [] \<Longrightarrow> row_payload (row_for en r) = res_RawPayload r"
proof -
  from assms obtain row where row: "row_of en 0 r = Inr row" unfolding encodable_def by blast
  then have "row_event_id row = res_EventID r \<and> row_event_type row = res_EventType r \<and>
      row_verdict row = res_FinalVerdict r \<and> (res_RawPayload r \<noteq> [] \<longrightarrow> row_payload row = res_RawPayload r)"
    by (auto simp: row_of_def split: sum.splits if_splits)
  moreover have "row_for en r = row" using row by (simp add: row_for_def)
  ultimately show "row_event_id (row_for en r) = res_EventID r" "row_event_type (row_for en r) = res_EventType r"
    "row_verdict (row_for en r) = res_FinalVerdict r"
    "res_RawPayload r \<noteq> [] \<Longrightarrow> row_payload (row_for en r) = res_RawPayload r"
    by simp_all
qed

text \<open>The row an event can leave.\<close>

definition row_of_event :: "event \<Rightarrow> db_row \<Rightarrow> bool" where
  "row_of_event ev row \<longleftrightarrow> row_event_id row = ev_EventID ev \<and> row_event_type row = ev_EventType ev \<and>
     known_verdict (row_verdict row) \<and> (ev_RawJSON ev \<noteq> [] \<longrightarrow> row_payload row = ev_RawJSON ev)"

lemma list_all2_image:
  "list_all2 R xs ys \<Longrightarrow> (\<And>x y. R x y \<Longrightarrow> f x = g y) \<Longrightarrow> map f xs = map g ys"
  by (induction rule: list_all2_induct) auto

text \<open>The results the writer received are those of the accepted events.\<close>

lemma complete_run_results:
  assumes "complete_run n call tmo c accepted s as p es db w"
  shows "mset (map res_EventID (received es)) = mset (map ev_EventID accepted)"
    and "r \<in> set (received es) \<Longrightarrow> timed r \<and> known_verdict (res_FinalVerdict r) \<and>
      (\<exists>ev \<in> set accepted. res_EventID r = ev_EventID ev \<and> res_EventType r = ev_EventType ev \<and>
         res_RawPayload r = ev_RawJSON ev)"
proof -
  from assms obtain rs p' where run: "pool_run call tmo as p = Some (Inr (rs, p'))" "mset (received es) = mset rs"
    and pipe: "pi_reach n s" "pi_writerDone s" "\<not> pi_cancelled s" "mset (pi_accepted s) = mset accepted"
    and jobs: "mset (map j_event (jobs_of as)) = mset (map fst (pi_output s))"
    and done_at: "list_all (\<lambda>j. j_done j \<noteq> zero_time) (jobs_of as)"
    unfolding complete_run_def by blast
  have res: "list_all2 result_of (jobs_of as) rs" by (rule pool_run_results [OF run(1)])
  have "mset (map fst (pi_output s)) = mset (pi_accepted s)" by (rule pi_all_output [OF pipe(1-3)])
  with jobs pipe(4) have evs: "mset (map j_event (jobs_of as)) = mset accepted" by simp
  have "map (\<lambda>j. ev_EventID (j_event j)) (jobs_of as) = map res_EventID rs"
    by (rule list_all2_image [OF res]) (simp add: result_of_def)
  then have "mset (map res_EventID rs) = image_mset ev_EventID (mset (map j_event (jobs_of as)))"
    by (simp add: image_mset.compositionality comp_def flip: mset_map)
  then show "mset (map res_EventID (received es)) = mset (map ev_EventID accepted)"
    using run(2) evs by simp
  assume "r \<in> set (received es)"
  then have "r \<in> set rs" using run(2) by (metis set_mset_mset)
  then obtain j where j: "j \<in> set (jobs_of as)" "result_of j r"
    using res by (metis in_set_conv_nth list_all2_conv_all_nth)
  have "j_event j \<in># mset (map j_event (jobs_of as))" using j(1) by simp
  then have "j_event j \<in> set accepted" unfolding evs by simp
  with j done_at show "timed r \<and> known_verdict (res_FinalVerdict r) \<and>
      (\<exists>ev \<in> set accepted. res_EventID r = ev_EventID ev \<and> res_EventType r = ev_EventType ev \<and>
         res_RawPayload r = ev_RawJSON ev)"
    by (auto simp: result_of_def timed_def list_all_iff)
qed

section \<open>Rows\<close>

text \<open>What a complete run stores: rows of results it received, all of them if nothing fails.\<close>

lemma complete_run_stores:
  assumes "db_laws (wc_db c) table inserts" and "complete_run n call tmo c accepted s as p es db w"
  shows "\<exists>rs. table (wr_db w) = fold insert_ignore (map (row_for (wc_enc c)) rs) (table db) \<and>
      set rs \<subseteq> set (received es) \<and>
      (db_reliable (wc_db c) \<and> encoders_ok (wc_enc c) \<longrightarrow> rs = filter (kept (wc_interesting c)) (received es))"
proof -
  from assms(2) obtain clock where run: "writer_run c es (fresh_writer db clock) = Some w" "wr_mode w = Closed"
    "RetentionTick \<notin> set es" unfolding complete_run_def by blast
  have "\<forall>r \<in> set (received es). timed r" using complete_run_results(2) [OF assms(2)] by blast
  from closed_writer_stores [OF assms(1) run(1,2) this run(3)] obtain chunks where
    st: "stores c table db (wr_db w) chunks"
    and cc: "concat (map fst chunks) = filter (kept (wc_interesting c)) (received es)" by blast
  let ?rs = "concat (map fst (filter snd chunks))"
  have "?rs = filter (kept (wc_interesting c)) (received es)"
    if "db_reliable (wc_db c) \<and> encoders_ok (wc_enc c)"
  proof -
    have "list_all snd chunks" using st that encoders_ok_encodable unfolding stores_def by blast
    then have "filter snd chunks = chunks" by (simp add: list_all_iff filter_id_conv)
    with cc show ?thesis by simp
  qed
  moreover have "set ?rs \<subseteq> set (concat (map fst chunks))" by auto
  ultimately show ?thesis using st cc unfolding stores_def by (intro exI [of _ ?rs]) auto
qed

lemma complete_run_emit_all:
  assumes "db_laws (wc_db c) table inserts" and "complete_run n call tmo c accepted s as p es db w"
    and "db_reliable (wc_db c)" and "encoders_ok (wc_enc c)" and "\<not> wc_interesting c"
  shows "table (wr_db w) = fold insert_ignore (map (row_for (wc_enc c)) (received es)) (table db)"
  using complete_run_stores [OF assms(1,2)] assms(3-5) by (auto simp: kept_def)

lemma row_of_received:
  assumes "complete_run n call tmo c accepted s as p es db w" and "encoders_ok (wc_enc c)"
    and "r \<in> set (received es)"
  shows "\<exists>ev \<in> set accepted. row_of_event ev (row_for (wc_enc c) r)"
  using complete_run_results(2) [OF assms(1,3)] row_for_fields [OF encoders_ok_encodable [OF assms(2)], of r]
  by (auto simp: row_of_event_def)

text \<open>The ids of the rows of what was received are those of the accepted events.\<close>

lemma complete_run_ids:
  assumes "complete_run n call tmo c accepted s as p es db w" and "encoders_ok (wc_enc c)"
  shows "mset (map row_event_id (map (row_for (wc_enc c)) (received es))) = mset (map ev_EventID accepted)"
    and "(\<lambda>r. row_event_id (row_for (wc_enc c) r)) ` set (received es) = ev_EventID ` set accepted"
proof -
  have ids: "row_event_id (row_for (wc_enc c) r) = res_EventID r" for r
    by (rule row_for_fields(1) [OF encoders_ok_encodable [OF assms(2)]])
  have "map row_event_id (map (row_for (wc_enc c)) (received es)) = map res_EventID (received es)"
    by (simp add: ids)
  then show "mset (map row_event_id (map (row_for (wc_enc c)) (received es))) = mset (map ev_EventID accepted)"
    using complete_run_results(1) [OF assms(1)] by (simp only:)
  show "(\<lambda>r. row_event_id (row_for (wc_enc c) r)) ` set (received es) = ev_EventID ` set accepted"
    using arg_cong [OF complete_run_results(1) [OF assms(1)], of set_mset]
    by (simp only: ids set_mset_mset set_map)
qed

section \<open>What the webhook count does not show\<close>

text \<open>
  A webhook whose answer is lost is posted again, and the receiver counts both requests. So a
  retry can make up for a webhook that was never delivered, and the validation passes.
\<close>

definition answer_lost :: webhook_env where
  "answer_lost = \<lparr>wh_marshal = (\<lambda>_. Inr ''p''), wh_build = (\<lambda>_. None),
     wh_answer = (\<lambda>i. if i = 0 then Inl ''timeout'' else Inr 200), wh_cancelled = (\<lambda>_. False)\<rparr>"

definition posted_twice :: "rv_event list" where
  "posted_twice = [WebhookRequest ''POST'' (Inr ''p''), OpDone 0, OpDone 0, OpDone 0,
     WebhookRequest ''POST'' (Inr ''p''), OpDone 1, OpDone 1, OpDone 1, Answered 0, Answered 0]"

definition two_rows :: "(string \<times> string) list" where
  "two_rows = [(''post'', VerdictBlock), (''like'', VerdictBlock)]"

lemma retry_masks_loss:
  "sendWebhook ''http://r/webhook'' answer_lost r = (WDelivered 1, [100]) \<and>
   (\<exists>p. rv_run sample_decode posted_twice rv_proc_init = Some p \<and> rv_Total (rc_stats p) = 2 \<and>
      validate_main 2 (Inr (sample_received\<lparr>rs_Total := rv_Total (rc_stats p)\<rparr>)) (queryDuckDB (count_db two_rows)) = 0)"
proof
  show "sendWebhook ''http://r/webhook'' answer_lost r = (WDelivered 1, [100])"
    by (simp add: sendWebhook_def answer_lost_def webhook_loop.simps maxAttempts_def backoff_def)
  have "\<exists>p. rv_run sample_decode posted_twice rv_proc_init = Some p \<and> rv_Total (rc_stats p) = 2"
    by (simp add: posted_twice_def sample_decode_def rv_proc_init_def receiver_init_def webhook_body_def
        webhook_ops_def incrementVerdict_def incrementComposite_def Let_def)
  moreover have "validate_main 2 (Inr (sample_received\<lparr>rs_Total := 2\<rparr>)) (queryDuckDB (count_db two_rows)) = 0"
    using validation_decides [OF count_db_laws, of two_rows "sample_received\<lparr>rs_Total := 2\<rparr>" 2]
    by (simp add: two_rows_def known_verdict_def)
  ultimately show "\<exists>p. rv_run sample_decode posted_twice rv_proc_init = Some p \<and> rv_Total (rc_stats p) = 2 \<and>
      validate_main 2 (Inr (sample_received\<lparr>rs_Total := rv_Total (rc_stats p)\<rparr>)) (queryDuckDB (count_db two_rows)) = 0"
    by auto
qed

section \<open>Properties\<close>

text \<open>
  C2: what clients were told is what is stored. On a single node that emits all results, with
  a database and encoders that do not fail, a run that is completed stores the accepted events
  and nothing else: the answers acknowledge exactly the events that were accepted; every
  accepted event has a row; every new row is that of an accepted event, with its type, its
  bytes and a known verdict; and if no id was accepted twice or known before, the number of
  rows grows by exactly the number acknowledged.
\<close>

theorem acknowledged_events_stored:
  assumes "serve env drain map_order sv reqs st0 = (resps, st)" and "sv_router sv = None"
    and "\<And>m. mset (map_order m) = mset m" and "delivered st0 = []"
    and "complete_run n call tmo c (delivered st) s as p es db w"
    and "db_laws (wc_db c) table inserts" and "db_reliable (wc_db c)" and "encoders_ok (wc_enc c)"
    and "\<not> wc_interesting c"
  shows "sum_list (map acked resps) = int (length (delivered st)) \<and>
    row_event_id ` set (table (wr_db w)) = row_event_id ` set (table db) \<union> ev_EventID ` set (delivered st) \<and>
    (\<forall>row \<in> set (table (wr_db w)) - set (table db). \<exists>ev \<in> set (delivered st). row_of_event ev row) \<and>
    (distinct (map ev_EventID (delivered st)) \<and>
       ev_EventID ` set (delivered st) \<inter> row_event_id ` set (table db) = {} \<longrightarrow>
       int (length (table (wr_db w))) = int (length (table db)) + sum_list (map acked resps))"
proof -
  have acks: "sum_list (map acked resps) = int (length (delivered st))"
    using serve_acked [OF assms(1-3)] assms(4) by auto
  let ?rows = "map (row_for (wc_enc c)) (received es)"
  have table: "table (wr_db w) = fold insert_ignore ?rows (table db)"
    by (rule complete_run_emit_all [OF assms(6,5,7-9)])
  note evs = complete_run_ids(1) [OF assms(5,8)]
  have set_ids: "row_event_id ` set ?rows = ev_EventID ` set (delivered st)"
    using arg_cong [OF evs, of set_mset] by (simp only: set_mset_mset set_map)
  have "\<exists>ev \<in> set (delivered st). row_of_event ev row" if "row \<in> set (table (wr_db w)) - set (table db)" for row
    using that fold_insert_ignore_set [of ?rows "table db"] row_of_received [OF assms(5,8)] by (auto simp: table)
  moreover have "int (length (table (wr_db w))) = int (length (table db)) + sum_list (map acked resps)"
    if "distinct (map ev_EventID (delivered st))" "ev_EventID ` set (delivered st) \<inter> row_event_id ` set (table db) = {}"
  proof -
    have "distinct (map row_event_id ?rows)" using that(1) evs mset_eq_imp_distinct_iff by blast
    then have "table (wr_db w) = table db @ ?rows"
      unfolding table by (rule fold_insert_ignore_fresh) (simp only: set_ids that(2))
    moreover have "length ?rows = length (delivered st)" using arg_cong [OF evs, of size] by simp
    ultimately show ?thesis by (simp add: acks)
  qed
  moreover have "row_event_id ` set (table (wr_db w)) = row_event_id ` set (table db) \<union> ev_EventID ` set (delivered st)"
    unfolding table fold_insert_ignore_ids set_ids ..
  ultimately show ?thesis using acks by blast
qed

text \<open>One event from the request to its row.\<close>

definition sample_post :: "string \<times> string \<times> http_request" where
  "sample_post = (''POST'', ''/events'', sample_request ''e1'')"

lemma sample_serve:
  "\<exists>st. serve sample_parse (\<lambda>_. 0) id (NewServer 100 :: unit server)
       [sample_post, (''GET'', ''/events'', sample_request ''e2'')] (sample_ingest 1) =
     ([(202, NoBody), (405, MethodNotAllowed)], st) \<and> delivered st = [parsed ''e1'']"
  using sample_accepts
  by (simp add: sample_post_def Handler_def sample_ingest_def delivered_def)

lemma one_result_run:
  "\<exists>w. writer_run c [Recv r, RecvClosed] (fresh_writer db clock) = Some w \<and> wr_mode w = Closed"
proof -
  obtain b w where "take_result c r (fresh_writer db clock) = (b, w)" by fastforce
  moreover from this have "wr_mode w = Serving"
    by (auto simp: take_result_def fresh_writer_def resetBatch_def Let_def split: prod.splits bool.splits if_splits)
  ultimately show ?thesis
    by (cases b) (simp_all add: fresh_writer_def spawn_webhook_def close_writer_def)
qed

lemma sample_single_node:
  "sv_router (NewServer 100 :: unit server) = None" "mset (id m) = mset m" "delivered (sample_ingest 1) = []"
  by (simp_all add: NewServer_def sample_ingest_def delivered_def)

lemma sample_cfg_ok:
  "db_laws (wc_db (sample_cfg b)) fst snd" "db_reliable (wc_db (sample_cfg b))"
  "encoders_ok (wc_enc (sample_cfg b))" "\<not> wc_interesting (sample_cfg False)"
  by (simp_all add: sample_cfg_def list_db_laws encoders_ok_def)

lemma sample_complete_run:
  "\<exists>s p es w. complete_run 1 failing_call 1000 (sample_cfg False) [parsed ''e1''] s
     [Work 0 (sample_job (parsed ''e1''))] (p :: string pool) es db w"
proof -
  obtain s where s: "pi_reach 1 s" "pi_writerDone s" "\<not> pi_cancelled s" "pi_accepted s = [parsed ''e1'']"
    "pi_output s = [(parsed ''e1'', False)]" using one_event_run [of "parsed ''e1''"] by blast
  let ?p = "NewPool 1 empty_store (\<lambda>_. 0) (\<lambda>_. new_stats) :: string pool"
  have "schedule_ok (length (po_workers ?p)) [Work 0 (sample_job (parsed ''e1''))]"
    by (simp add: schedule_ok_def NewPool_def sample_job_def sample_snapshot_wf)
  from pool_run_total [OF this, of failing_call 1000] obtain r p' where
    r: "pool_run failing_call 1000 [Work 0 (sample_job (parsed ''e1''))] ?p = Some (Inr ([r], p'))"
    by (auto simp: map_eq_Cons_conv)
  obtain w where w: "writer_run (sample_cfg False) [Recv r, RecvClosed] (fresh_writer db []) = Some w"
    "wr_mode w = Closed" using one_result_run [of "sample_cfg False" r db "[]"] by auto
  have "complete_run 1 failing_call 1000 (sample_cfg False) [parsed ''e1''] s
     [Work 0 (sample_job (parsed ''e1''))] ?p [Recv r, RecvClosed] db w"
    unfolding complete_run_def
    by (intro conjI exI [of _ "[r]"] exI [of _ p'] exI [of _ "[]"])
       (use s r w in \<open>simp_all add: sample_job_def zero_time_def\<close>)
  then show ?thesis by blast
qed

theorem acknowledged_events_stored_witness:
  "\<exists>s p es w. complete_run 1 failing_call 1000 (sample_cfg False) [parsed ''e1''] s
     [Work 0 (sample_job (parsed ''e1''))] (p :: string pool) es ([], []) w \<and>
     row_event_id ` set (fst (wr_db w)) = {''e1''} \<and> length (fst (wr_db w)) = 1"
proof -
  obtain st where st: "serve sample_parse (\<lambda>_. 0) id (NewServer 100 :: unit server)
       [sample_post, (''GET'', ''/events'', sample_request ''e2'')] (sample_ingest 1) =
     ([(202, NoBody), (405, MethodNotAllowed)], st)" "delivered st = [parsed ''e1'']" using sample_serve by blast
  obtain s es w and p :: "string pool" where run: "complete_run 1 failing_call 1000 (sample_cfg False) [parsed ''e1''] s
     [Work 0 (sample_job (parsed ''e1''))] p es ([], []) w" using sample_complete_run by blast
  from acknowledged_events_stored [OF st(1) sample_single_node run [folded st(2)] sample_cfg_ok] run show ?thesis
    by (intro exI [of _ s] exI [of _ p] exI [of _ es] exI [of _ w])
       (simp add: st(2) acked_def parsed_def)
qed


definition stored_row :: db_row where
  "stored_row = \<lparr>row_event_id = ''e1'', row_event_type = ''post'', row_verdict = ''block'', row_triggered = ''[]'',
     row_failed = ''[]'', row_payload = ''e1'', row_latency_us = 1, row_processed_at = 1\<rparr>"




end
