(* ===== verification/Deadline.thy ===== *)
theory Deadline
  imports Prelude
begin

text \<open>
  The event deadline of \<^verbatim>\<open>processEvent\<close> as an interleaving. A worker processes events one
  after the other on one reused thread; for each event a callback (\<^verbatim>\<open>context.AfterFunc\<close>)
  cancels the thread when the event's context ends, concurrently with the worker, which
  clears the cancellation before each rule (\<^verbatim>\<open>Uncancel\<close>) and, at the end, stops the callback
  or waits for it. The invariant shows that a cancellation never reaches a later event; a
  schedule shows that it can miss its own.
\<close>

datatype callback = Unregistered | Registered | Started | Finished | Stopped

text \<open>
  Where the worker is: between events; about to check the context with so many rules left;
  between that check and \<^verbatim>\<open>Uncancel\<close>; inside a rule; at \<^verbatim>\<open>stop()\<close>; waiting for \<^verbatim>\<open>cancelDone\<close>.
\<close>

datatype phase = Idle | Check nat | Arm nat | Running nat | Stopping | Waiting

text \<open>\<open>dl_flag\<close> is the thread's cancellation, tagged with the event that caused it.\<close>

record deadline_state =
  dl_event :: nat
  dl_phase :: phase
  dl_expired :: "nat \<Rightarrow> bool"
  dl_cb :: "nat \<Rightarrow> callback"
  dl_flag :: "nat option"

definition dl_init :: deadline_state where
  "dl_init = \<lparr>dl_event = 0, dl_phase = Idle, dl_expired = (\<lambda>_. False),
              dl_cb = (\<lambda>_. Unregistered), dl_flag = None\<rparr>"

text \<open>A cancellation takes effect unless the thread is cancelled already.\<close>

definition cancel_thread :: "nat \<Rightarrow> nat option \<Rightarrow> nat option" where
  "cancel_thread n flag = (case flag of None \<Rightarrow> Some n | Some m \<Rightarrow> Some m)"

datatype dl_action =
    Begin nat | Expire nat | Fire nat | CancelThread nat | CheckLate | CheckOk
  | Uncancel | RuleEnds | StepsExceeded | LastRule | StopPrevents | StopMisses | CancelDone

text \<open>
  \<open>Begin k\<close> registers the callback of the next event, which has \<open>k\<close> rules to run. \<open>Expire\<close>,
  \<open>Fire\<close> and \<open>CancelThread\<close> belong to the context and the callback of any event.
\<close>

fun dl_step :: "dl_action \<Rightarrow> deadline_state \<Rightarrow> deadline_state option" where
  "dl_step (Begin k) s =
     (if dl_phase s = Idle
      then Some (s\<lparr>dl_event := Suc (dl_event s), dl_phase := Check k,
                   dl_cb := (dl_cb s)(Suc (dl_event s) := Registered)\<rparr>)
      else None)"
| "dl_step (Expire n) s =
     (if dl_cb s n \<noteq> Unregistered then Some (s\<lparr>dl_expired := (dl_expired s)(n := True)\<rparr>) else None)"
| "dl_step (Fire n) s =
     (if dl_cb s n = Registered \<and> dl_expired s n
      then Some (s\<lparr>dl_cb := (dl_cb s)(n := Started)\<rparr>) else None)"
| "dl_step (CancelThread n) s =
     (if dl_cb s n = Started
      then Some (s\<lparr>dl_flag := cancel_thread n (dl_flag s), dl_cb := (dl_cb s)(n := Finished)\<rparr>)
      else None)"
| "dl_step CheckLate s =
     (case dl_phase s of
        Check (Suc k) \<Rightarrow> if dl_expired s (dl_event s) then Some (s\<lparr>dl_phase := Check k\<rparr>) else None
      | _ \<Rightarrow> None)"
| "dl_step CheckOk s =
     (case dl_phase s of
        Check (Suc k) \<Rightarrow> if \<not> dl_expired s (dl_event s) then Some (s\<lparr>dl_phase := Arm k\<rparr>) else None
      | _ \<Rightarrow> None)"
| "dl_step Uncancel s =
     (case dl_phase s of
        Arm k \<Rightarrow> Some (s\<lparr>dl_phase := Running k, dl_flag := None\<rparr>)
      | _ \<Rightarrow> None)"
| "dl_step RuleEnds s =
     (case dl_phase s of Running k \<Rightarrow> Some (s\<lparr>dl_phase := Check k\<rparr>) | _ \<Rightarrow> None)"
| "dl_step StepsExceeded s =
     (case dl_phase s of
        Running k \<Rightarrow> Some (s\<lparr>dl_flag := cancel_thread (dl_event s) (dl_flag s)\<rparr>)
      | _ \<Rightarrow> None)"
| "dl_step LastRule s =
     (if dl_phase s = Check 0 then Some (s\<lparr>dl_phase := Stopping\<rparr>) else None)"
| "dl_step StopPrevents s =
     (if dl_phase s = Stopping \<and> dl_cb s (dl_event s) = Registered
      then Some (s\<lparr>dl_phase := Idle, dl_cb := (dl_cb s)(dl_event s := Stopped)\<rparr>) else None)"
| "dl_step StopMisses s =
     (if dl_phase s = Stopping \<and> dl_cb s (dl_event s) \<noteq> Registered
      then Some (s\<lparr>dl_phase := Waiting\<rparr>) else None)"
| "dl_step CancelDone s =
     (if dl_phase s = Waiting \<and> dl_cb s (dl_event s) = Finished
      then Some (s\<lparr>dl_phase := Idle\<rparr>) else None)"

inductive dl_reach :: "deadline_state \<Rightarrow> bool" where
  dl_start: "dl_reach dl_init"
| dl_next: "dl_reach s \<Longrightarrow> dl_step a s = Some s' \<Longrightarrow> dl_reach s'"

inductive_cases dl_reachE: "dl_reach s"

text \<open>Running a schedule of actions.\<close>

fun dl_run :: "dl_action list \<Rightarrow> deadline_state \<Rightarrow> deadline_state option" where
  "dl_run [] s = Some s"
| "dl_run (a # as) s = (case dl_step a s of None \<Rightarrow> None | Some s' \<Rightarrow> dl_run as s')"

lemma dl_run_reach: "dl_reach s \<Longrightarrow> dl_run as s = Some s' \<Longrightarrow> dl_reach s'"
  by (induction as arbitrary: s) (auto split: option.splits intro: dl_next)

section \<open>The invariant\<close>

text \<open>
  Only the current event's callback can still be waiting or running, none when the worker is
  idle, and inside a rule a cancellation stems from the current event.
\<close>

definition live_cb :: "callback \<Rightarrow> bool" where
  "live_cb c \<longleftrightarrow> c = Registered \<or> c = Started"

definition dl_inv :: "deadline_state \<Rightarrow> bool" where
  "dl_inv s \<longleftrightarrow>
     (\<forall>n. n \<noteq> dl_event s \<longrightarrow> \<not> live_cb (dl_cb s n)) \<and>
     (dl_phase s = Idle \<longrightarrow> \<not> live_cb (dl_cb s (dl_event s))) \<and>
     (dl_phase s \<noteq> Idle \<longrightarrow> dl_cb s (dl_event s) \<in> {Registered, Started, Finished}) \<and>
     (\<forall>k. dl_phase s = Running k \<longrightarrow> dl_flag s = None \<or> dl_flag s = Some (dl_event s)) \<and>
     (dl_phase s = Waiting \<longrightarrow> dl_cb s (dl_event s) \<noteq> Registered)"

lemma dl_inv_init: "dl_inv dl_init"
  by (simp add: dl_inv_def dl_init_def live_cb_def)

lemma if_Some_eq: "((if b then Some x else None) = Some y) \<longleftrightarrow> b \<and> y = x"
  by auto

lemma cancel_thread_Some: "flag = None \<or> flag = Some n \<Longrightarrow> cancel_thread n flag = Some n"
  by (auto simp: cancel_thread_def)

lemma dl_inv_step [inv_intros]:
  assumes inv: "dl_inv s" and step: "dl_step a s = Some s'"
  shows "dl_inv s'"
proof (cases a)
  case (CancelThread n)
  with step have n: "dl_cb s n = Started"
    and s': "s' = s\<lparr>dl_flag := cancel_thread n (dl_flag s), dl_cb := (dl_cb s)(n := Finished)\<rparr>"
    by (simp_all split: if_splits)
  have "n = dl_event s"
  proof (rule ccontr)
    assume "n \<noteq> dl_event s"
    with inv have "\<not> live_cb (dl_cb s n)" by (simp add: dl_inv_def)
    with n show False by (simp add: live_cb_def)
  qed
  with inv show ?thesis unfolding s' by (simp add: dl_inv_def live_cb_def cancel_thread_Some)
next
  case (Fire n)
  with step have n: "dl_cb s n = Registered" and s': "s' = s\<lparr>dl_cb := (dl_cb s)(n := Started)\<rparr>"
    by (simp_all split: if_splits)
  have "n = dl_event s"
  proof (rule ccontr)
    assume "n \<noteq> dl_event s"
    with inv have "\<not> live_cb (dl_cb s n)" by (simp add: dl_inv_def)
    with n show False by (simp add: live_cb_def)
  qed
  with inv n show ?thesis unfolding s' by (auto simp add: dl_inv_def live_cb_def)
next
  case (Begin k)
  with step inv have none: "\<not> live_cb (dl_cb s n)" for n
    by (cases "n = dl_event s") (simp_all add: dl_inv_def if_Some_eq)
  show ?thesis using Begin step none by (simp add: dl_inv_def if_Some_eq)
next
  case (Expire n)
  with step inv show ?thesis by (simp add: dl_inv_def if_Some_eq)
next
  case StepsExceeded
  with step inv show ?thesis by (auto simp: dl_inv_def cancel_thread_Some split: phase.splits)
next
  case StopMisses
  with step inv show ?thesis by (simp add: dl_inv_def if_Some_eq)
next
  case StopPrevents
  with step inv show ?thesis by (auto simp: dl_inv_def live_cb_def if_Some_eq)
next
  case CancelDone
  with step inv show ?thesis by (auto simp: dl_inv_def live_cb_def if_Some_eq)
qed (use step inv in \<open>auto simp: dl_inv_def if_Some_eq split: phase.splits nat.splits\<close>)+

lemma dl_reach_inv: "dl_reach s \<Longrightarrow> dl_inv s"
  by (induction rule: dl_reach.induct) (rule dl_inv_init, rule dl_inv_step)

text \<open>A worker that waits is released: the callback it waits for can always proceed.\<close>

lemma dl_wait_live:
  assumes "dl_reach s" and "dl_phase s = Waiting"
  shows "dl_cb s (dl_event s) = Started \<or> dl_cb s (dl_event s) = Finished"
proof -
  have "dl_inv s" by (rule dl_reach_inv [OF assms(1)])
  with assms(2) show ?thesis by (auto simp: dl_inv_def)
qed

text \<open>
  A deadline can miss its own event: when it passes between the context check and
  \<^verbatim>\<open>Uncancel\<close>, the rule starts uncancelled although the event has expired and its callback
  has finished, and no action but the step budget can cancel the rule any more.
\<close>

lemma deadline_can_be_lost:
  "\<exists>s. dl_run [Begin 1, CheckOk, Expire 1, Fire 1, CancelThread 1, Uncancel] dl_init = Some s \<and>
     dl_phase s = Running 0 \<and> dl_expired s (dl_event s) \<and> dl_flag s = None \<and>
     dl_cb s (dl_event s) = Finished \<and>
     (\<forall>n. dl_step (Fire n) s = None \<and> dl_step (CancelThread n) s = None)"
  by (simp add: dl_init_def)

section \<open>Properties\<close>

text \<open>
  C13: a deadline never cancels another event's rules: however the contexts, the callbacks
  and the worker interleave, inside a rule the thread is cancelled only on behalf of the
  event being processed, no earlier event's callback is pending or running, and a worker
  that waits for its callback waits for one that has started, so it is released.
\<close>

theorem deadline_isolated:
  assumes "dl_run as dl_init = Some s"
  shows "(case dl_phase s of
      Running k \<Rightarrow> dl_flag s = None \<or> dl_flag s = Some (dl_event s)
    | Waiting \<Rightarrow> dl_cb s (dl_event s) = Started \<or> dl_cb s (dl_event s) = Finished
    | Idle \<Rightarrow> dl_cb s (dl_event s) \<notin> {Registered, Started}
    | _ \<Rightarrow> True) \<and>
    (\<forall>n. n = dl_event s \<or> dl_cb s n \<notin> {Registered, Started})"
proof -
  have r: "dl_reach s" using dl_start assms by (rule dl_run_reach)
  have "dl_inv s" using r by (rule dl_reach_inv)
  with dl_wait_live [OF r] show ?thesis
    by (auto simp: dl_inv_def live_cb_def split: phase.splits)
qed

theorem deadline_isolated_witness:
  "\<exists>s. dl_run [Begin 1, CheckOk, Uncancel, Expire 1, Fire 1, CancelThread 1, RuleEnds, LastRule, StopMisses,
      CancelDone, Begin 1, CheckOk, Uncancel] dl_init = Some s \<and> dl_phase s = Running 0 \<and>
      (dl_flag s = None \<or> dl_flag s = Some 2)"
proof -
  obtain s where s: "dl_run [Begin 1, CheckOk, Uncancel, Expire 1, Fire 1, CancelThread 1, RuleEnds, LastRule,
      StopMisses, CancelDone, Begin 1, CheckOk, Uncancel] dl_init = Some s" "dl_phase s = Running 0" "dl_event s = 2"
    by (simp add: dl_init_def)
  with deadline_isolated [OF s(1)] show ?thesis by simp
qed

end
