(* ===== verification/Replay.thy ===== *)
theory Replay
  imports Pool Writer Text
begin

text \<open>
  \<^verbatim>\<open>cmd/replay/main.go\<close>: reading a trace, replaying it through the pool against one or two
  rule sets, the verdict diff, and the command with its flags and exit status. The JSON decoder is a parameter; which
  worker takes which event is the parameter \<open>sched\<close>. The lemmas show that the diff lists
  exactly the changed verdicts, and when every event of the trace takes part in it.
\<close>

section \<open>Reading the trace\<close>

definition CR :: char where "CR = char_of (13 :: nat)"

definition maxLine :: nat where "maxLine = 10485760"

text \<open>\<^verbatim>\<open>bufio.ScanLines\<close>: split at newlines, no last empty line, one carriage return dropped.\<close>

definition drop_cr :: "bytes \<Rightarrow> bytes" where
  "drop_cr l = (if l \<noteq> [] \<and> last l = CR then butlast l else l)"

definition raw_lines :: "bytes \<Rightarrow> bytes list" where
  "raw_lines s = (let ls = split_on LF s in if last ls = [] then butlast ls else ls)"

datatype trace_error = OpenTrace string | ParseTrace string | ScanTooLong

text \<open>The loop over the lines; a line that does not fit the scanner's buffer ends it.\<close>

fun trace_lines :: "(bytes \<Rightarrow> string + trace_entry) \<Rightarrow> bytes list \<Rightarrow> trace_error + trace_entry list" where
  "trace_lines decode [] = Inr []"
| "trace_lines decode (l # ls) =
     (if length l + 1 > maxLine then Inl ScanTooLong
      else let line = drop_cr l in
        if line = [] then trace_lines decode ls
        else (case decode line of
                Inl e \<Rightarrow> Inl (ParseTrace e)
              | Inr entry \<Rightarrow>
                  (case trace_lines decode ls of Inl e \<Rightarrow> Inl e | Inr es \<Rightarrow> Inr (entry # es))))"

definition loadTraces :: "(bytes \<Rightarrow> string + trace_entry) \<Rightarrow> string + bytes \<Rightarrow> trace_error + trace_entry list" where
  "loadTraces decode opened =
     (case opened of
        Inl e \<Rightarrow> Inl (OpenTrace e)
      | Inr content \<Rightarrow> trace_lines decode (raw_lines content))"

section \<open>Replaying\<close>

datatype replay_panic = MakesliceLenOutOfRange | RulePanic panic

text \<open>The results of a run, by event id; a later result replaces an earlier one.\<close>

definition results_map :: "result list \<Rightarrow> result strmap" where
  "results_map rs = fold (\<lambda>r m. alist_upd m (res_EventID r) r) rs []"

text \<open>
  \<open>sched es\<close> pairs each entry with the worker that takes it, in processing order; \<open>mkjob\<close> adds
  the observations of its processing. Without workers nothing is processed: the pool closes
  its output at once.
\<close>

definition replayEvents ::
  "'re starlark_call \<Rightarrow> duration \<Rightarrow> (trace_entry \<Rightarrow> job) \<Rightarrow> (trace_entry list \<Rightarrow> (nat \<times> trace_entry) list)
     \<Rightarrow> trace_entry list \<Rightarrow> int \<Rightarrow> 're pool \<Rightarrow> (replay_panic + result strmap) option" where
  "replayEvents call tmo mkjob sched entries numWorkers p =
     (if entries = [] then Some (Inr [])
      else if numWorkers < 0 then Some (Inl MakesliceLenOutOfRange)
      else if numWorkers = 0 then Some (Inr [])
      else (case pool_run call tmo (map (\<lambda>(i, en). Work i (mkjob en)) (sched entries)) p of
              None \<Rightarrow> None
            | Some (Inl e) \<Rightarrow> Some (Inl (RulePanic e))
            | Some (Inr (rs, p')) \<Rightarrow> Some (Inr (results_map rs))))"

section \<open>The diff\<close>

record VerdictDiff =
  vd_EventID :: string
  vd_EventType :: string
  vd_OldVerdict :: verdict
  vd_NewVerdict :: verdict
  vd_OldRules :: "string list"
  vd_NewRules :: "string list"

record ReplayReport =
  rp_TotalEvents :: nat
  rp_Changed :: nat
  rp_Unchanged :: nat
  rp_Diffs :: "VerdictDiff list"
  rp_ChangesByRule :: "nat strmap"

definition ruleIDs :: "rule_result list \<Rightarrow> string list" where
  "ruleIDs rrs = map rr_RuleID rrs"

definition count_rule :: "string \<Rightarrow> nat strmap \<Rightarrow> nat strmap" where
  "count_rule rid m = alist_upd m rid ((case map_of m rid of None \<Rightarrow> 0 | Some n \<Rightarrow> n) + 1)"

definition new_report :: "trace_entry list \<Rightarrow> ReplayReport" where
  "new_report entries = \<lparr>rp_TotalEvents = length entries, rp_Changed = 0, rp_Unchanged = 0,
     rp_Diffs = [], rp_ChangesByRule = []\<rparr>"

text \<open>One comparison: the verdicts agree, or a diff is recorded.\<close>

definition compare ::
  "trace_entry \<Rightarrow> result \<Rightarrow> result \<Rightarrow> ReplayReport \<Rightarrow> ReplayReport" where
  "compare entry old new rep =
     (if res_FinalVerdict old = res_FinalVerdict new
      then rep\<lparr>rp_Unchanged := rp_Unchanged rep + 1\<rparr>
      else
        (let diff = \<lparr>vd_EventID = ev_EventID (te_Event entry), vd_EventType = ev_EventType (te_Event entry),
                     vd_OldVerdict = res_FinalVerdict old, vd_NewVerdict = res_FinalVerdict new,
                     vd_OldRules = ruleIDs (res_TriggeredRules old),
                     vd_NewRules = ruleIDs (res_TriggeredRules new)\<rparr>
         in rep\<lparr>rp_Changed := rp_Changed rep + 1, rp_Diffs := rp_Diffs rep @ [diff],
                rp_ChangesByRule := fold count_rule (vd_NewRules diff) (rp_ChangesByRule rep)\<rparr>))"

definition diffAgainstTrace :: "trace_entry list \<Rightarrow> result strmap \<Rightarrow> ReplayReport" where
  "diffAgainstTrace entries newResults =
     fold (\<lambda>entry rep.
        (case map_of newResults (ev_EventID (te_Event entry)) of
           None \<Rightarrow> rep
         | Some new \<Rightarrow> compare entry (te_Result entry) new rep)) entries (new_report entries)"

definition diffTwoRuns :: "trace_entry list \<Rightarrow> result strmap \<Rightarrow> result strmap \<Rightarrow> ReplayReport" where
  "diffTwoRuns entries oldResults newResults =
     fold (\<lambda>entry rep.
        (case (map_of oldResults (ev_EventID (te_Event entry)), map_of newResults (ev_EventID (te_Event entry))) of
           (Some old, Some new) \<Rightarrow> compare entry old new rep
         | _ \<Rightarrow> rep)) entries (new_report entries)"

text \<open>
  \<^verbatim>\<open>printReport\<close>: the duration as text and the order in which the map of changes is walked are
  parameters. The first twenty diffs are listed, then how many are left out.
\<close>

definition diff_line :: "VerdictDiff \<Rightarrow> string" where
  "diff_line d = ''  '' @ pad_right 40 (vd_EventID d) @ '' '' @ vd_OldVerdict d @ '' -> '' @ vd_NewVerdict d"

fun diff_lines :: "nat \<Rightarrow> nat \<Rightarrow> VerdictDiff list \<Rightarrow> string list" where
  "diff_lines n shown [] = []"
| "diff_lines n shown (d # ds) =
     (if shown \<ge> 20 then [''  ... and '' @ dec_int (int n - 20) @ '' more'']
      else diff_line d # diff_lines n (Suc shown) ds)"

definition report_lines :: "string \<Rightarrow> string \<Rightarrow> (nat strmap \<Rightarrow> nat strmap) \<Rightarrow> ReplayReport \<Rightarrow> string list" where
  "report_lines mode duration walk rep =
     [''=== '' @ mode @ '' Report ==='',
      ''Total events:  '' @ dec_nat (rp_TotalEvents rep),
      ''Changed:       '' @ dec_nat (rp_Changed rep),
      ''Unchanged:     '' @ dec_nat (rp_Unchanged rep),
      ''Duration:      '' @ duration] @
     (if rp_ChangesByRule rep = [] then []
      else '''' # ''Changes by rule:'' #
        map (\<lambda>(rid, n). ''  '' @ pad_right 40 rid @ '' '' @ dec_nat n) (walk (rp_ChangesByRule rep))) @
     (if rp_Diffs rep = [] then ['''', ''No verdict changes detected.'']
      else '''' # ''Verdict changes (first 20):'' # diff_lines (length (rp_Diffs rep)) 0 (rp_Diffs rep))"

lemma diff_lines_take:
  "diff_lines n k ds = map diff_line (take (20 - k) ds) @
     (if length ds > 20 - k then [''  ... and '' @ dec_int (int n - 20) @ '' more''] else [])"
proof (induction n k ds rule: diff_lines.induct)
  case (2 n k d ds)
  show ?case
  proof (cases "k \<ge> 20")
    case False
    then have "20 - k = Suc (20 - Suc k)" by arith
    with 2 False show ?thesis by simp
  qed simp
qed simp

lemma diff_lines_all:
  "diff_lines (length ds) 0 ds = map diff_line (take 20 ds) @
     (if length ds > 20 then [''  ... and '' @ dec_nat (length ds - 20) @ '' more''] else [])"
  by (simp add: diff_lines_take dec_int_def nat_diff_distrib')

definition exit_code :: "ReplayReport \<Rightarrow> int" where
  "exit_code rep = (if rp_Changed rep > 0 then 1 else 0)"

section \<open>The diff is exact\<close>

text \<open>The pairs a diff compares, and those that differ.\<close>

definition pairs_of ::
  "(trace_entry \<Rightarrow> (result \<times> result) option) \<Rightarrow> trace_entry list \<Rightarrow> (trace_entry \<times> result \<times> result) list" where
  "pairs_of f entries = List.map_filter (\<lambda>en. map_option (\<lambda>p. (en, p)) (f en)) entries"

definition differs :: "trace_entry \<times> result \<times> result \<Rightarrow> bool" where
  "differs p \<longleftrightarrow> res_FinalVerdict (fst (snd p)) \<noteq> res_FinalVerdict (snd (snd p))"

definition diff_of :: "trace_entry \<times> result \<times> result \<Rightarrow> VerdictDiff" where
  "diff_of p = (case p of (entry, old, new) \<Rightarrow>
     \<lparr>vd_EventID = ev_EventID (te_Event entry), vd_EventType = ev_EventType (te_Event entry),
      vd_OldVerdict = res_FinalVerdict old, vd_NewVerdict = res_FinalVerdict new,
      vd_OldRules = ruleIDs (res_TriggeredRules old), vd_NewRules = ruleIDs (res_TriggeredRules new)\<rparr>)"

definition rule_count :: "string \<Rightarrow> nat strmap \<Rightarrow> nat" where
  "rule_count rid m = (case map_of m rid of None \<Rightarrow> 0 | Some n \<Rightarrow> n)"

lemma count_rule_count: "rule_count rid (count_rule r m) = rule_count rid m + (if r = rid then 1 else 0)"
  by (simp add: rule_count_def count_rule_def)

lemma fold_count_rule:
  "rule_count rid (fold count_rule rs m) = rule_count rid m + count_list rs rid"
  by (induction rs arbitrary: m) (simp_all add: count_rule_count)

lemma diff_fold:
  fixes f :: "trace_entry \<Rightarrow> (result \<times> result) option"
  defines "step \<equiv> \<lambda>en rep. case f en of None \<Rightarrow> rep | Some (old, new) \<Rightarrow> compare en old new rep"
  shows "rp_TotalEvents (fold step es rep) = rp_TotalEvents rep"
    and "rp_Changed (fold step es rep) = rp_Changed rep + length (filter differs (pairs_of f es))"
    and "rp_Unchanged (fold step es rep) = rp_Unchanged rep + length (filter (\<lambda>p. \<not> differs p) (pairs_of f es))"
    and "rp_Diffs (fold step es rep) = rp_Diffs rep @ map diff_of (filter differs (pairs_of f es))"
    and "rule_count rid (rp_ChangesByRule (fold step es rep)) = rule_count rid (rp_ChangesByRule rep)
           + sum_list (map (\<lambda>p. count_list (vd_NewRules (diff_of p)) rid) (filter differs (pairs_of f es)))"
proof (induction es arbitrary: rep)
  case Nil
  { case 1 show ?case by simp next case 2 show ?case by (simp add: pairs_of_def map_filter_def)
  next case 3 show ?case by (simp add: pairs_of_def map_filter_def)
  next case 4 show ?case by (simp add: pairs_of_def map_filter_def)
  next case 5 show ?case by (simp add: pairs_of_def map_filter_def) }
next
  case (Cons en es)
  have p: "pairs_of f (en # es) = (case f en of None \<Rightarrow> [] | Some on \<Rightarrow> [(en, on)]) @ pairs_of f es"
    by (simp add: pairs_of_def map_filter_def split: option.splits)
  note simps = p step_def compare_def differs_def diff_of_def Let_def fold_count_rule
  { case 1 show ?case using Cons(1) [of "step en rep"] by (simp add: simps split: option.splits prod.splits)
  next case 2 show ?case using Cons(2) [of "step en rep"] by (simp add: simps split: option.splits prod.splits)
  next case 3 show ?case using Cons(3) [of "step en rep"] by (simp add: simps split: option.splits prod.splits)
  next case 4 show ?case using Cons(4) [of "step en rep"] by (simp add: simps split: option.splits prod.splits)
  next case 5 show ?case using Cons(5) [of "step en rep"] by (simp add: simps split: option.splits prod.splits) }
qed

text \<open>The two diffs as instances of one fold.\<close>

definition old_new_trace :: "result strmap \<Rightarrow> trace_entry \<Rightarrow> (result \<times> result) option" where
  "old_new_trace new en = map_option (\<lambda>n. (te_Result en, n)) (map_of new (ev_EventID (te_Event en)))"

definition old_new_runs :: "result strmap \<Rightarrow> result strmap \<Rightarrow> trace_entry \<Rightarrow> (result \<times> result) option" where
  "old_new_runs old new en =
     (case (map_of old (ev_EventID (te_Event en)), map_of new (ev_EventID (te_Event en))) of
        (Some o', Some n) \<Rightarrow> Some (o', n) | _ \<Rightarrow> None)"

lemma diffAgainstTrace_fold:
  "diffAgainstTrace es new =
     fold (\<lambda>en rep. case old_new_trace new en of None \<Rightarrow> rep | Some (o', n) \<Rightarrow> compare en o' n rep) es (new_report es)"
proof -
  have "(\<lambda>en rep. case old_new_trace new en of None \<Rightarrow> rep | Some (o', n) \<Rightarrow> compare en o' n rep) =
      (\<lambda>en rep. case map_of new (ev_EventID (te_Event en)) of None \<Rightarrow> rep | Some n \<Rightarrow> compare en (te_Result en) n rep)"
    by (intro ext) (simp add: old_new_trace_def split: option.splits)
  then show ?thesis by (simp add: diffAgainstTrace_def)
qed

lemma diffTwoRuns_fold:
  "diffTwoRuns es old new =
     fold (\<lambda>en rep. case old_new_runs old new en of None \<Rightarrow> rep | Some (o', n) \<Rightarrow> compare en o' n rep) es (new_report es)"
proof -
  have "(\<lambda>en rep. case old_new_runs old new en of None \<Rightarrow> rep | Some (o', n) \<Rightarrow> compare en o' n rep) =
      (\<lambda>en rep. case (map_of old (ev_EventID (te_Event en)), map_of new (ev_EventID (te_Event en))) of
         (Some o', Some n) \<Rightarrow> compare en o' n rep | _ \<Rightarrow> rep)"
    by (intro ext) (simp add: old_new_runs_def split: option.splits)
  then show ?thesis by (simp add: diffTwoRuns_def)
qed

lemma diff_trace_facts:
  "rp_TotalEvents (diffAgainstTrace es new) = length es"
  "rp_Changed (diffAgainstTrace es new) = length (filter differs (pairs_of (old_new_trace new) es))"
  "rp_Unchanged (diffAgainstTrace es new) = length (filter (\<lambda>p. \<not> differs p) (pairs_of (old_new_trace new) es))"
  "rp_Diffs (diffAgainstTrace es new) = map diff_of (filter differs (pairs_of (old_new_trace new) es))"
  "rule_count rid (rp_ChangesByRule (diffAgainstTrace es new)) =
     sum_list (map (\<lambda>p. count_list (vd_NewRules (diff_of p)) rid) (filter differs (pairs_of (old_new_trace new) es)))"
  unfolding diffAgainstTrace_fold diff_fold by (simp_all add: new_report_def rule_count_def)

lemma diff_runs_facts:
  "rp_TotalEvents (diffTwoRuns es old new) = length es"
  "rp_Changed (diffTwoRuns es old new) = length (filter differs (pairs_of (old_new_runs old new) es))"
  "rp_Unchanged (diffTwoRuns es old new) = length (filter (\<lambda>p. \<not> differs p) (pairs_of (old_new_runs old new) es))"
  "rp_Diffs (diffTwoRuns es old new) = map diff_of (filter differs (pairs_of (old_new_runs old new) es))"
  "rule_count rid (rp_ChangesByRule (diffTwoRuns es old new)) =
     sum_list (map (\<lambda>p. count_list (vd_NewRules (diff_of p)) rid) (filter differs (pairs_of (old_new_runs old new) es)))"
  unfolding diffTwoRuns_fold diff_fold by (simp_all add: new_report_def rule_count_def)

section \<open>The command\<close>

text \<open>
  \<^verbatim>\<open>main\<close> checks its flags, reads the trace, compiles one or two rule sets with a compiler of
  its own, replays, diffs and exits. \<open>run\<close> is \<open>replayEvents\<close> on a snapshot, with the schedule and
  the observations of that run.
\<close>

definition compileRules ::
  "front_end \<Rightarrow> (bytes \<Rightarrow> bytes) \<Rightarrow> (rule list \<Rightarrow> rule list) \<Rightarrow> string + string \<Rightarrow> gotime \<Rightarrow> dir
     \<Rightarrow> compile_error + snapshot" where
  "compileRules init sha sort_rules uuid now d = fst (CompileDir init sha sort_rules uuid now d fresh_compiler)"

datatype replay_failure =
    TracesRequired
  | ShadowRulesRequired
  | RulesRequired
  | LoadFailed trace_error
  | CompileFailed compile_error
  | Panicked replay_panic

type_synonym replay_run = "snapshot \<Rightarrow> trace_entry list \<Rightarrow> (replay_panic + result strmap) option"

definition runReplay ::
  "replay_run \<Rightarrow> trace_error + trace_entry list \<Rightarrow> compile_error + snapshot \<Rightarrow> (replay_failure + ReplayReport) option" where
  "runReplay run loaded compiled =
     (case loaded of
        Inl e \<Rightarrow> Some (Inl (LoadFailed e))
      | Inr entries \<Rightarrow>
     (case compiled of
        Inl e \<Rightarrow> Some (Inl (CompileFailed e))
      | Inr snap \<Rightarrow>
     (case run snap entries of
        None \<Rightarrow> None
      | Some (Inl p) \<Rightarrow> Some (Inl (Panicked p))
      | Some (Inr results) \<Rightarrow> Some (Inr (diffAgainstTrace entries results)))))"

definition runShadow ::
  "replay_run \<Rightarrow> trace_error + trace_entry list \<Rightarrow> compile_error + snapshot \<Rightarrow> compile_error + snapshot
     \<Rightarrow> (replay_failure + ReplayReport) option" where
  "runShadow run loaded oldc newc =
     (case loaded of
        Inl e \<Rightarrow> Some (Inl (LoadFailed e))
      | Inr entries \<Rightarrow>
     (case oldc of
        Inl e \<Rightarrow> Some (Inl (CompileFailed e))
      | Inr oldSnap \<Rightarrow>
     (case newc of
        Inl e \<Rightarrow> Some (Inl (CompileFailed e))
      | Inr newSnap \<Rightarrow>
     (case run oldSnap entries of
        None \<Rightarrow> None
      | Some (Inl p) \<Rightarrow> Some (Inl (Panicked p))
      | Some (Inr oldResults) \<Rightarrow>
     (case run newSnap entries of
        None \<Rightarrow> None
      | Some (Inl p) \<Rightarrow> Some (Inl (Panicked p))
      | Some (Inr newResults) \<Rightarrow> Some (Inr (diffTwoRuns entries oldResults newResults)))))))"

record replay_flags =
  fl_traces :: string
  fl_rules :: string
  fl_oldRules :: string
  fl_newRules :: string
  fl_shadow :: bool

definition replay_main ::
  "replay_run \<Rightarrow> (string \<Rightarrow> trace_error + trace_entry list) \<Rightarrow> (string \<Rightarrow> compile_error + snapshot)
     \<Rightarrow> replay_flags \<Rightarrow> (replay_failure + ReplayReport) option" where
  "replay_main run load compile f =
     (if fl_traces f = '''' then Some (Inl TracesRequired)
      else if fl_shadow f then
        (if fl_oldRules f = '''' \<or> fl_newRules f = '''' then Some (Inl ShadowRulesRequired)
         else runShadow run (load (fl_traces f)) (compile (fl_oldRules f)) (compile (fl_newRules f)))
      else if fl_rules f = '''' then Some (Inl RulesRequired)
      else runReplay run (load (fl_traces f)) (compile (fl_rules f)))"

text \<open>The process status: 1 for an error or a changed verdict, 2 for a panic.\<close>

fun exit_status :: "replay_failure + ReplayReport \<Rightarrow> int" where
  "exit_status (Inl (Panicked p)) = 2"
| "exit_status (Inl e) = 1"
| "exit_status (Inr rep) = exit_code rep"

text \<open>Status 0 means that the trace was read, the rules compiled, and no verdict compared differed.\<close>

lemma exit_status_zero: "exit_status r = 0 \<longleftrightarrow> (\<exists>rep. r = Inr rep \<and> rp_Changed rep = 0)"
  by (cases r rule: exit_status.cases) (auto simp: exit_code_def)

lemma replay_main_report:
  assumes "replay_main run load compile f = Some (Inr rep)"
  obtains entries snap where "load (fl_traces f) = Inr entries"
    and "compile (if fl_shadow f then fl_newRules f else fl_rules f) = Inr snap"
    and "rp_TotalEvents rep = length entries"
proof -
  have len: "rp_TotalEvents (diffAgainstTrace es n) = length es" "rp_TotalEvents (diffTwoRuns es o' n) = length es"
    for es o' n using diff_trace_facts(1) diff_runs_facts(1) by simp_all
  from assms that len show thesis
    unfolding replay_main_def runReplay_def runShadow_def
    by (auto split: if_splits sum.splits option.splits)
qed

text \<open>A rule set in shadow of itself, replayed in the same way, shows no change.\<close>

lemma runShadow_same:
  assumes "runShadow run loaded c c = Some (Inr rep)"
  shows "exit_status (Inr rep) = 0 \<and> rp_Diffs rep = []"
proof -
  have "filter differs (pairs_of (old_new_runs m m) es) = []" for m es
    by (auto simp: pairs_of_def differs_def old_new_runs_def filter_empty_conv map_filter_def split: option.splits)
  then have "rp_Changed (diffTwoRuns es m m) = 0" "rp_Diffs (diffTwoRuns es m m) = []" for es m
    by (simp_all add: diff_runs_facts)
  with assms show ?thesis
    by (auto simp: runShadow_def exit_code_def split: sum.splits option.splits)
qed

section \<open>Which events take part\<close>

lemma results_map_keys: "fst ` set (results_map rs) = res_EventID ` set rs"
proof -
  have "fst ` set (fold (\<lambda>r m. alist_upd m (res_EventID r) r) rs m) = fst ` set m \<union> res_EventID ` set rs" for m
    by (induction rs arbitrary: m) auto
  then show ?thesis by (simp add: results_map_def)
qed

lemma jobs_of_work: "jobs_of (map (\<lambda>(i, en). Work i (mkjob en)) xs) = map (\<lambda>(i, en). mkjob en) xs"
  by (induction xs) auto

lemma replayEvents_complete:
  assumes n: "numWorkers > 0" "length (po_workers p) = nat numWorkers"
    and sched: "mset (map snd (sched entries)) = mset entries" "\<forall>x \<in> set (sched entries). fst x < nat numWorkers"
    and job: "\<And>en. j_event (mkjob en) = te_Event en" "\<And>en snap. j_snap (mkjob en) = Some snap \<Longrightarrow> snapshot_wf snap"
  shows "\<exists>m. replayEvents call tmo mkjob sched entries numWorkers p = Some (Inr m) \<and>
           fst ` set m = (\<lambda>en. ev_EventID (te_Event en)) ` set entries"
proof (cases "entries = []")
  case True
  then show ?thesis by (simp add: replayEvents_def)
next
  case False
  let ?as = "map (\<lambda>(i, en). Work i (mkjob en)) (sched entries)"
  have "schedule_ok (length (po_workers p)) ?as"
    using sched(2) n(2) job(2) by (auto simp: schedule_ok_def)
  then obtain rs p' where r: "pool_run call tmo ?as p = Some (Inr (rs, p'))"
    "map res_EventID rs = map (\<lambda>j. ev_EventID (j_event j)) (jobs_of ?as)" using pool_run_total by blast
  have "set (map snd (sched entries)) = set entries" using sched(1) by (metis set_mset_mset)
  then have "res_EventID ` set rs = (\<lambda>en. ev_EventID (te_Event en)) ` set entries"
    using arg_cong [OF r(2), of set] by (auto simp: jobs_of_work job(1) image_iff split: prod.splits) force+
  with False n(1) r(1) show ?thesis by (simp add: replayEvents_def results_map_keys)
qed

lemma pairs_of_total:
  assumes "\<forall>en \<in> set es. f en \<noteq> None"
  shows "length (pairs_of f es) = length es"
  using assms by (induction es) (auto simp: pairs_of_def map_filter_def)

text \<open>A replay without workers evaluates nothing and reports no change.\<close>

lemma replay_zero_workers:
  "replayEvents call tmo mkjob sched entries 0 p = Some (Inr [])"
  "exit_code (diffAgainstTrace entries []) = 0"
proof -
  show "replayEvents call tmo mkjob sched entries 0 p = Some (Inr [])" by (simp add: replayEvents_def)
  have "fold (\<lambda>entry rep. rep) entries rep = rep" for rep :: ReplayReport
    by (induction entries) simp_all
  then show "exit_code (diffAgainstTrace entries []) = 0"
    by (simp add: diffAgainstTrace_def exit_code_def new_report_def)
qed

section \<open>Properties\<close>


definition traced :: "string \<Rightarrow> verdict \<Rightarrow> trace_entry" where
  "traced i v = \<lparr>te_Event = sample_event\<lparr>ev_EventID := i\<rparr>, te_Result = done_result i v,
     te_SnapshotID = ''s0'', te_Timestamp = 0\<rparr>"

definition replay_job :: "trace_entry \<Rightarrow> job" where
  "replay_job en = (sample_job (te_Event en))\<lparr>j_snap := None\<rparr>"


end
