(* ===== verification/Shim.thy ===== *)
theory Shim
  imports Values Text
begin

text \<open>
  \<^verbatim>\<open>jetstream_test/shim/main.go\<close>: feed messages are turned into events and posted. Decoders,
  clocks and HTTP answers are parameters.
\<close>

section \<open>The shim: transformation\<close>

record jetstreamCommit =
  jc_Rev :: string
  jc_Operation :: string
  jc_Collection :: string
  jc_RKey :: string
  jc_Record :: "payload option"
  jc_CID :: string

record jetstreamEvent =
  je_DID :: string
  je_TimeUS :: int
  je_Kind :: string
  je_Commit :: "jetstreamCommit option"

text \<open>A failed type assertion yields the zero value; a nil record has no entries.\<close>

definition str_of :: "goval option \<Rightarrow> string" where
  "str_of v = (case v of Some (AString s) \<Rightarrow> s | _ \<Rightarrow> '''')"

definition record_of :: "jetstreamCommit \<Rightarrow> payload" where
  "record_of c = (case jc_Record c of None \<Rightarrow> [] | Some r \<Rightarrow> r)"

definition timestamp_of :: "string \<Rightarrow> payload \<Rightarrow> string" where
  "timestamp_of now r = (let c = str_of (map_of r ''createdAt'') in if c \<noteq> '''' then c else now)"

definition langs_of :: "payload \<Rightarrow> goval" where
  "langs_of r =
     (case map_of r ''langs'' of
        Some (AList ls) \<Rightarrow>
          (case List.map_filter (\<lambda>l. case l of AString s \<Rightarrow> Some (AString s) | _ \<Rightarrow> None) ls of
             [] \<Rightarrow> ANil | ss \<Rightarrow> AList ss)
      | _ \<Rightarrow> ANil)"

definition event_id_of :: "jetstreamEvent \<Rightarrow> jetstreamCommit \<Rightarrow> string" where
  "event_id_of evt c = je_DID evt @ ''/'' @ jc_Collection c @ ''/'' @ jc_RKey c"

definition transformPost :: "string \<Rightarrow> jetstreamEvent \<Rightarrow> jetstreamCommit \<Rightarrow> payload" where
  "transformPost now evt c =
     (let r = record_of c; text = str_of (map_of r ''text'') in
      [(''event_id'', AString (event_id_of evt c)),
       (''event_type'', AString ''post''),
       (''timestamp'', AString (timestamp_of now r)),
       (''entity_id'', AString (je_DID evt)),
       (''text'', AString text),
       (''char_count'', AInt (int (RuneCount text))),
       (''langs'', langs_of r),
       (''is_reply'', ABool (case map_of r ''reply'' of None \<Rightarrow> False | Some v \<Rightarrow> v \<noteq> ANil)),
       (''rkey'', AString (jc_RKey c)),
       (''cid'', AString (jc_CID c))])"

definition transformLike :: "string \<Rightarrow> jetstreamEvent \<Rightarrow> jetstreamCommit \<Rightarrow> payload" where
  "transformLike now evt c =
     (let r = record_of c;
          subject = (case map_of r ''subject'' of Some (AMap m) \<Rightarrow> m | _ \<Rightarrow> []) in
      [(''event_id'', AString (event_id_of evt c)),
       (''event_type'', AString ''like''),
       (''timestamp'', AString (timestamp_of now r)),
       (''entity_id'', AString (je_DID evt)),
       (''subject_uri'', AString (str_of (map_of subject ''uri''))),
       (''subject_cid'', AString (str_of (map_of subject ''cid''))),
       (''rkey'', AString (jc_RKey c)),
       (''cid'', AString (jc_CID c))])"

text \<open>The filter of the read loop: the payload to send, or \<open>None\<close> for a skipped message.\<close>

definition shim_filter :: "string \<Rightarrow> string + jetstreamEvent \<Rightarrow> payload option" where
  "shim_filter now msg =
     (case msg of
        Inl _ \<Rightarrow> None
      | Inr evt \<Rightarrow>
     (case je_Commit evt of
        None \<Rightarrow> None
      | Some c \<Rightarrow>
          if je_Kind evt \<noteq> ''commit'' then None
          else if jc_Operation c \<noteq> ''create'' then None
          else if jc_Record c = None then None
          else if jc_Collection c = ''app.bsky.feed.post'' then Some (transformPost now evt c)
          else if jc_Collection c = ''app.bsky.feed.like'' then Some (transformLike now evt c)
          else None))"

section \<open>The shim: posting and counting\<close>

datatype post_error =
    MarshalError string
  | NewRequestError string
  | PostError string
  | PostCancelled
  | UnexpectedStatus int
  | DroppedAfterRetries

text \<open>
  The attempts of one post: \<open>ans i\<close> is the answer to attempt \<open>i\<close>, \<open>cancelled i\<close> whether the
  context ends during the pause after it. The result carries the pauses in milliseconds.
\<close>

fun post_loop ::
  "(nat \<Rightarrow> string option) \<Rightarrow> (nat \<Rightarrow> string + int) \<Rightarrow> (nat \<Rightarrow> bool) \<Rightarrow> nat \<Rightarrow> nat \<Rightarrow> nat
     \<Rightarrow> post_error option \<times> nat list" where
  "post_loop build ans cancelled attempt bo 0 = (Some DroppedAfterRetries, [])"
| "post_loop build ans cancelled attempt bo (Suc left) =
     (case build attempt of
        Some e \<Rightarrow> (Some (NewRequestError e), [])
      | None \<Rightarrow>
          (case ans attempt of
             Inl e \<Rightarrow> (Some (PostError e), [])
           | Inr code \<Rightarrow>
               if code = 202 then (None, [])
               else if code = 429 then
                 (if cancelled attempt then (Some PostCancelled, [bo])
                  else (case post_loop build ans cancelled (Suc attempt) (bo * 2) left of
                          (r, ps) \<Rightarrow> (r, bo # ps)))
               else (Some (UnexpectedStatus code), [])))"

definition postToFruitfly ::
  "string + bytes \<Rightarrow> (nat \<Rightarrow> string option) \<Rightarrow> (nat \<Rightarrow> string + int) \<Rightarrow> (nat \<Rightarrow> bool)
     \<Rightarrow> post_error option \<times> nat list" where
  "postToFruitfly marshalled build ans cancelled =
     (case marshalled of
        Inl e \<Rightarrow> (Some (MarshalError e), [])
      | Inr body \<Rightarrow> post_loop build ans cancelled 0 100 3)"

section \<open>The shim: the process\<close>

text \<open>
  The reading goroutine dials, reads, pauses for a second after a failure, or holds an event
  for which it waits for a slot of the semaphore. The main goroutine waits for a signal or for
  the reader, then for the posts in flight, five seconds at most, then writes the statistics
  (the four counters are read as of one moment) and ends the process.
\<close>

datatype reader = Dialing | Reading | Pausing | Acquiring payload | Returned

datatype shim_main = ShimRunning | ShimDraining | ShimStopping | ShimExited

record shim =
  sh_reader :: reader
  sh_main :: shim_main
  sh_cancelled :: bool
  sh_timedOut :: bool
  sh_sent :: int
  sh_skipped :: int
  sh_dropped :: int
  sh_errors :: int
  sh_dispatched :: int
  sh_inflight :: "payload list"
  sh_stats :: "string option"

definition shim_init :: shim where
  "shim_init = \<lparr>sh_reader = Dialing, sh_main = ShimRunning, sh_cancelled = False, sh_timedOut = False,
     sh_sent = 0, sh_skipped = 0, sh_dropped = 0, sh_errors = 0, sh_dispatched = 0, sh_inflight = [],
     sh_stats = None\<rparr>"

definition limit_reached :: "int \<Rightarrow> shim \<Rightarrow> bool" where
  "limit_reached maxEvents s \<longleftrightarrow> maxEvents > 0 \<and> sh_dispatched s \<ge> maxEvents"

text \<open>The line logged every five seconds, and the content of the statistics file.\<close>

definition stats_line :: "shim \<Rightarrow> string" where
  "stats_line s = ''[shim] sent='' @ dec_int (sh_sent s) @ '' skipped='' @ dec_int (sh_skipped s) @
     '' dropped='' @ dec_int (sh_dropped s) @ '' errors='' @ dec_int (sh_errors s)"


definition stats_text :: "shim \<Rightarrow> string" where
  "stats_text s = print_lines [''sent='' @ dec_int (sh_sent s), ''skipped='' @ dec_int (sh_skipped s),
     ''dropped='' @ dec_int (sh_dropped s), ''errors='' @ dec_int (sh_errors s)]"


datatype shim_event =
    DialOk
  | DialFailed
  | PauseOver
  | ContextSeen
  | LimitSeen
  | Message string "string + jetstreamEvent"
  | ReadError
  | SlotAcquired
  | PostDone nat "post_error option"
  | Signal
  | ReaderDone
  | Drained
  | DrainGaveUp
  | StatsWritten
  | StatsFailed

text \<open>
  The reader's and the posting goroutines' cases. Reading looks at the limit first and at the
  context second; a message can arrive after the context ended, since reading does not look at
  it. \<open>None\<close>: this cannot happen in the state.
\<close>

fun reader_step :: "int \<Rightarrow> nat \<Rightarrow> shim_event \<Rightarrow> shim \<Rightarrow> shim option" where
  "reader_step maxEvents conc DialOk s =
     (if sh_reader s = Dialing then Some (s\<lparr>sh_reader := Reading\<rparr>) else None)"
| "reader_step maxEvents conc DialFailed s =
     (if sh_reader s = Dialing then Some (s\<lparr>sh_reader := Pausing\<rparr>) else None)"
| "reader_step maxEvents conc PauseOver s =
     (if sh_reader s = Pausing then Some (s\<lparr>sh_reader := Dialing\<rparr>) else None)"
| "reader_step maxEvents conc ContextSeen s =
     (if sh_cancelled s \<and> (sh_reader s \<in> {Dialing, Pausing} \<or> sh_reader s = Reading \<and> \<not> limit_reached maxEvents s)
      then Some (s\<lparr>sh_reader := Returned\<rparr>) else None)"
| "reader_step maxEvents conc LimitSeen s =
     (if sh_reader s = Reading \<and> limit_reached maxEvents s then Some (s\<lparr>sh_reader := Returned\<rparr>) else None)"
| "reader_step maxEvents conc (Message now msg) s =
     (if sh_reader s = Reading \<and> \<not> limit_reached maxEvents s
      then (case shim_filter now msg of
              None \<Rightarrow> Some (s\<lparr>sh_skipped := sh_skipped s + 1\<rparr>)
            | Some p \<Rightarrow> Some (s\<lparr>sh_dispatched := sh_dispatched s + 1, sh_reader := Acquiring p\<rparr>))
      else None)"
| "reader_step maxEvents conc ReadError s =
     (if sh_reader s = Reading \<and> \<not> limit_reached maxEvents s
      then Some (s\<lparr>sh_errors := sh_errors s + 1, sh_reader := Pausing\<rparr>) else None)"
| "reader_step maxEvents conc SlotAcquired s =
     (case sh_reader s of
        Acquiring p \<Rightarrow>
          if length (sh_inflight s) < conc
          then Some (s\<lparr>sh_inflight := sh_inflight s @ [p], sh_reader := Reading\<rparr>) else None
      | _ \<Rightarrow> None)"
| "reader_step maxEvents conc (PostDone i err) s =
     (if i < length (sh_inflight s)
      then Some ((case err of None \<Rightarrow> s\<lparr>sh_sent := sh_sent s + 1\<rparr>
                            | Some _ \<Rightarrow> s\<lparr>sh_dropped := sh_dropped s + 1\<rparr>)
                 \<lparr>sh_inflight := take i (sh_inflight s) @ drop (Suc i) (sh_inflight s)\<rparr>)
      else None)"
| "reader_step maxEvents conc e s = None"

text \<open>The main goroutine's cases, and the whole process: nothing happens after its end.\<close>

fun main_step :: "shim_event \<Rightarrow> shim \<Rightarrow> shim option" where
  "main_step Signal s =
     (if sh_main s = ShimRunning then Some (s\<lparr>sh_cancelled := True, sh_main := ShimDraining\<rparr>) else None)"
| "main_step ReaderDone s =
     (if sh_main s = ShimRunning \<and> sh_reader s = Returned then Some (s\<lparr>sh_main := ShimDraining\<rparr>) else None)"
| "main_step Drained s =
     (if sh_main s = ShimDraining \<and> sh_inflight s = [] then Some (s\<lparr>sh_main := ShimStopping\<rparr>) else None)"
| "main_step DrainGaveUp s =
     (if sh_main s = ShimDraining then Some (s\<lparr>sh_timedOut := True, sh_main := ShimStopping\<rparr>) else None)"
| "main_step StatsWritten s =
     (if sh_main s = ShimStopping then Some (s\<lparr>sh_main := ShimExited, sh_stats := Some (stats_text s)\<rparr>)
      else None)"
| "main_step StatsFailed s =
     (if sh_main s = ShimStopping then Some (s\<lparr>sh_main := ShimExited\<rparr>) else None)"
| "main_step e s = None"

definition shim_step :: "int \<Rightarrow> nat \<Rightarrow> shim_event \<Rightarrow> shim \<Rightarrow> shim option" where
  "shim_step maxEvents conc e s =
     (if sh_main s = ShimExited then None
      else (case reader_step maxEvents conc e s of None \<Rightarrow> main_step e s | Some s' \<Rightarrow> Some s'))"

fun shim_run :: "int \<Rightarrow> nat \<Rightarrow> shim_event list \<Rightarrow> shim \<Rightarrow> shim option" where
  "shim_run maxEvents conc [] s = Some s"
| "shim_run maxEvents conc (e # es) s =
     (case shim_step maxEvents conc e s of None \<Rightarrow> None | Some s' \<Rightarrow> shim_run maxEvents conc es s')"

fun is_message :: "shim_event \<Rightarrow> bool" where
  "is_message (Message _ _) = True"
| "is_message _ = False"

section \<open>Accounting\<close>

text \<open>
  Every message is skipped or dispatched; every dispatched event is held by the reader, in
  flight, sent or dropped; the limits on dispatching and concurrency hold; and a process that
  ended wrote its counters.
\<close>

definition held :: "shim \<Rightarrow> int" where
  "held s = (case sh_reader s of Acquiring _ \<Rightarrow> 1 | _ \<Rightarrow> 0)"

definition shim_inv :: "int \<Rightarrow> nat \<Rightarrow> shim_event list \<Rightarrow> shim \<Rightarrow> bool" where
  "shim_inv maxEvents conc es s \<longleftrightarrow>
     sh_skipped s + sh_dispatched s = int (length (filter is_message es)) \<and>
     sh_sent s + sh_dropped s + int (length (sh_inflight s)) + held s = sh_dispatched s \<and>
     length (sh_inflight s) \<le> conc \<and> 0 \<le> sh_sent s \<and> 0 \<le> sh_dropped s \<and>
     (maxEvents > 0 \<longrightarrow> sh_dispatched s \<le> maxEvents) \<and>
     (sh_reader s = Returned \<and> \<not> sh_cancelled s \<longrightarrow> limit_reached maxEvents s) \<and>
     (sh_main s \<noteq> ShimRunning \<and> \<not> sh_cancelled s \<longrightarrow> sh_reader s = Returned) \<and>
     (sh_main s \<in> {ShimStopping, ShimExited} \<and> \<not> sh_cancelled s \<longrightarrow> sh_timedOut s \<or> sh_inflight s = []) \<and>
     (sh_stats s \<noteq> None \<longrightarrow> sh_main s = ShimExited \<and> sh_stats s = Some (stats_text s))"

lemma stats_text_simps [simp]:
  "stats_text (s\<lparr>sh_main := m\<rparr>) = stats_text s" "stats_text (s\<lparr>sh_stats := x\<rparr>) = stats_text s"
  by (simp_all add: stats_text_def)

lemma reader_step_inv [inv_intros]:
  assumes "shim_inv maxEvents conc es s" and "sh_main s \<noteq> ShimExited"
    and "reader_step maxEvents conc e s = Some s'"
  shows "shim_inv maxEvents conc (es @ [e]) s'"
proof -
  from assms(1,2) have stats: "sh_stats s = None" by (auto simp: shim_inv_def)
  note inv = shim_inv_def held_def limit_reached_def
  show ?thesis
  proof (cases e)
    case (Message now msg)
    then have "sh_reader s = Reading" "\<not> limit_reached maxEvents s"
      and "s' = s\<lparr>sh_skipped := sh_skipped s + 1\<rparr> \<or>
        (\<exists>p. s' = s\<lparr>sh_dispatched := sh_dispatched s + 1, sh_reader := Acquiring p\<rparr>)"
      using assms(3) by (auto split: option.splits if_splits)
    with Message assms(1,2) stats show ?thesis
      by (elim disjE exE) (simp_all add: inv, linarith+)
  next
    case SlotAcquired
    then obtain p where "sh_reader s = Acquiring p" "length (sh_inflight s) < conc"
      "s' = s\<lparr>sh_inflight := sh_inflight s @ [p], sh_reader := Reading\<rparr>"
      using assms(3) by (auto split: reader.splits if_splits)
    with SlotAcquired assms(1,2) stats show ?thesis by (auto simp: inv)
  next
    case (PostDone i err)
    then have "i < length (sh_inflight s)"
      and "s' = s\<lparr>sh_sent := sh_sent s + 1, sh_inflight := take i (sh_inflight s) @ drop (Suc i) (sh_inflight s)\<rparr> \<or>
        s' = s\<lparr>sh_dropped := sh_dropped s + 1, sh_inflight := take i (sh_inflight s) @ drop (Suc i) (sh_inflight s)\<rparr>"
      using assms(3) by (auto split: option.splits if_splits)
    with PostDone assms(1,2) stats show ?thesis
      by (elim disjE) (auto simp: inv)
  next
    case ContextSeen
    with assms stats show ?thesis
      by (cases "sh_reader s") (clarsimp simp: inv split: if_splits)+
  qed (use assms stats in \<open>(clarsimp simp: inv split: if_splits)+\<close>)
qed

lemma main_step_inv [inv_intros]:
  assumes "shim_inv maxEvents conc es s" and "sh_main s \<noteq> ShimExited" and "main_step e s = Some s'"
  shows "shim_inv maxEvents conc (es @ [e]) s'"
  using assms
  by (cases e) (clarsimp simp: shim_inv_def held_def limit_reached_def split: if_splits; fail)+

lemma shim_step_inv [inv_intros]:
  assumes "shim_inv maxEvents conc es s" and "shim_step maxEvents conc e s = Some s'"
  shows "shim_inv maxEvents conc (es @ [e]) s'"
  using assms reader_step_inv main_step_inv
  by (auto simp: shim_step_def split: if_splits option.splits)

lemma shim_run_inv:
  "shim_inv maxEvents conc es0 s \<Longrightarrow> shim_run maxEvents conc es s = Some s' \<Longrightarrow>
     shim_inv maxEvents conc (es0 @ es) s'"
proof (induction es arbitrary: es0 s)
  case (Cons e es)
  then obtain s1 where "shim_step maxEvents conc e s = Some s1" "shim_run maxEvents conc es s1 = Some s'"
    by (auto split: option.splits)
  with Cons.IH [of "es0 @ [e]" s1] shim_step_inv [OF Cons.prems(1)] show ?case by simp
qed simp

lemma shim_inv_init: "0 \<le> maxEvents \<Longrightarrow> shim_inv maxEvents conc [] shim_init"
  by (simp add: shim_inv_def shim_init_def held_def)

text \<open>Posting makes at most three attempts and stops at the first answer that is not 429.\<close>

lemma post_loop_ok:
  "fst (post_loop build ans cancelled k bo left) = None \<Longrightarrow>
     \<exists>i. k \<le> i \<and> i < k + left \<and> ans i = Inr 202 \<and> (\<forall>j. k \<le> j \<longrightarrow> j < i \<longrightarrow> ans j = Inr 429)"
proof (induction build ans cancelled k bo left rule: post_loop.induct)
  case (2 build ans cancelled k bo left)
  show ?case
  proof (cases "ans k = Inr 429")
    case True
    with 2 have "fst (post_loop build ans cancelled (Suc k) (bo * 2) left) = None"
      by (auto split: option.splits if_splits prod.splits)
    with 2 True obtain i where i: "Suc k \<le> i" "i < Suc k + left" "ans i = Inr 202"
      "\<forall>j. Suc k \<le> j \<longrightarrow> j < i \<longrightarrow> ans j = Inr 429"
      by (auto split: option.splits if_splits prod.splits)
    have "\<forall>j. k \<le> j \<longrightarrow> j < i \<longrightarrow> ans j = Inr 429"
    proof (intro allI impI)
      fix j assume "k \<le> j" "j < i"
      then show "ans j = Inr 429" using i(4) True by (cases "j = k") auto
    qed
    with i show ?thesis by (intro exI [of _ i]) auto
  next
    case False
    with "2.prems" have "ans k = Inr 202" by (auto split: option.splits sum.splits if_splits prod.splits)
    then show ?thesis by (intro exI [of _ k]) auto
  qed
qed simp

lemma post_loop_pauses: "length (snd (post_loop build ans cancelled k bo left)) \<le> left"
  by (induction build ans cancelled k bo left rule: post_loop.induct)
     (auto split: option.splits sum.splits if_splits prod.splits)

text \<open>What the events the shim sends offer to the ingest server.\<close>

lemma transform_fields:
  assumes "shim_filter now (Inr evt) = Some p"
  shows "\<exists>c. je_Commit evt = Some c \<and> map_of p ''event_id'' = Some (AString (event_id_of evt c))"
    and "map_of p ''entity_id'' = Some (AString (je_DID evt))"
    and "\<exists>t. t \<noteq> '''' \<and> map_of p ''event_type'' = Some (AString t)"
    and "\<exists>ts. map_of p ''timestamp'' = Some (AString ts) \<and> (now \<noteq> '''' \<longrightarrow> ts \<noteq> '''')"
  using assms
  by (auto simp: shim_filter_def transformPost_def transformLike_def timestamp_of_def Let_def
      split: option.splits if_splits)

section \<open>Properties\<close>

text \<open>
  C39: the shim accounts for everything: after any run every message was skipped or
  dispatched, every dispatched event is waiting for a slot, in flight, was accepted or was
  dropped, concurrency and the event limit hold; a process that ended by itself, within its
  grace period, dispatched exactly the limit and reports each of these events as sent or
  dropped; and posting an event makes at most three attempts, the accepted one preceded only
  by 429 answers.
\<close>

theorem shim_accounts:
  assumes "0 \<le> maxEvents" and "shim_run maxEvents conc es shim_init = Some s"
  shows "sh_skipped s + sh_dispatched s = int (length (filter is_message es)) \<and>
    sh_sent s + sh_dropped s + int (length (sh_inflight s)) + held s = sh_dispatched s \<and>
    length (sh_inflight s) \<le> conc \<and> (maxEvents = 0 \<or> sh_dispatched s \<le> maxEvents) \<and>
    (sh_main s = ShimExited \<and> \<not> sh_cancelled s \<and> \<not> sh_timedOut s \<longrightarrow>
       sh_sent s + sh_dropped s = sh_dispatched s \<and> sh_dispatched s = maxEvents) \<and>
    sh_stats s \<in> {None, Some (stats_text s)} \<and>
    length (snd (postToFruitfly m build ans cancelled)) \<le> 3 \<and>
    (fst (postToFruitfly m build ans cancelled) = None \<longrightarrow>
       (\<exists>i < 3. ans i = Inr 202 \<and> list_all (\<lambda>j. ans j = Inr 429) [0..<i]))"
proof -
  have inv: "shim_inv maxEvents conc es s"
    using shim_run_inv [OF shim_inv_init [OF assms(1)] assms(2)] by simp
  have "\<exists>i < 3. ans i = Inr 202 \<and> list_all (\<lambda>j. ans j = Inr 429) [0..<i]"
    if "fst (postToFruitfly m build ans cancelled) = None"
  proof -
    from that have "fst (post_loop build ans cancelled 0 100 3) = None"
      by (auto simp: postToFruitfly_def split: sum.splits)
    from post_loop_ok [OF this] show ?thesis by (auto simp: list_all_iff)
  qed
  moreover have "length (snd (postToFruitfly m build ans cancelled)) \<le> 3"
    using post_loop_pauses [of build ans cancelled 0 100 3]
    by (auto simp: postToFruitfly_def split: sum.splits)
  moreover have "sh_main s = ShimExited \<and> \<not> sh_cancelled s \<and> \<not> sh_timedOut s \<longrightarrow>
       sh_sent s + sh_dropped s = sh_dispatched s \<and> sh_dispatched s = maxEvents"
    using inv by (auto simp: shim_inv_def limit_reached_def held_def)
  ultimately show ?thesis using inv assms(1) by (auto simp: shim_inv_def)
qed

definition sample_feed :: "shim_event list" where
  "sample_feed = [DialFailed, PauseOver, DialOk, Message ''now'' (Inl ''bad json''), ReadError, PauseOver, DialOk,
     Message ''now'' (Inr \<lparr>je_DID = ''did:1'', je_TimeUS = 0, je_Kind = ''commit'',
       je_Commit = Some \<lparr>jc_Rev = ''r'', jc_Operation = ''create'', jc_Collection = ''app.bsky.feed.like'',
         jc_RKey = ''k'', jc_Record = Some [], jc_CID = ''c''\<rparr>\<rparr>), SlotAcquired, LimitSeen, ReaderDone,
     PostDone 0 None, Drained, StatsWritten]"

theorem shim_accounts_witness:
  "\<exists>s. shim_run 1 2 sample_feed shim_init = Some s \<and> sh_sent s + sh_dropped s = 1 \<and>
     sh_stats s \<in> {None, Some (stats_text s)}"
proof -
  have "\<exists>s. shim_run 1 2 sample_feed shim_init = Some s \<and> sh_main s = ShimExited \<and> \<not> sh_cancelled s \<and> \<not> sh_timedOut s"
    by (simp add: sample_feed_def shim_init_def limit_reached_def shim_filter_def shim_step_def)
  then obtain s where s: "shim_run 1 2 sample_feed shim_init = Some s"
    "sh_main s = ShimExited \<and> \<not> sh_cancelled s \<and> \<not> sh_timedOut s" by blast
  have m: "0 \<le> (1 :: int)" by simp
  from shim_accounts [OF m s(1), of "Inl ''''" "\<lambda>_. None" "\<lambda>_. Inr 202" "\<lambda>_. False"] s show ?thesis
    by (intro exI [of _ s]) (simp only: , simp)
qed

text \<open>
  A post may take up to ten seconds, longer than the grace period: then the process ends with
  posts in flight, and the file it leaves does not account for them.
\<close>

definition slow_feed :: "shim_event list" where
  "slow_feed = [DialOk, Message ''now'' (Inr \<lparr>je_DID = ''did:1'', je_TimeUS = 0, je_Kind = ''commit'',
       je_Commit = Some \<lparr>jc_Rev = ''r'', jc_Operation = ''create'', jc_Collection = ''app.bsky.feed.like'',
         jc_RKey = ''k'', jc_Record = Some [], jc_CID = ''c''\<rparr>\<rparr>), SlotAcquired, LimitSeen, ReaderDone,
     DrainGaveUp, StatsWritten]"

lemma shim_stats_incomplete:
  "\<exists>s. shim_run 1 1 slow_feed shim_init = Some s \<and> sh_main s = ShimExited \<and> \<not> sh_cancelled s \<and>
     sh_stats s \<noteq> None \<and> sh_sent s + sh_dropped s < sh_dispatched s"
  by (simp add: slow_feed_def shim_init_def limit_reached_def shim_filter_def shim_step_def)

end
