(* ===== verification/Spec2Isabelle.thy ===== *)
theory Spec2Isabelle
  imports EndToEnd Deadline Replay Shim
begin

text \<open>
  Fruitfly: a rule engine for event streams, verified.

  \<^bold>\<open>The program.\<close> Fruitfly receives events over HTTP (\<^verbatim>\<open>ingest/server.go\<close>), keeps those it owns
  and forwards the others to the peer that owns their routing key (\<^verbatim>\<open>cluster/router.go\<close>),
  evaluates each event against the Starlark rules of the current snapshot on a pool of workers
  (\<^verbatim>\<open>executor/\<close>), and stores and posts the results (\<^verbatim>\<open>output/\<close>). Rules are compiled from a
  directory and hot-reloaded (\<^verbatim>\<open>rules/\<close>). \<^verbatim>\<open>main.go\<close> wires the parts with two channels and shuts
  them down in order; \<^verbatim>\<open>cmd/replay\<close> re-evaluates recorded traces; \<^verbatim>\<open>jetstream_test/\<close> feeds a live
  stream through a running server (the shim), receives its webhooks (the receiver) and compares
  the counts (the validator).

  \<^bold>\<open>The theories\<close>, in the order of their imports:

  \<^item> \<open>Prelude\<close>, \<open>Values\<close>, \<open>Text\<close>: byte strings, Go maps as association lists, \<^verbatim>\<open>float64\<close>, JSON and
    Starlark values, runes and printed lines. Library material: the language and its standard
    library, no code of the repository.
  \<^item> \<open>Types\<close> (\<^verbatim>\<open>types/types.go\<close>): events, verdicts, results. A Go \<^verbatim>\<open>error\<close> is a constructor.
  \<^item> \<open>Verdict\<close> (\<^verbatim>\<open>executor/verdict.go\<close>, \<^verbatim>\<open>verdictBuiltin\<close>): reading a rule's answer and resolving
    the verdicts of an event. Order independence, priority, round trip.
  \<^item> \<open>Cluster\<close> (\<^verbatim>\<open>cluster/router.go\<close>): rendezvous hashing on 64-bit words and forwarding. Unique
    owners, agreement of peers, minimal disruption when one leaves.
  \<^item> \<open>Match\<close> (\<^verbatim>\<open>rules/match.go\<close>): lowering a \<^verbatim>\<open>match\<close> declaration to predicates and evaluating
    them. Totality on what was lowered, and what each operator decides.
  \<^item> \<open>Compiler\<close> (\<^verbatim>\<open>rules/compiler.go\<close>): rules, snapshots with their per-type index, the content
    cache, all-or-nothing compilation of a directory.
  \<^item> \<open>Reloader\<close> (\<^verbatim>\<open>rules/reloader.go\<close>): the directory hash, the reload, the watch loop as a step
    function and \<open>reloader_run\<close> its runs. What is published is always well formed, and is the
    directory's content when hashing and compiling saw the same files.
  \<^item> \<open>Counters\<close> (\<^verbatim>\<open>executor/counters.go\<close>): sliding-window counters on packed 64-bit words, the
    sharded store, and the compare-and-swap loop as a transition system (\<open>cas_step\<close>).
  \<^item> \<open>Env\<close> (\<^verbatim>\<open>executor/env.go\<close>, \<^verbatim>\<open>rules/udfs.go\<close>): the builtins over the interface \<^verbatim>\<open>EvalEnv\<close>, and
    the worker that implements it.
  \<^item> \<open>LazyEvent\<close> (\<^verbatim>\<open>executor/event.go\<close>): the lazy view of an event as objects on a heap, since
    views are shared by reference and fill their caches as they are read.
  \<^item> \<open>Stats\<close> (\<^verbatim>\<open>rules/stats.go\<close>): the moving average with rounded arithmetic, and slow-rule
    warnings.
  \<^item> \<open>Pool\<close> (\<^verbatim>\<open>executor/pool.go\<close>): one rule, one event, one worker, the pool. \<open>Deadline\<close>: the
    interleaving of a worker with the deadline callbacks of its events.
  \<^item> \<open>Ingest\<close> (\<^verbatim>\<open>ingest/server.go\<close>): single events and batches, from the bytes of the request to
    the response, with the events enqueued and the requests forwarded.
  \<^item> \<open>Writer\<close> (\<^verbatim>\<open>output/writer.go\<close>, \<^verbatim>\<open>output/trace.go\<close>): batches, transactions, counters,
    webhooks, the trace recorder.
  \<^item> \<open>Config\<close> (\<^verbatim>\<open>config/config.go\<close>), \<open>Pipeline\<close> (\<^verbatim>\<open>main.go\<close>): start-up wiring, the admin
    endpoints and the multiplexer, the running process and its shutdown as the relation
    \<open>pi_step\<close>.
  \<^item> \<open>Replay\<close> (\<^verbatim>\<open>cmd/replay/main.go\<close>): traces, the two diffs, the report and the command.
  \<^item> \<open>Shim\<close>, \<open>Receiver\<close>, \<open>Validator\<close> (\<^verbatim>\<open>jetstream_test/shim\<close>, \<^verbatim>\<open>receiver\<close>, \<^verbatim>\<open>validate\<close>): the shim's
    transformation, its posting and its two goroutines as step functions; the receiver's
    handlers as sequences of atomic additions that interleave, and its shutdown; the validator
    with its queries, checks and report.
  \<^item> \<open>EndToEnd\<close>: the ingest server, the channels, the pool, the writer and the validator composed:
    \<open>serve\<close> answers a sequence of requests, \<open>complete_run\<close> takes what was accepted through to a
    closed writer along the channels of \<^verbatim>\<open>main.go\<close>. What was acknowledged is what is stored.
  \<^item> \<open>Spec2Isabelle\<close>: the other properties that span components.

  \<^bold>\<open>Correspondence.\<close> A struct is a record with a field prefix (\<open>ev_\<close>, \<open>rule_\<close>, \<open>rl_\<close>, \<open>sv_\<close>,
  \<open>wr_\<close>, ...), a method a function that takes the state and returns it updated, an error return a
  \<open>+\<close> with \<open>Inl\<close> the error, a panic an \<open>Inl\<close> too. A \<^verbatim>\<open>select\<close> loop is a function from an event
  (the case that fired) and a state to the next state, \<open>None\<close> when that case cannot fire; its
  runs are lists of events or an inductive reachability relation. Definitions keep the names of
  the functions they model; where a name is taken a prefix tells the component (\<open>ld_Get\<close>,
  \<open>store_sum\<close>). Parameters stand for what is not in the repository: the Starlark interpreter,
  JSON, YAML and RFC 3339 decoding, SHA-256, UUIDs, the regular-expression engine, DuckDB, HTTP
  transports, clocks and the file system. Where a property needs their documented behaviour it
  says so in a hypothesis: \<open>db_laws\<close> (transactions), \<open>sql_laws\<close> (counting and grouping), \<open>env_ok\<close>
  and \<open>env_ideal\<close> (the sort of \<^verbatim>\<open>sort.Slice\<close> sorts; a collision-free digest), \<open>distinct_hashes\<close>
  (no two peers with one hash).

  \<^bold>\<open>Interfaces.\<close> Each contract between components is a locale, interpreted on the code's own
  definitions: \<open>routing\<close> (\<^verbatim>\<open>ingest.Router\<close>; the cluster router), \<open>eval_env_laws\<close> (\<^verbatim>\<open>EvalEnv\<close>; the
  worker), \<open>counter_api\<close> (increment and sum; the sharded store), \<open>rounding\<close> (the arithmetic of
  \<open>Observe\<close>; round to nearest even on 53 bits), \<open>priority_sort\<close> (what \<open>CompileDir\<close> needs of its
  sort; insertion sort by priority).

  \<^bold>\<open>Bounds and termination.\<close> There is no fuel. Loops over lists are structural recursions; the
  readers of \<open>Ingest\<close>, \<open>RuneCount\<close> and \<open>webhook_loop\<close> have measures. The retry of the
  compare-and-swap loop and the loops that serve until told to stop are transition systems, so
  that nothing is assumed of their termination; that the retries end is a theorem (\<open>cas_work\<close>),
  and so is that a shutdown can always be completed (\<open>drain_work\<close>). \<^verbatim>\<open>int\<close>, \<^verbatim>\<open>int64\<close> and durations are unbounded
  integers; hashes and counter slots are words of their width, and \<open>window_count\<close> states the
  bound below which a packed count does not overflow into its epoch; \<open>percent_exact\<close> that up to
  \<open>2 ^ 40\<close> rows the rounding of \<^verbatim>\<open>float64\<close> does not touch the comparison with one percent.

  \<^bold>\<open>What was found.\<close> A peer's refusal is never recognised, because the router's error type has
  no \<^verbatim>\<open>StatusCode\<close> method (\<open>owner_refusal_processed_locally\<close>). A deadline that fires between the
  check and \<^verbatim>\<open>Uncancel\<close> is lost for that rule (\<open>deadline_can_be_lost\<close>). The last reload can
  leave a transient content published (\<open>doReload_stale\<close>). An affine key can have two home pods
  (\<open>affine_key_two_homes\<close>). A shutdown past its budgets breaks two stated guarantees
  (\<open>late_shutdown_breaks_promises\<close>). A replay without workers reports success
  (\<open>replay_zero_workers\<close>). A loss of exactly 1 percent passes as below it (\<open>percent_exact\<close>). The
  receiver can end with webhooks in flight, the shim with posts in flight that its statistics
  miss (\<open>receiver_exit_abandons_requests\<close>, \<open>shim_stats_incomplete\<close>). The end-to-end test reports an
  event the feed repeats as lost (\<open>end_to_end_test_sound\<close>), and a repeated webhook can hide a lost
  one from it (\<open>retry_masks_loss\<close>).

  \<^bold>\<open>Not modelled\<close>: the Starlark language itself and the other third-party libraries (parameters,
  above), nor SQL, websockets and HTTP clients beyond their answers; log output other than the
  statistics lines of the tools; the ticker goroutines other than as steps; \<^verbatim>\<open>flag\<close> parsing
  except the checks the commands make themselves. Requests are composed one after the other in
  \<open>EndToEnd\<close>; how handlers interleave with workers and shutdown is the subject of \<open>Pipeline\<close>. The
  tests and the shell scripts are not part of the development.
\<close>

section \<open>Rules that were published never bring the process down\<close>

text \<open>
  C11: a panic-free server: whatever the reloader went through since a successful start, an
  event evaluated under the snapshot it publishes yields a result with the event's id; the
  prefilter, whose panic no one would recover, does not panic.
\<close>

theorem published_rules_never_panic:
  assumes "env_ok e" and "cache_ok (re_init e) (re_sha e) c" and "NewReloader e ob c = Inr r"
    and "reloader_run e (run_init watching r) t"
  shows "\<exists>res s'. processEvent call obs tmo l d (rl_snapshot (rn_reloader t)) ev s = (Inr res, s') \<and>
    res_EventID res = ev_EventID ev"
proof -
  have "reloader_ok e (rn_reloader (run_init watching r))"
    using NewReloader_ok [OF assms(1-3)] by (simp add: run_init_def)
  from reloader_run_ok [OF assms(1,4) this] obtain snap where
    snap: "rl_snapshot (rn_reloader t) = Some snap" "snapshot_ok snap" by (auto simp: reloader_ok_def)
  obtain res s' where "processEvent call obs tmo l d (Some snap) ev s = (Inr res, s')"
    using processEvent_total [of "Some snap"] snapshot_ok_wf [OF snap(2)] by (metis option.inject)
  with snap(1) processEvent_id show ?thesis by metis
qed

theorem published_rules_never_panic_witness:
  "\<exists>res s'. processEvent failing_call on_time 1000 5 9
     (rl_snapshot (rn_reloader ((run_init True sample_reloader)
        \<lparr>rn_reloader := Reload (rn_reloader (run_init True sample_reloader))\<rparr>)))
     sample_event sample_state = (Inr res, s') \<and> res_EventID res = ''1''"
  using published_rules_never_panic [OF sample_env_ideal(2) fresh_compiler_ok sample_NewReloader
      run_signal [OF run_refl], of failing_call on_time 1000 5 9 True sample_event sample_state]
  by (simp add: sample_event_def)

section \<open>The feed shim and the ingest server agree on events\<close>


definition like_event :: jetstreamEvent where
  "like_event = \<lparr>je_DID = ''did:1'', je_TimeUS = 0, je_Kind = ''commit'',
     je_Commit = Some \<lparr>jc_Rev = ''r'', jc_Operation = ''create'', jc_Collection = ''app.bsky.feed.like'',
       jc_RKey = ''k'', jc_Record = Some [], jc_CID = ''c''\<rparr>\<rparr>"

definition like_parse :: parse_env where
  "like_parse = \<lparr>pe_unmarshal = (\<lambda>raw. case shim_filter ''now'' (Inr like_event) of Some p \<Rightarrow> Inr p | None \<Rightarrow> Inl ''''),
     pe_rfc3339 = (\<lambda>s. Inr 0), pe_uuid = (\<lambda>n. Inl ''''), pe_now = (\<lambda>n. 0)\<rparr>"


section \<open>Counter keys and ownership\<close>

text \<open>
  In cluster mode a counter key may be used by an event of any entity it is affine to. The
  rule is ambiguous when entity names contain colons: the key \<^verbatim>\<open>u:x\<close> is affine to the entities
  \<^verbatim>\<open>u\<close> and \<^verbatim>\<open>u:x\<close>, which different pods own, so both pods count it.
\<close>

lemma affine_key_two_homes:
  "affineKey ''u:x'' ''u'' \<and> affineKey ''u:x'' ''u:x'' \<and>
   fst (Owner two_pods ''u'') = ''a'' \<and> fst (Owner two_pods ''u:x'') = ''b''"
  by code_simp

end
